(* ===== verification/Prelude.thy ===== *)
theory Prelude
  imports Main "HOL-Library.Word"
begin

text \<open>
  Shared vocabulary of the development: the fixed-width integer types of
  \<^verbatim>\<open>kernel/include/b1nix/types.h\<close>, the error codes of
  \<^verbatim>\<open>kernel/include/b1nix/errno.h\<close>, the result types of the modelled kernel
  functions, a driver for C loops whose termination is proved separately, and
  the generic lemmas on words, lists and fixed-size tables that the component
  theories use.
\<close>

unbundle bit_operations_syntax

section \<open>Types of the model\<close>

type_synonym u8 = "8 word"
type_synonym u16 = "16 word"
type_synonym u32 = "32 word"
type_synonym u64 = "64 word"

text \<open>The error codes the modelled functions return (as \<open>-errno\<close> in the C code).\<close>

datatype errno =
    EPERM | ENOENT | ESRCH | EINTR | EIO | ENXIO | E2BIG | EBADF | EAGAIN | ENOMEM
  | EACCES | EFAULT | EBUSY | EEXIST | EINVAL | ENFILE | EMFILE | ENOTTY | EFBIG
  | ENOSPC | EPIPE | ERANGE | ENAMETOOLONG | ENOSYS | ENOMSG | EIDRM | EUSERS
  | EMSGSIZE | ETIMEDOUT | ERESTARTSYS | ERESTARTNOHAND | EBADFD | EXDEV

text \<open>
  A C function that returns a non-negative value or \<open>-errno\<close> returns
  \<open>Inr v\<close> or \<open>Inl e\<close>. A call that may go to sleep has a third
  outcome: it has not returned yet.
\<close>

type_synonym 'a result = "errno + 'a"

datatype 'a outcome = Done "'a result" | Blocked

text \<open>The flags of \<open>open\<close> and \<open>poll\<close> of \<^verbatim>\<open>kernel/include/b1nix/posix.h\<close>.\<close>

definition B1NIX_O_RDONLY :: u32 where "B1NIX_O_RDONLY = 0"
definition B1NIX_O_WRONLY :: u32 where "B1NIX_O_WRONLY = 1"
definition B1NIX_O_RDWR :: u32 where "B1NIX_O_RDWR = 2"
definition B1NIX_O_NONBLOCK :: u32 where "B1NIX_O_NONBLOCK = 0x4000"
definition B1NIX_O_CREAT :: u32 where "B1NIX_O_CREAT = 0x40"
definition B1NIX_O_EXCL :: u32 where "B1NIX_O_EXCL = 0x80"
definition B1NIX_O_TRUNC :: u32 where "B1NIX_O_TRUNC = 0x200"
definition B1NIX_O_PATH :: u32 where "B1NIX_O_PATH = 0x200000"
definition B1NIX_POLLIN :: u16 where "B1NIX_POLLIN = 1"
definition B1NIX_POLLOUT :: u16 where "B1NIX_POLLOUT = 4"
definition B1NIX_POLLERR :: u16 where "B1NIX_POLLERR = 8"
definition B1NIX_POLLHUP :: u16 where "B1NIX_POLLHUP = 16"

text \<open>Inclusion of bit sets, the way the code tests it.\<close>

lemma and_not_0_iff: "(a :: 'a::len word) AND NOT b = 0 \<longleftrightarrow> (\<forall>n. bit a n \<longrightarrow> bit b n)"
  by (auto simp: bit_eq_iff bit_simps dest: bit_imp_le_length)

section \<open>Loops\<close>

text \<open>
  A C loop over a state: \<open>step\<close> either leaves the loop with a result or
  gives the state of the next iteration. A loop that does not end is the value
  \<^term>\<open>None\<close>; that a particular loop returns is always proved as such.
\<close>

partial_function (option) loop :: "('s \<Rightarrow> 'r + 's) \<Rightarrow> 's \<Rightarrow> 'r option" where
  "loop step s = (case step s of Inl r \<Rightarrow> Some r | Inr t \<Rightarrow> loop step t)"

locale bounded_loop =
  fixes step :: "'s \<Rightarrow> 'r + 's"
    and inv :: "'s \<Rightarrow> bool"
    and meas :: "'s \<Rightarrow> nat"
  assumes inv_step: "inv s \<Longrightarrow> step s = Inr t \<Longrightarrow> inv t"
    and meas_step: "inv s \<Longrightarrow> step s = Inr t \<Longrightarrow> meas t < meas s"
begin

lemma returns_last:
  assumes "inv s"
  shows "\<exists>t r. inv t \<and> step t = Inl r \<and> loop step s = Some r"
  using assms
proof (induction "meas s" arbitrary: s rule: less_induct)
  case less
  show ?case
  proof (cases "step s")
    case (Inl r)
    then show ?thesis using less.prems by (auto simp: loop.simps [of step s])
  next
    case (Inr t)
    with less.prems have "inv t" "meas t < meas s"
      by (auto intro: inv_step meas_step)
    with less.hyps obtain u r where "inv u" "step u = Inl r" "loop step t = Some r"
      by blast
    with Inr show ?thesis by (auto simp: loop.simps [of step s])
  qed
qed

lemma returns: "inv s \<Longrightarrow> \<exists>r. loop step s = Some r"
  using returns_last by blast

lemma result:
  assumes "inv s" and "loop step s = Some r"
    and "\<And>t q. inv t \<Longrightarrow> step t = Inl q \<Longrightarrow> P q"
  shows "P r"
  using returns_last [OF assms(1)] assms(2,3) by auto

end

section \<open>Memory\<close>

text \<open>
  The result of code that may go wrong: \<open>Wild\<close> is an access outside an array or
  to freed memory, \<open>Panic\<close> a failed \<open>KASSERT\<close> and \<open>Hang\<close> a loop that does not
  return. They are results so that their absence can be proved. \<open>stepped\<close> makes
  the iteration of a loop out of a piece of such code.
\<close>

datatype 'a mem_result = Fine 'a | Wild | Panic | Hang

definition returned :: "'a mem_result option \<Rightarrow> 'a mem_result" where
  "returned r = (case r of None \<Rightarrow> Hang | Some v \<Rightarrow> v)"

definition mem_bind :: "'a mem_result \<Rightarrow> ('a \<Rightarrow> 'b mem_result) \<Rightarrow> 'b mem_result" where
  "mem_bind r k = (case r of Fine v \<Rightarrow> k v | Wild \<Rightarrow> Wild | Panic \<Rightarrow> Panic | Hang \<Rightarrow> Hang)"

definition stepped :: "('r + 's) mem_result \<Rightarrow> 'r mem_result + 's" where
  "stepped r = (case r of Fine (Inl v) \<Rightarrow> Inl (Fine v) | Fine (Inr s) \<Rightarrow> Inr s | Wild \<Rightarrow> Inl Wild | Panic \<Rightarrow> Inl Panic | Hang \<Rightarrow> Inl Hang)"

lemma mem_bind_Fine [simp]: "mem_bind (Fine v) k = k v"
  by (simp add: mem_bind_def)

lemma mem_bind_eq_Fine: "mem_bind r k = Fine w \<longleftrightarrow> (\<exists>v. r = Fine v \<and> k v = Fine w)"
  by (cases r) (simp_all add: mem_bind_def)

lemma stepped_Fine [simp]: "stepped (Fine (Inl v)) = Inl (Fine v)" "stepped (Fine (Inr s)) = Inr s"
  by (simp_all add: stepped_def)

section \<open>Fixed-size tables\<close>

text \<open>
  A C array of \<open>N\<close> slots that the code only indexes below \<open>N\<close> is a function
  on the natural numbers; \<open>first_slot P N\<close> is the scan
  \<open>for (i = 0; i < N; i++) if (P(i)) return i;\<close> with \<^term>\<open>None\<close> for running
  off the end.
\<close>

type_synonym 'a table = "nat \<Rightarrow> 'a"

definition first_slot :: "(nat \<Rightarrow> bool) \<Rightarrow> nat \<Rightarrow> nat option" where
  "first_slot P n = find P [0..<n]"

lemma first_slot_None_iff: "first_slot P n = None \<longleftrightarrow> (\<forall>i < n. \<not> P i)"
  by (auto simp: first_slot_def find_None_iff)

lemma first_slot_SomeD:
  assumes "first_slot P n = Some i"
  shows "i < n" and "P i" and "\<And>j. j < i \<Longrightarrow> \<not> P j"
  using assms by (auto simp: first_slot_def find_Some_iff)

lemma first_slot_Some_iff:
  "first_slot P n = Some i \<longleftrightarrow> i < n \<and> P i \<and> (\<forall>j < i. \<not> P j)"
  by (auto simp: first_slot_def find_Some_iff intro!: exI [where x = i])

lemma first_slot_ex: "i < n \<Longrightarrow> P i \<Longrightarrow> \<exists>j. first_slot P n = Some j"
  using first_slot_None_iff [of P n] by auto

lemma first_slot_cong:
  "(\<And>i. i < n \<Longrightarrow> P i = Q i) \<Longrightarrow> first_slot P n = first_slot Q n"
  by (auto simp: first_slot_def intro!: find_cong)

lemma first_slot_Suc:
  "first_slot P (Suc k) = (case first_slot P k of Some i \<Rightarrow> Some i | None \<Rightarrow> if P k then Some k else None)"
proof (cases "first_slot P k")
  case None
  then have "first_slot P (Suc k) = (if P k then Some k else None)"
    by (auto simp: first_slot_None_iff first_slot_Some_iff less_Suc_eq)
  then show ?thesis using None by simp
next
  case (Some i)
  then have "first_slot P (Suc k) = Some i" by (simp add: first_slot_Some_iff)
  then show ?thesis using Some by simp
qed

text \<open>Sums over a table after one slot was written.\<close>

lemma sum_table_upd:
  fixes f :: "'a \<Rightarrow> nat" and t :: "'a table"
  assumes "i < n"
  shows "(\<Sum>j<n. f ((t(i := x)) j)) + f (t i) = (\<Sum>j<n. f (t j)) + f x"
proof -
  have "(\<Sum>j<n. f ((t(i := x)) j)) = f x + (\<Sum>j\<in>{..<n} - {i}. f (t j))"
    using assms by (subst sum.remove [of _ i]) auto
  moreover have "(\<Sum>j<n. f (t j)) = f (t i) + (\<Sum>j\<in>{..<n} - {i}. f (t j))"
    using assms by (subst sum.remove [of _ i]) auto
  ultimately show ?thesis by simp
qed

lemma sum_table_upd_group:
  fixes f :: "'a \<Rightarrow> 'b::ab_group_add" and t :: "'a table"
  assumes "i < n"
  shows "(\<Sum>j<n. f ((t(i := x)) j)) = (\<Sum>j<n. f (t j)) - f (t i) + f x"
proof -
  have "(\<Sum>j<n. f ((t(i := x)) j)) = f x + (\<Sum>j\<in>{..<n} - {i}. f (t j))"
    using assms by (subst sum.remove [of _ i]) auto
  moreover have "(\<Sum>j<n. f (t j)) = f (t i) + (\<Sum>j\<in>{..<n} - {i}. f (t j))"
    using assms by (subst sum.remove [of _ i]) auto
  ultimately show ?thesis by simp
qed

section \<open>Calls that sleep\<close>

text \<open>
  A call that sleeps until it can proceed retries an attempt: \<open>attempt st\<close>
  returns the result, or \<^term>\<open>None\<close> when it has to wait. \<open>nowait\<close> is the
  error of a non-blocking call. Each element of the list stands for one sleep:
  whether a signal is pending when the task is about to block, and what the
  rest of the system does to the state until the task runs again; what wakes
  the task is not part of the list. With the list used up the task is still
  asleep.
\<close>

type_synonym 'st sleep = "bool \<times> ('st \<Rightarrow> 'st)"

fun blocking ::
    "('st \<Rightarrow> 'a result option \<times> 'st) \<Rightarrow> errno option \<Rightarrow> errno \<Rightarrow> 'st sleep list \<Rightarrow> 'st \<Rightarrow> 'a outcome \<times> 'st"
where
  "blocking attempt nowait sig [] st =
     (case attempt st of
        (Some r, st') \<Rightarrow> (Done r, st')
      | (None, st') \<Rightarrow>
          (case nowait of Some e \<Rightarrow> (Done (Inl e), st') | None \<Rightarrow> (Blocked, st')))"
| "blocking attempt nowait sig ((pending, env) # ws) st =
     (case attempt st of
        (Some r, st') \<Rightarrow> (Done r, st')
      | (None, st') \<Rightarrow>
          (case nowait of
             Some e \<Rightarrow> (Done (Inl e), st')
           | None \<Rightarrow>
               if pending then (Done (Inl sig), st') else blocking attempt nowait sig ws (env st')))"

definition slept :: "'st sleep list \<Rightarrow> 'st \<Rightarrow> 'st" where
  "slept ws = fold snd ws"

locale sleeper =
  fixes attempt :: "'st \<Rightarrow> 'a result option \<times> 'st"
    and inv :: "'st \<Rightarrow> bool"
  assumes attempt_inv: "inv st \<Longrightarrow> attempt st = (r, st') \<Longrightarrow> inv st'"
    and attempt_quiet: "attempt st = (None, st') \<Longrightarrow> st' = st"
begin

lemma blocking_inv:
  assumes "inv st" "\<And>w s. w \<in> set ws \<Longrightarrow> inv s \<Longrightarrow> inv (snd w s)"
    "blocking attempt nowait sig ws st = (out, st')"
  shows "inv st'"
  using assms
proof (induction ws arbitrary: st)
  case Nil
  then show ?case by (auto dest: attempt_inv split: prod.splits option.splits)
next
  case (Cons w ws)
  obtain pending env where w: "w = (pending, env)" by force
  obtain r st1 where at: "attempt st = (r, st1)" by force
  have 1: "inv st1" using attempt_inv [OF Cons.prems(1) at] .
  have 2: "inv (env st1)" using Cons.prems(2) [of w st1] 1 by (simp add: w)
  show ?case
    using Cons.IH [OF 2] Cons.prems(2,3) 1 at by (auto simp: w split: option.splits if_splits)
qed

lemma blocking_returned:
  assumes "inv st" "\<And>w s. w \<in> set ws \<Longrightarrow> inv s \<Longrightarrow> inv (snd w s)"
    "blocking attempt nowait sig ws st = (Done (Inr v), st')"
  shows "\<exists>n\<le>length ws. inv (slept (take n ws) st) \<and> attempt (slept (take n ws) st) = (Some (Inr v), st')"
  using assms
proof (induction ws arbitrary: st)
  case Nil
  then show ?case by (auto simp: slept_def split: prod.splits option.splits)
next
  case (Cons w ws)
  obtain pending env where w: "w = (pending, env)" by force
  obtain r st1 where at: "attempt st = (r, st1)" by force
  show ?case
  proof (cases r)
    case None
    then have st1: "st1 = st" using attempt_quiet at by blast
    have inv: "inv (env st)" using Cons.prems(1) Cons.prems(2) [of w st] by (simp add: w)
    have "blocking attempt nowait sig ws (env st) = (Done (Inr v), st')"
      using Cons.prems(3) at None st1 by (auto simp: w split: option.splits if_splits)
    then obtain n where "n \<le> length ws" "inv (slept (take n ws) (env st))"
      "attempt (slept (take n ws) (env st)) = (Some (Inr v), st')"
      using Cons.IH [OF inv] Cons.prems(2) by auto
    then show ?thesis by (intro exI [of _ "Suc n"]) (simp add: slept_def w)
  next
    case (Some q)
    then have "attempt st = (Some (Inr v), st')" using at Cons.prems(3) by (auto simp: w)
    then show ?thesis using Cons.prems(1) by (intro exI [of _ 0]) (simp add: slept_def)
  qed
qed

end

end
