(* ===== verification/Bpf.thy ===== *)
theory Bpf
  imports Prelude
begin

text \<open>
  The classic BPF instruction set, shared by the socket filters
  (\<^verbatim>\<open>kernel/net/sock_filter.c\<close>) and the system call filters
  (\<^verbatim>\<open>kernel/sched/seccomp.c\<close>): both files repeat the same opcode macros and
  the same machine (accumulator, index register, sixteen scratch words). The
  theory holds the instruction record, the field selectors of the opcode, the
  machine state and the pieces of the two interpreters that are identical; the
  locale \<open>bpf_machine\<close> states what makes such an interpreter return.
\<close>

section \<open>Instructions\<close>

record sock_filter =
  f_code :: u16
  f_jt :: u8
  f_jf :: u8
  f_k :: u32

definition BPF_CLASS :: "u16 \<Rightarrow> u16" where "BPF_CLASS code = code AND 0x07"
definition BPF_SIZE :: "u16 \<Rightarrow> u16" where "BPF_SIZE code = code AND 0x18"
definition BPF_MODE :: "u16 \<Rightarrow> u16" where "BPF_MODE code = code AND 0xe0"
definition BPF_OP :: "u16 \<Rightarrow> u16" where "BPF_OP code = code AND 0xf0"
definition BPF_SRC :: "u16 \<Rightarrow> u16" where "BPF_SRC code = code AND 0x08"
definition BPF_RVAL :: "u16 \<Rightarrow> u16" where "BPF_RVAL code = code AND 0x18"
definition BPF_MISCOP :: "u16 \<Rightarrow> u16" where "BPF_MISCOP code = code AND 0xf8"

abbreviation (input) BPF_LD :: u16 where "BPF_LD \<equiv> 0x00"
abbreviation (input) BPF_LDX :: u16 where "BPF_LDX \<equiv> 0x01"
abbreviation (input) BPF_ST :: u16 where "BPF_ST \<equiv> 0x02"
abbreviation (input) BPF_STX :: u16 where "BPF_STX \<equiv> 0x03"
abbreviation (input) BPF_ALU :: u16 where "BPF_ALU \<equiv> 0x04"
abbreviation (input) BPF_JMP :: u16 where "BPF_JMP \<equiv> 0x05"
abbreviation (input) BPF_RET :: u16 where "BPF_RET \<equiv> 0x06"
abbreviation (input) BPF_MISC :: u16 where "BPF_MISC \<equiv> 0x07"

abbreviation (input) BPF_W :: u16 where "BPF_W \<equiv> 0x00"
abbreviation (input) BPF_H :: u16 where "BPF_H \<equiv> 0x08"
abbreviation (input) BPF_B :: u16 where "BPF_B \<equiv> 0x10"

abbreviation (input) BPF_IMM :: u16 where "BPF_IMM \<equiv> 0x00"
abbreviation (input) BPF_ABS :: u16 where "BPF_ABS \<equiv> 0x20"
abbreviation (input) BPF_IND :: u16 where "BPF_IND \<equiv> 0x40"
abbreviation (input) BPF_MEM :: u16 where "BPF_MEM \<equiv> 0x60"
abbreviation (input) BPF_LEN :: u16 where "BPF_LEN \<equiv> 0x80"
abbreviation (input) BPF_MSH :: u16 where "BPF_MSH \<equiv> 0xa0"

abbreviation (input) BPF_ADD :: u16 where "BPF_ADD \<equiv> 0x00"
abbreviation (input) BPF_SUB :: u16 where "BPF_SUB \<equiv> 0x10"
abbreviation (input) BPF_MUL :: u16 where "BPF_MUL \<equiv> 0x20"
abbreviation (input) BPF_DIV :: u16 where "BPF_DIV \<equiv> 0x30"
abbreviation (input) BPF_OR :: u16 where "BPF_OR \<equiv> 0x40"
abbreviation (input) BPF_AND :: u16 where "BPF_AND \<equiv> 0x50"
abbreviation (input) BPF_LSH :: u16 where "BPF_LSH \<equiv> 0x60"
abbreviation (input) BPF_RSH :: u16 where "BPF_RSH \<equiv> 0x70"
abbreviation (input) BPF_NEG :: u16 where "BPF_NEG \<equiv> 0x80"
abbreviation (input) BPF_MOD :: u16 where "BPF_MOD \<equiv> 0x90"
abbreviation (input) BPF_XOR :: u16 where "BPF_XOR \<equiv> 0xa0"

abbreviation (input) BPF_JA :: u16 where "BPF_JA \<equiv> 0x00"
abbreviation (input) BPF_JEQ :: u16 where "BPF_JEQ \<equiv> 0x10"
abbreviation (input) BPF_JGT :: u16 where "BPF_JGT \<equiv> 0x20"
abbreviation (input) BPF_JGE :: u16 where "BPF_JGE \<equiv> 0x30"
abbreviation (input) BPF_JSET :: u16 where "BPF_JSET \<equiv> 0x40"

abbreviation (input) BPF_K :: u16 where "BPF_K \<equiv> 0x00"
abbreviation (input) BPF_X :: u16 where "BPF_X \<equiv> 0x08"
abbreviation (input) BPF_A :: u16 where "BPF_A \<equiv> 0x10"
abbreviation (input) BPF_TAX :: u16 where "BPF_TAX \<equiv> 0x00"
abbreviation (input) BPF_TXA :: u16 where "BPF_TXA \<equiv> 0x80"

definition BPF_MEMWORDS :: nat where "BPF_MEMWORDS = 16"

section \<open>The machine\<close>

text \<open>
  \<open>BWild\<close> is an access outside an array of the interpreter (\<open>mem[]\<close>, the
  packet): undefined behaviour in C, a value here, so that its absence can be
  proved.
\<close>

datatype bpf_result = BRet u32 | BWild

record bpf_state =
  bpf_pc :: u32
  bpf_A :: u32
  bpf_X :: u32
  bpf_mem :: "u32 list"

definition bpf_start :: bpf_state where
  "bpf_start = \<lparr>bpf_pc = 0, bpf_A = 0, bpf_X = 0, bpf_mem = replicate BPF_MEMWORDS 0\<rparr>"

text \<open>The end of an iteration that neither jumps nor returns: \<open>pc++\<close>.\<close>

definition bpf_next :: "bpf_state \<Rightarrow> bpf_result + bpf_state" where
  "bpf_next s = Inr (s\<lparr>bpf_pc := bpf_pc s + 1\<rparr>)"

definition bpf_src :: "u16 \<Rightarrow> u32 \<Rightarrow> u32 \<Rightarrow> u32" where
  "bpf_src code x k = (if BPF_SRC code = BPF_X then x else k)"

text \<open>The comparison of a conditional jump; \<^term>\<open>None\<close> is an unknown opcode.\<close>

definition bpf_taken :: "u16 \<Rightarrow> u32 \<Rightarrow> u32 \<Rightarrow> bool option" where
  "bpf_taken code a src =
     (if BPF_OP code = BPF_JEQ then Some (a = src)
      else if BPF_OP code = BPF_JGT then Some (a > src)
      else if BPF_OP code = BPF_JGE then Some (a \<ge> src)
      else if BPF_OP code = BPF_JSET then Some (a AND src \<noteq> 0)
      else None)"

section \<open>What an interpreter promises\<close>

text \<open>
  The contract of a classic BPF interpreter: no iteration that continues moves
  the program counter backwards or outside the program, and no iteration
  accesses an array out of bounds. Then the run returns, with a verdict.
\<close>

locale bpf_machine =
  fixes step :: "bpf_state \<Rightarrow> bpf_result + bpf_state"
    and inv :: "bpf_state \<Rightarrow> bool"
    and bound :: nat
  assumes inv_next: "inv s \<Longrightarrow> step s = Inr t \<Longrightarrow> inv t"
    and forward: "inv s \<Longrightarrow> step s = Inr t \<Longrightarrow> unat (bpf_pc s) < unat (bpf_pc t)"
    and inside: "inv s \<Longrightarrow> unat (bpf_pc s) \<le> bound"
    and no_wild: "inv s \<Longrightarrow> step s \<noteq> Inl BWild"
begin

sublocale bounded_loop step inv "\<lambda>s. Suc bound - unat (bpf_pc s)"
proof
  fix s t
  assume "inv s" "step s = Inr t"
  then show "inv t" by (rule inv_next)
next
  fix s t
  assume a: "inv s" "step s = Inr t"
  then have "unat (bpf_pc s) < unat (bpf_pc t)" "unat (bpf_pc t) \<le> bound"
    using forward inside inv_next by blast+
  then show "Suc bound - unat (bpf_pc t) < Suc bound - unat (bpf_pc s)" by linarith
qed

lemma verdict:
  assumes "inv s"
  shows "\<exists>v. loop step s = Some (BRet v)"
proof -
  obtain t r where "inv t" "step t = Inl r" "loop step s = Some r"
    using returns_last [OF assms] by blast
  then show ?thesis using no_wild by (cases r) auto
qed

end

section \<open>Lemmas\<close>

lemmas bpf_fields = BPF_CLASS_def BPF_SIZE_def BPF_MODE_def BPF_OP_def BPF_SRC_def
  BPF_RVAL_def BPF_MISCOP_def

lemma bpf_next_eq [simp]:
  "bpf_next s = Inr t \<longleftrightarrow> t = s\<lparr>bpf_pc := bpf_pc s + 1\<rparr>"
  "bpf_next s \<noteq> Inl r"
  by (auto simp: bpf_next_def)

text \<open>An iteration that continues from \<open>pc\<close> goes on at \<open>pc + d + 1\<close> with scratch memory of the same size.\<close>

definition advances :: "u32 \<Rightarrow> bpf_state \<Rightarrow> bpf_result + bpf_state \<Rightarrow> bool" where
  "advances d s r \<longleftrightarrow> r \<noteq> Inl BWild
     \<and> (\<forall>t. r = Inr t \<longrightarrow> bpf_pc t = bpf_pc s + d + 1 \<and> length (bpf_mem t) = length (bpf_mem s))"

lemma advances_next:
  "bpf_pc t = bpf_pc s + d \<Longrightarrow> length (bpf_mem t) = length (bpf_mem s) \<Longrightarrow> advances d s (bpf_next t)"
  by (simp add: advances_def)

lemma advances_ret [simp]: "advances d s (Inl (BRet v))"
  by (simp add: advances_def)

lemma and_word_le: "(x :: 'a::len word) AND m \<le> m"
  by (metis and.commute word_and_le1)

lemma pc_advance:
  fixes pc d len :: u32
  assumes "pc < len" and "unat d < unat len - unat pc - 1"
  shows "unat (pc + d + 1) = unat pc + unat d + 1" and "pc + d + 1 < len"
proof -
  have lt: "unat pc + unat d + 1 < unat len"
    using assms by (simp add: word_less_nat_alt)
  also have "unat len < 2 ^ 32"
    using unsigned_less [of len, where ?'a = nat] by simp
  finally have "unat pc + unat d + 1 < 2 ^ 32" .
  then show "unat (pc + d + 1) = unat pc + unat d + 1"
    by (simp add: unat_word_ariths)
  then show "pc + d + 1 < len"
    using lt by (simp add: word_less_nat_alt)
qed

lemma unat_rest:
  fixes pc len :: u32
  assumes "pc < len"
  shows "unat (len - pc - 1) = unat len - unat pc - 1"
proof -
  have "unat (len - pc) = unat len - unat pc"
    using assms by (simp add: unat_sub word_less_nat_alt word_le_nat_alt)
  moreover have "0 < unat len - unat pc"
    using assms by (simp add: word_less_nat_alt)
  ultimately show ?thesis
    by (subst unat_sub) (auto simp: word_le_nat_alt)
qed

lemma pc_advance_le:
  fixes pc d len :: u32
  assumes "pc < len" and "d \<le> len - pc - 1"
  shows "unat (pc + d + 1) = unat pc + unat d + 1" and "pc + d + 1 \<le> len"
proof -
  have "unat d \<le> unat len - unat pc - 1"
    using assms(2) by (simp add: word_le_nat_alt unat_rest [OF assms(1)])
  moreover have "unat pc < unat len" using assms(1) by (simp add: word_less_nat_alt)
  ultimately have le: "unat pc + unat d + 1 \<le> unat len" by linarith
  also have "unat len < 2 ^ 32"
    using unsigned_less [of len, where ?'a = nat] by simp
  finally show "unat (pc + d + 1) = unat pc + unat d + 1"
    by (simp add: unat_word_ariths)
  then show "pc + d + 1 \<le> len"
    using le by (simp add: word_le_nat_alt)
qed

lemma pc_next:
  fixes pc len :: u32
  assumes "pc < len" and "unat pc + 1 < unat len"
  shows "unat (pc + 1) = unat pc + 1" and "pc + 1 < len"
  using pc_advance [of pc len 0] assms by (simp_all add: word_less_nat_alt)

end
