(* ===== verification/SockFilter.thy ===== *)
theory SockFilter
  imports Bpf
begin

text \<open>
  Classic BPF socket filters, \<^verbatim>\<open>kernel/net/sock_filter.c\<close>: the verifier
  \<open>sock_filter_check\<close>, the constructor \<open>sock_filter_compile\<close> and the
  interpreter \<open>sock_filter_run\<close>. The lemmas show that a program the
  verifier accepts always returns a verdict, never touches scratch memory or
  the packet out of bounds and never runs off its own end.
\<close>

section \<open>Verifier\<close>

definition BPF_MAXINSNS :: u32 where "BPF_MAXINSNS = 4096"

text \<open>One iteration of the verifier's loop: the instruction at \<open>pc\<close> of \<open>len\<close>.\<close>

definition sock_filter_insn_ok :: "u32 \<Rightarrow> u32 \<Rightarrow> sock_filter \<Rightarrow> bool" where
  "sock_filter_insn_ok len pc i =
     (let code = f_code i in
      if BPF_CLASS code = BPF_LD \<or> BPF_CLASS code = BPF_LDX then
        (if BPF_MODE code = BPF_IMM \<or> BPF_MODE code = BPF_ABS \<or> BPF_MODE code = BPF_IND
            \<or> BPF_MODE code = BPF_LEN then True
         else if BPF_MODE code = BPF_MSH then
           \<not> (BPF_CLASS code \<noteq> BPF_LDX \<or> BPF_SIZE code \<noteq> BPF_B)
         else if BPF_MODE code = BPF_MEM then \<not> unat (f_k i) \<ge> BPF_MEMWORDS
         else False)
      else if BPF_CLASS code = BPF_ST \<or> BPF_CLASS code = BPF_STX then
        \<not> unat (f_k i) \<ge> BPF_MEMWORDS
      else if BPF_CLASS code = BPF_ALU then
        (if BPF_OP code \<in> {BPF_ADD, BPF_SUB, BPF_MUL, BPF_OR, BPF_AND, BPF_LSH, BPF_RSH,
                            BPF_NEG, BPF_XOR} then True
         else if BPF_OP code = BPF_DIV \<or> BPF_OP code = BPF_MOD then
           \<not> (BPF_SRC code = BPF_K \<and> f_k i = 0)
         else False)
      else if BPF_CLASS code = BPF_JMP then
        (let rest = len - pc - 1 in
         if BPF_OP code = BPF_JA then \<not> f_k i \<ge> rest
         else if BPF_OP code \<in> {BPF_JEQ, BPF_JGT, BPF_JGE, BPF_JSET} then
           \<not> (ucast (f_jt i) \<ge> rest \<or> ucast (f_jf i) \<ge> rest)
         else False)
      else if BPF_CLASS code = BPF_RET then
        \<not> (BPF_RVAL code \<noteq> BPF_K \<and> BPF_RVAL code \<noteq> BPF_A)
      else if BPF_CLASS code = BPF_MISC then
        \<not> (BPF_MISCOP code \<noteq> BPF_TAX \<and> BPF_MISCOP code \<noteq> BPF_TXA)
      else False)"

definition sock_filter_check :: "sock_filter list \<Rightarrow> u32 \<Rightarrow> bool" where
  "sock_filter_check f len =
     (if len = 0 \<or> len > BPF_MAXINSNS then False
      else if list_all (\<lambda>pc. sock_filter_insn_ok len (word_of_nat pc) (f ! pc)) [0..<unat len]
      then BPF_CLASS (f_code (f ! unat (len - 1))) = BPF_RET
      else False)"

text \<open>A compiled program: the kernel's own copy of a verified instruction array.\<close>

record sock_filter_prog =
  p_len :: u32
  p_insns :: "sock_filter list"

text \<open>\<open>alloc_ok\<close> is whether \<open>kmalloc\<close> finds memory; \<open>insns\<close> is \<^term>\<open>None\<close> for a null pointer.\<close>

definition sock_filter_compile ::
    "bool \<Rightarrow> sock_filter list option \<Rightarrow> u32 \<Rightarrow> sock_filter_prog option" where
  "sock_filter_compile alloc_ok insns len =
     (case insns of
        None \<Rightarrow> None
      | Some f \<Rightarrow>
          if \<not> sock_filter_check f len then None
          else if \<not> alloc_ok then None
          else Some \<lparr>p_len = len, p_insns = take (unat len) f\<rparr>)"

section \<open>Interpreter\<close>

text \<open>
  \<open>packet_at\<close> is the C access \<open>data[i]\<close>; \<open>bpf_load\<close> returns
  \<open>Inr None\<close> where the C function returns 0 (the load runs off the packet)
  and \<open>Inl ()\<close> where the C code would read outside the array.
\<close>

definition packet_at :: "u8 list \<Rightarrow> u32 \<Rightarrow> u32 option" where
  "packet_at data i = (if unat i < length data then Some (ucast (data ! unat i)) else None)"

definition bpf_load :: "u8 list \<Rightarrow> u32 \<Rightarrow> u32 \<Rightarrow> u16 \<Rightarrow> unit + u32 option" where
  "bpf_load data len off sz =
     (if sz = BPF_W then
        (if off + 4 > len \<or> off + 4 < off then Inr None
         else (case (packet_at data off, packet_at data (off + 1),
                     packet_at data (off + 2), packet_at data (off + 3)) of
                 (Some b0, Some b1, Some b2, Some b3) \<Rightarrow>
                   Inr (Some (push_bit 24 b0 OR push_bit 16 b1 OR push_bit 8 b2 OR b3))
               | _ \<Rightarrow> Inl ()))
      else if sz = BPF_H then
        (if off + 2 > len \<or> off + 2 < off then Inr None
         else (case (packet_at data off, packet_at data (off + 1)) of
                 (Some b0, Some b1) \<Rightarrow> Inr (Some (push_bit 8 b0 OR b1))
               | _ \<Rightarrow> Inl ()))
      else if off \<ge> len then Inr None
      else (case packet_at data off of Some b \<Rightarrow> Inr (Some b) | None \<Rightarrow> Inl ()))"

text \<open>Continue with the loaded value, drop the packet, or access out of bounds.\<close>

definition with_load ::
    "unit + u32 option \<Rightarrow> (u32 \<Rightarrow> bpf_state) \<Rightarrow> bpf_result + bpf_state" where
  "with_load r cont =
     (case r of Inl _ \<Rightarrow> Inl BWild | Inr None \<Rightarrow> Inl (BRet 0) | Inr (Some v) \<Rightarrow> bpf_next (cont v))"

definition sf_ld :: "u8 list \<Rightarrow> u32 \<Rightarrow> sock_filter \<Rightarrow> bpf_state \<Rightarrow> bpf_result + bpf_state" where
  "sf_ld data len i s =
     (let code = f_code i; k = f_k i in
      if BPF_MODE code = BPF_IMM then bpf_next (s\<lparr>bpf_A := k\<rparr>)
      else if BPF_MODE code = BPF_LEN then bpf_next (s\<lparr>bpf_A := len\<rparr>)
      else if BPF_MODE code = BPF_MEM then
        (if unat k < length (bpf_mem s) then bpf_next (s\<lparr>bpf_A := bpf_mem s ! unat k\<rparr>)
         else Inl BWild)
      else if BPF_MODE code = BPF_ABS then
        with_load (bpf_load data len k (BPF_SIZE code)) (\<lambda>v. s\<lparr>bpf_A := v\<rparr>)
      else if BPF_MODE code = BPF_IND then
        with_load (bpf_load data len (bpf_X s + k) (BPF_SIZE code)) (\<lambda>v. s\<lparr>bpf_A := v\<rparr>)
      else Inl (BRet 0))"

definition sf_ldx :: "u8 list \<Rightarrow> u32 \<Rightarrow> sock_filter \<Rightarrow> bpf_state \<Rightarrow> bpf_result + bpf_state" where
  "sf_ldx data len i s =
     (let code = f_code i; k = f_k i in
      if BPF_MODE code = BPF_IMM then bpf_next (s\<lparr>bpf_X := k\<rparr>)
      else if BPF_MODE code = BPF_LEN then bpf_next (s\<lparr>bpf_X := len\<rparr>)
      else if BPF_MODE code = BPF_MEM then
        (if unat k < length (bpf_mem s) then bpf_next (s\<lparr>bpf_X := bpf_mem s ! unat k\<rparr>)
         else Inl BWild)
      else if BPF_MODE code = BPF_ABS then
        with_load (bpf_load data len k (BPF_SIZE code)) (\<lambda>v. s\<lparr>bpf_X := v\<rparr>)
      else if BPF_MODE code = BPF_IND then
        with_load (bpf_load data len (bpf_X s + k) (BPF_SIZE code)) (\<lambda>v. s\<lparr>bpf_X := v\<rparr>)
      else if BPF_MODE code = BPF_MSH then
        with_load (bpf_load data len k BPF_B) (\<lambda>v. s\<lparr>bpf_X := push_bit 2 (v AND 0x0f)\<rparr>)
      else Inl (BRet 0))"

definition sf_st :: "u32 \<Rightarrow> u32 \<Rightarrow> bpf_state \<Rightarrow> bpf_result + bpf_state" where
  "sf_st k v s =
     (if unat k < length (bpf_mem s) then bpf_next (s\<lparr>bpf_mem := (bpf_mem s)[unat k := v]\<rparr>)
      else Inl BWild)"

definition sf_alu :: "sock_filter \<Rightarrow> bpf_state \<Rightarrow> bpf_result + bpf_state" where
  "sf_alu i s =
     (let code = f_code i; src = bpf_src code (bpf_X s) (f_k i); a = bpf_A s;
          put = (\<lambda>v. bpf_next (s\<lparr>bpf_A := v\<rparr>)) in
      if BPF_OP code = BPF_ADD then put (a + src)
      else if BPF_OP code = BPF_SUB then put (a - src)
      else if BPF_OP code = BPF_MUL then put (a * src)
      else if BPF_OP code = BPF_DIV then (if src = 0 then Inl (BRet 0) else put (a div src))
      else if BPF_OP code = BPF_MOD then (if src = 0 then Inl (BRet 0) else put (a mod src))
      else if BPF_OP code = BPF_OR then put (a OR src)
      else if BPF_OP code = BPF_AND then put (a AND src)
      else if BPF_OP code = BPF_LSH then put (if src \<ge> 32 then 0 else push_bit (unat src) a)
      else if BPF_OP code = BPF_RSH then put (if src \<ge> 32 then 0 else drop_bit (unat src) a)
      else if BPF_OP code = BPF_XOR then put (a XOR src)
      else if BPF_OP code = BPF_NEG then put (- a)
      else Inl (BRet 0))"

definition sf_jmp :: "sock_filter \<Rightarrow> bpf_state \<Rightarrow> bpf_result + bpf_state" where
  "sf_jmp i s =
     (let code = f_code i in
      if BPF_OP code = BPF_JA then bpf_next (s\<lparr>bpf_pc := bpf_pc s + f_k i\<rparr>)
      else (case bpf_taken code (bpf_A s) (bpf_src code (bpf_X s) (f_k i)) of
              None \<Rightarrow> Inl (BRet 0)
            | Some t \<Rightarrow>
                bpf_next (s\<lparr>bpf_pc := bpf_pc s + ucast (if t then f_jt i else f_jf i)\<rparr>)))"

text \<open>One iteration of the interpreter's loop.\<close>

definition sock_filter_step ::
    "sock_filter_prog \<Rightarrow> u8 list \<Rightarrow> u32 \<Rightarrow> bpf_state \<Rightarrow> bpf_result + bpf_state" where
  "sock_filter_step prog data len s =
     (if \<not> bpf_pc s < p_len prog then Inl (BRet 0)
      else if \<not> unat (bpf_pc s) < length (p_insns prog) then Inl BWild
      else let i = p_insns prog ! unat (bpf_pc s); code = f_code i in
        if BPF_CLASS code = BPF_LD then sf_ld data len i s
        else if BPF_CLASS code = BPF_LDX then sf_ldx data len i s
        else if BPF_CLASS code = BPF_ST then sf_st (f_k i) (bpf_A s) s
        else if BPF_CLASS code = BPF_STX then sf_st (f_k i) (bpf_X s) s
        else if BPF_CLASS code = BPF_ALU then sf_alu i s
        else if BPF_CLASS code = BPF_JMP then sf_jmp i s
        else if BPF_CLASS code = BPF_RET then
          Inl (BRet (if BPF_RVAL code = BPF_A then bpf_A s else f_k i))
        else if BPF_CLASS code = BPF_MISC then
          (if BPF_MISCOP code = BPF_TAX then bpf_next (s\<lparr>bpf_X := bpf_A s\<rparr>)
           else bpf_next (s\<lparr>bpf_A := bpf_X s\<rparr>))
        else Inl (BRet 0))"

text \<open>
  \<^term>\<open>None\<close> for \<open>prog\<close> or \<open>data\<close> is a null pointer; the result is
  \<^term>\<open>None\<close> if the loop does not end.
\<close>

definition sock_filter_run ::
    "sock_filter_prog option \<Rightarrow> u8 list option \<Rightarrow> u32 \<Rightarrow> bpf_result option" where
  "sock_filter_run prog data len =
     (case prog of
        None \<Rightarrow> Some (BRet (- 1))
      | Some p \<Rightarrow>
          (case data of
             None \<Rightarrow> loop (sock_filter_step p [] 0) bpf_start
           | Some d \<Rightarrow> loop (sock_filter_step p d len) bpf_start))"

text \<open>
  The invariant of a run: the program was accepted, the packet array is at
  least as long as \<open>len\<close> says, the program counter is inside the program and
  the scratch memory has its sixteen words.
\<close>

definition sock_filter_inv ::
    "sock_filter_prog \<Rightarrow> u8 list \<Rightarrow> u32 \<Rightarrow> bpf_state \<Rightarrow> bool" where
  "sock_filter_inv p data len s =
     (sock_filter_check (p_insns p) (p_len p) \<and> length (p_insns p) = unat (p_len p)
      \<and> unat len \<le> length data
      \<and> bpf_pc s < p_len p \<and> length (bpf_mem s) = BPF_MEMWORDS)"

section \<open>Lemmas\<close>

lemma packet_at_inside: "unat i < length data \<Longrightarrow> packet_at data i \<noteq> None"
  by (simp add: packet_at_def)

lemma offset_inside:
  fixes off len :: u32
  assumes "\<not> (off + n > len \<or> off + n < off)" and "j < n"
  shows "unat (off + j) < unat len"
proof -
  have nw: "unat (off + n) = unat off + unat n"
    using assms(1) by (metis not_less_iff_gr_or_eq unat_plus_simple word_le_less_eq)
  have "unat j < unat n" using assms(2) by (simp add: word_less_nat_alt)
  moreover have "unat (off + j) \<le> unat off + unat j"
    by (simp add: unat_word_ariths)
  moreover have "unat (off + n) \<le> unat len"
    using assms(1) by (simp add: word_less_nat_alt word_le_nat_alt)
  ultimately show ?thesis using nw by linarith
qed

lemma bpf_load_in_bounds:
  assumes "unat len \<le> length data"
  shows "bpf_load data len off sz \<noteq> Inl ()"
proof -
  have at: "packet_at data (off + j) \<noteq> None"
    if "\<not> (off + n > len \<or> off + n < off)" "j < n" for j n
    using offset_inside [OF that] assms by (intro packet_at_inside) linarith
  have at0: "packet_at data off \<noteq> None" if "\<not> (off + n > len \<or> off + n < off)" "0 < n" for n
    using at [OF that] by simp
  have w: "packet_at data off \<noteq> None \<and> packet_at data (off + 1) \<noteq> None
      \<and> packet_at data (off + 2) \<noteq> None \<and> packet_at data (off + 3) \<noteq> None"
    if "\<not> (off + 4 > len \<or> off + 4 < off)"
    using at [OF that, of 1] at [OF that, of 2] at [OF that, of 3] at0 [OF that] by simp
  have h: "packet_at data off \<noteq> None \<and> packet_at data (off + 1) \<noteq> None"
    if "\<not> (off + 2 > len \<or> off + 2 < off)"
    using at [OF that, of 1] at0 [OF that] by simp
  have b: "packet_at data off \<noteq> None" if "\<not> off \<ge> len"
    using that assms by (intro packet_at_inside) (simp add: word_le_nat_alt)
  show ?thesis
    unfolding bpf_load_def using w h b by (auto split: option.splits)
qed

lemma with_load_cases:
  assumes "r \<noteq> Inl ()"
  shows "with_load r cont \<noteq> Inl BWild"
    and "with_load r cont = Inr t \<Longrightarrow> \<exists>v. t = (cont v)\<lparr>bpf_pc := bpf_pc (cont v) + 1\<rparr>"
  using assms by (auto simp: with_load_def split: sum.splits option.splits)

lemma advances_load:
  assumes "r \<noteq> Inl ()" and "\<And>v. bpf_pc (cont v) = bpf_pc s"
    and "\<And>v. length (bpf_mem (cont v)) = length (bpf_mem s)"
  shows "advances 0 s (with_load r cont)"
  using with_load_cases [OF assms(1)] assms(2,3) unfolding advances_def by fastforce

lemmas advances_intros = advances_next advances_ret advances_load bpf_load_in_bounds

lemma sf_ld_advances:
  assumes "unat len \<le> length data"
    and "BPF_MODE (f_code i) = BPF_MEM \<Longrightarrow> unat (f_k i) < length (bpf_mem s)"
  shows "advances 0 s (sf_ld data len i s)"
  unfolding sf_ld_def Let_def
  using assms by (auto intro!: advances_intros)

lemma sf_ldx_advances:
  assumes "unat len \<le> length data"
    and "BPF_MODE (f_code i) = BPF_MEM \<Longrightarrow> unat (f_k i) < length (bpf_mem s)"
  shows "advances 0 s (sf_ldx data len i s)"
  unfolding sf_ldx_def Let_def
  using assms by (auto intro!: advances_intros)

lemma sf_st_advances:
  "unat k < length (bpf_mem s) \<Longrightarrow> advances 0 s (sf_st k v s)"
  unfolding sf_st_def by (auto intro!: advances_intros)

lemma sf_alu_advances: "advances 0 s (sf_alu i s)"
  unfolding sf_alu_def Let_def by (auto intro!: advances_intros)

lemma sf_jmp_advances:
  "\<exists>d. advances d s (sf_jmp i s)
     \<and> (d = f_k i \<and> BPF_OP (f_code i) = BPF_JA \<or> BPF_OP (f_code i) \<noteq> BPF_JA \<and> (d = ucast (f_jt i) \<or> d = ucast (f_jf i)))"
proof (cases "BPF_OP (f_code i) = BPF_JA")
  case True
  then show ?thesis by (auto simp: sf_jmp_def advances_def)
next
  case False
  define b where "b = bpf_taken (f_code i) (bpf_A s) (bpf_src (f_code i) (bpf_X s) (f_k i))"
  show ?thesis
  proof (cases b)
    case None
    with False show ?thesis by (auto simp: sf_jmp_def b_def)
  next
    case (Some t)
    with False have "advances (ucast (if t then f_jt i else f_jf i)) s (sf_jmp i s)"
      by (auto simp: sf_jmp_def b_def advances_def)
    with False show ?thesis by (cases t) auto
  qed
qed

lemma sock_filter_check_insn:
  assumes "sock_filter_check f len" and "pc < len"
  shows "sock_filter_insn_ok len pc (f ! unat pc)"
proof -
  have "\<forall>i \<in> set [0..<unat len]. sock_filter_insn_ok len (word_of_nat i) (f ! i)"
    using assms(1) unfolding sock_filter_check_def list_all_iff by (simp split: if_splits)
  moreover have "unat pc \<in> set [0..<unat len]"
    using assms(2) by (simp add: word_less_nat_alt)
  ultimately have "sock_filter_insn_ok len (word_of_nat (unat pc)) (f ! unat pc)" by (rule bspec)
  then show ?thesis by simp
qed

lemma sock_filter_check_last:
  assumes "sock_filter_check f len"
  shows "BPF_CLASS (f_code (f ! (unat len - 1))) = BPF_RET" and "0 < unat len"
proof -
  from assms have "len \<noteq> 0" and c: "BPF_CLASS (f_code (f ! unat (len - 1))) = BPF_RET"
    by (auto simp: sock_filter_check_def split: if_splits)
  then show "0 < unat len" by (simp add: unat_gt_0)
  from \<open>len \<noteq> 0\<close> have "unat (len - 1) = unat len - 1"
    by (simp add: unat_minus_one)
  with c show "BPF_CLASS (f_code (f ! (unat len - 1))) = BPF_RET" by simp
qed

text \<open>One iteration on an accepted program.\<close>

lemma sock_filter_step_advances:
  assumes "sock_filter_inv p data len s"
  shows "\<exists>d. advances d s (sock_filter_step p data len s)
     \<and> ((\<exists>t. sock_filter_step p data len s = Inr t)
          \<longrightarrow> unat d < unat (p_len p) - unat (bpf_pc s) - 1)"
proof -
  let ?i = "p_insns p ! unat (bpf_pc s)"
  let ?c = "f_code ?i"
  have chk: "sock_filter_check (p_insns p) (p_len p)" and pc: "bpf_pc s < p_len p"
    and len: "unat len \<le> length data" and mem: "length (bpf_mem s) = BPF_MEMWORDS"
    and pl: "length (p_insns p) = unat (p_len p)"
    using assms by (auto simp: sock_filter_inv_def)
  have ok: "sock_filter_insn_ok (p_len p) (bpf_pc s) ?i"
    by (rule sock_filter_check_insn [OF chk pc])
  have pcl: "unat (bpf_pc s) < length (p_insns p)"
    using pc pl by (simp add: word_less_nat_alt)
  have room: "0 < unat (p_len p) - unat (bpf_pc s) - 1" if "BPF_CLASS ?c \<noteq> BPF_RET"
  proof -
    have "unat (bpf_pc s) \<noteq> unat (p_len p) - 1"
      using sock_filter_check_last(1) [OF chk] that by auto
    then show ?thesis using pc by (simp add: word_less_nat_alt)
  qed
  have step: "sock_filter_step p data len s =
      (if BPF_CLASS ?c = BPF_LD then sf_ld data len ?i s
       else if BPF_CLASS ?c = BPF_LDX then sf_ldx data len ?i s
       else if BPF_CLASS ?c = BPF_ST then sf_st (f_k ?i) (bpf_A s) s
       else if BPF_CLASS ?c = BPF_STX then sf_st (f_k ?i) (bpf_X s) s
       else if BPF_CLASS ?c = BPF_ALU then sf_alu ?i s
       else if BPF_CLASS ?c = BPF_JMP then sf_jmp ?i s
       else if BPF_CLASS ?c = BPF_RET then
         Inl (BRet (if BPF_RVAL ?c = BPF_A then bpf_A s else f_k ?i))
       else if BPF_CLASS ?c = BPF_MISC then
         (if BPF_MISCOP ?c = BPF_TAX then bpf_next (s\<lparr>bpf_X := bpf_A s\<rparr>)
          else bpf_next (s\<lparr>bpf_A := bpf_X s\<rparr>))
       else Inl (BRet 0))"
    using pc pcl by (simp add: sock_filter_step_def Let_def)
  consider (jmp) "BPF_CLASS ?c = BPF_JMP" | (ret) "BPF_CLASS ?c = BPF_RET"
    | (other) "BPF_CLASS ?c \<noteq> BPF_JMP" "BPF_CLASS ?c \<noteq> BPF_RET" by blast
  then show ?thesis
  proof cases
    case jmp
    then obtain d where d: "advances d s (sock_filter_step p data len s)"
        "d = f_k ?i \<and> BPF_OP ?c = BPF_JA
         \<or> BPF_OP ?c \<noteq> BPF_JA \<and> (d = ucast (f_jt ?i) \<or> d = ucast (f_jf ?i))"
      using sf_jmp_advances [of s ?i] by (auto simp: step)
    from ok jmp d(2) have "d < p_len p - bpf_pc s - 1"
      by (auto simp: sock_filter_insn_ok_def Let_def not_le split: if_splits)
    then have "unat d < unat (p_len p) - unat (bpf_pc s) - 1"
      using unat_rest [OF pc] by (simp add: word_less_nat_alt)
    with d(1) show ?thesis by blast
  next
    case ret
    then show ?thesis by (auto simp: step)
  next
    case other
    have k: "unat (f_k ?i) < length (bpf_mem s)"
      if "BPF_CLASS ?c \<in> {BPF_ST, BPF_STX} \<or> BPF_CLASS ?c \<in> {BPF_LD, BPF_LDX} \<and> BPF_MODE ?c = BPF_MEM"
      using ok that mem by (auto simp: sock_filter_insn_ok_def Let_def split: if_splits)
    have "advances 0 s (sock_filter_step p data len s)"
      using other k len
      by (auto simp: step intro!: sf_ld_advances sf_ldx_advances sf_st_advances sf_alu_advances
            advances_intros)
    with room other show ?thesis by auto
  qed
qed

interpretation sf: bpf_machine "sock_filter_step p data len" "sock_filter_inv p data len"
    "unat (p_len p)" for p data len
proof
  fix s t
  assume inv: "sock_filter_inv p data len s" and st: "sock_filter_step p data len s = Inr t"
  obtain d where d: "advances d s (sock_filter_step p data len s)"
      "unat d < unat (p_len p) - unat (bpf_pc s) - 1"
    using sock_filter_step_advances [OF inv] st by blast
  have pc: "bpf_pc s < p_len p" using inv by (simp add: sock_filter_inv_def)
  have t: "bpf_pc t = bpf_pc s + d + 1" "length (bpf_mem t) = length (bpf_mem s)"
    using d(1) st by (auto simp: advances_def)
  show "sock_filter_inv p data len t"
    using inv t pc_advance(2) [OF pc d(2)] by (simp add: sock_filter_inv_def)
  show "unat (bpf_pc s) < unat (bpf_pc t)"
    using pc_advance(1) [OF pc d(2)] t by simp
next
  fix s
  assume inv: "sock_filter_inv p data len s"
  then show "unat (bpf_pc s) \<le> unat (p_len p)"
    by (simp add: sock_filter_inv_def word_less_nat_alt)
  show "sock_filter_step p data len s \<noteq> Inl BWild"
    using sock_filter_step_advances [OF inv] by (auto simp: advances_def)
qed

lemma sock_filter_inv_start:
  assumes "sock_filter_compile True (Some f) n = Some p" and "unat n \<le> length f"
    and "unat len \<le> length data"
  shows "sock_filter_inv p data len bpf_start"
proof -
  from assms(1) have c: "sock_filter_check f n" and p: "p = \<lparr>p_len = n, p_insns = take (unat n) f\<rparr>"
    by (auto simp: sock_filter_compile_def split: if_splits)
  have "sock_filter_check (take (unat n) f) n"
    using c unfolding sock_filter_check_def
    by (auto simp: list_all_iff unat_minus_one unat_gt_0 split: if_splits)
  moreover from c have "0 < n" by (simp add: sock_filter_check_def word_neq_0_conv split: if_splits)
  ultimately show ?thesis
    using p assms(2,3) by (simp add: sock_filter_inv_def bpf_start_def)
qed

section \<open>Properties\<close>

text \<open>
  C1. A program that \<open>sock_filter_compile\<close> accepts always returns a verdict when it is run on
  a packet: the interpreter's loop ends, and no iteration reads or writes
  outside the scratch memory, the program or the packet.
\<close>

theorem sock_filter_verified_returns:
  assumes "sock_filter_compile True (Some f) n = Some p" and "unat n \<le> length f"
    and "unat len \<le> length data"
  shows "\<exists>v. sock_filter_run (Some p) (Some data) len = Some (BRet v)"
  using sf.verdict [OF sock_filter_inv_start [OF assms]] by (simp add: sock_filter_run_def)

definition example_filter :: "sock_filter list" where
  "example_filter =
     [\<lparr>f_code = 0x20, f_jt = 0, f_jf = 0, f_k = 0\<rparr>,
      \<lparr>f_code = 0x15, f_jt = 0, f_jf = 1, f_k = 0x01020304\<rparr>,
      \<lparr>f_code = 0x06, f_jt = 0, f_jf = 0, f_k = 0xffff\<rparr>,
      \<lparr>f_code = 0x06, f_jt = 0, f_jf = 0, f_k = 0\<rparr>]"

theorem sock_filter_verified_returns_witness:
  "\<exists>v. sock_filter_run (Some \<lparr>p_len = 4, p_insns = example_filter\<rparr>) (Some [1, 2, 3, 4]) 4
     = Some (BRet v)"
proof (rule sock_filter_verified_returns)
  show "sock_filter_compile True (Some example_filter) 4 = Some \<lparr>p_len = 4, p_insns = example_filter\<rparr>"
    by code_simp
  show "unat (4 :: u32) \<le> length example_filter" by code_simp
  show "unat (4 :: u32) \<le> length [1 :: u8, 2, 3, 4]" by code_simp
qed

lemma word4_join:
  fixes v :: u32
  shows "push_bit 24 (ucast (ucast (drop_bit 24 v) :: u8)) OR push_bit 16 (ucast (ucast (drop_bit 16 v) :: u8))
    OR push_bit 8 (ucast (ucast (drop_bit 8 v) :: u8)) OR ucast (ucast v :: u8) = v"
    (is "?x = v")
proof (rule bit_word_eqI)
  fix n
  assume "n < LENGTH(32)"
  then consider "n < 8" | "8 \<le> n" "n < 16" | "16 \<le> n" "n < 24" | "24 \<le> n" "n < 32"
    by fastforce
  then show "bit ?x n = bit v n"
    by cases (auto simp: bit_simps)
qed

text \<open>
  C2. A 32-bit packet load is in network byte order: loading at the offset of the four
  big-endian bytes of a value gives that value back.
\<close>

theorem bpf_load_big_endian:
  fixes v :: u32
  assumes "unat len = length pre + 4 + length post" and "unat off = length pre"
  shows "bpf_load (pre @ [ucast (drop_bit 24 v), ucast (drop_bit 16 v), ucast (drop_bit 8 v), ucast v] @ post)
           len off BPF_W = Inr (Some v)"
proof -
  have b: "unat off + 4 < 2 ^ 32"
  proof -
    have "unat off + 4 \<le> unat len" using assms by simp
    then show ?thesis using unsigned_less [of len, where ?'a = nat] by simp
  qed
  have u: "unat (off + 1) = length pre + 1" "unat (off + 2) = length pre + 2"
      "unat (off + 3) = length pre + 3" "unat (off + 4) = length pre + 4"
    using b assms(2) by (simp_all add: unat_word_ariths)
  have "\<not> (off + 4 > len \<or> off + 4 < off)"
    using u assms by (simp add: word_less_nat_alt)
  then show ?thesis
    using u assms(2) word4_join [of v] by (simp add: bpf_load_def packet_at_def nth_append)
qed

theorem bpf_load_big_endian_witness:
  "bpf_load [0, 0, 1, 2, 3, 4, 9] 7 2 BPF_W = Inr (Some 0x01020304)"
proof -
  have "[0, 0] @ [ucast (drop_bit 24 (0x01020304 :: u32)), ucast (drop_bit 16 (0x01020304 :: u32)),
      ucast (drop_bit 8 (0x01020304 :: u32)), ucast (0x01020304 :: u32)] @ [9] = [0, 0, 1, 2, 3, 4, 9 :: u8]"
    by simp
  then show ?thesis
    using bpf_load_big_endian [of 7 "[0, 0]" "[9]" 2 "0x01020304"] by (simp only:) simp
qed

end
