(* ===== verification/UserNs.thy ===== *)
theory UserNs
  imports Prelude
begin

text \<open>
  User namespaces: \<^verbatim>\<open>kernel/sched/user_namespace.c\<close>, with the credential of
  \<^verbatim>\<open>kernel/include/b1nix/uidgid.h\<close> and the part of the namespace core
  (\<^verbatim>\<open>kernel/sched/namespace.c\<close>) that user namespaces are kept in (the slot tables,
  \<open>ns_alloc_locked\<close>, \<open>ns_get_locked\<close>, \<open>ns_put_locked\<close> for user namespaces,
  \<open>namespace_owner\<close>). The theory holds id translation, namespace-relative
  capabilities, creation and release of namespaces and the write side of
  \<open>/proc/<pid>/uid_map\<close>, \<open>gid_map\<close>, \<open>projid_map\<close> and
  \<open>setgroups\<close>. The lemmas show that a written map is a bijection between the
  ids it covers, what a capability in a namespace means, and the locale
  \<open>cap_authority\<close> states what the rest of the kernel relies on when it asks
  for one.
\<close>

section \<open>Credentials\<close>

record cred =
  c_uid :: u32
  c_euid :: u32
  c_suid :: u32
  c_gid :: u32
  c_egid :: u32
  c_sgid :: u32
  c_groups :: "u32 list"
  c_ngroups :: int
  c_umask :: u16
  c_fsuid :: u32
  c_fsgid :: u32
  cap_effective :: u64
  cap_permitted :: u64
  cap_inheritable :: u64
  cap_bounding :: u64
  cap_ambient :: u64
  c_securebits :: u32
  c_user_ns :: nat

definition MAX_GROUPS :: nat where "MAX_GROUPS = 32"
definition CAP_LAST :: int where "CAP_LAST = 40"
definition CAP_FULL_SET :: u64 where "CAP_FULL_SET = push_bit 41 1 - 1"

abbreviation (input) CAP_CHOWN :: int where "CAP_CHOWN \<equiv> 0"
abbreviation (input) CAP_DAC_OVERRIDE :: int where "CAP_DAC_OVERRIDE \<equiv> 1"
abbreviation (input) CAP_DAC_READ_SEARCH :: int where "CAP_DAC_READ_SEARCH \<equiv> 2"
abbreviation (input) CAP_FOWNER :: int where "CAP_FOWNER \<equiv> 3"
abbreviation (input) CAP_FSETID :: int where "CAP_FSETID \<equiv> 4"
abbreviation (input) CAP_SETGID :: int where "CAP_SETGID \<equiv> 6"
abbreviation (input) CAP_SETUID :: int where "CAP_SETUID \<equiv> 7"
abbreviation (input) CAP_SETPCAP :: int where "CAP_SETPCAP \<equiv> 8"
abbreviation (input) CAP_LINUX_IMMUTABLE :: int where "CAP_LINUX_IMMUTABLE \<equiv> 9"
abbreviation (input) CAP_IPC_OWNER :: int where "CAP_IPC_OWNER \<equiv> 15"
abbreviation (input) CAP_SYS_ADMIN :: int where "CAP_SYS_ADMIN \<equiv> 21"
abbreviation (input) CAP_SYS_RESOURCE :: int where "CAP_SYS_RESOURCE \<equiv> 24"
abbreviation (input) CAP_MKNOD :: int where "CAP_MKNOD \<equiv> 27"
abbreviation (input) CAP_SETFCAP :: int where "CAP_SETFCAP \<equiv> 31"
abbreviation (input) CAP_MAC_OVERRIDE :: int where "CAP_MAC_OVERRIDE \<equiv> 32"

section \<open>Namespace tables\<close>

datatype ns_kind = NS_UTS | NS_MNT | NS_PID | NS_NET | NS_USER | NS_IPC | NS_CGROUP | NS_TIME

fun ns_max :: "ns_kind \<Rightarrow> nat" where
  "ns_max NS_UTS = 64"
| "ns_max NS_MNT = 128"
| "ns_max NS_PID = 64"
| "ns_max NS_NET = 16"
| "ns_max NS_USER = 64"
| "ns_max NS_IPC = 64"
| "ns_max NS_CGROUP = 64"
| "ns_max NS_TIME = 32"

definition NS_MAX_USER :: nat where "NS_MAX_USER = 64"
definition NS_MAX_LEVEL :: nat where "NS_MAX_LEVEL = 32"
definition USERNS_MAP_EXTENTS :: nat where "USERNS_MAP_EXTENTS = 64"

text \<open>
  Reference counts are kept unbounded: the 32-bit counter would wrap only with
  as many references held at once, and every reference is held by a credential,
  an open file or a namespace. Slot 0 of each table is the initial namespace,
  which is never taken, released or listed, so that the marks
  \<open>ns_ensure_init_locked\<close> puts on it once are left out.
\<close>

record ns_slot =
  s_used :: bool
  s_zombie :: bool
  s_entered :: bool
  s_refs :: nat
  s_owner :: nat
  s_inum :: u64

text \<open>
  An extent maps the ids \<open>first, first + 1, ...\<close> of a namespace to the kernel
  ids \<open>lower, lower + 1, ...\<close>; a map is the list of its \<open>nr\<close> extents.
\<close>

record id_extent =
  e_first :: u32
  e_lower :: u32
  e_count :: u32

type_synonym id_map = "id_extent list"

datatype map_kind = USERNS_UID_MAP | USERNS_GID_MAP | USERNS_PROJID_MAP

record userns_data =
  un_parent :: nat
  un_level :: nat
  un_owner_kuid :: u32
  un_owner_kgid :: u32
  un_map :: "map_kind \<Rightarrow> id_map"
  un_setgroups_allowed :: bool
  un_parent_could_setfcap :: bool

definition userns_zero :: userns_data where
  "userns_zero = \<lparr>un_parent = 0, un_level = 0, un_owner_kuid = 0, un_owner_kgid = 0,
     un_map = (\<lambda>_. []), un_setgroups_allowed = False, un_parent_could_setfcap = False\<rparr>"

record ns_state =
  ns_slots :: "ns_kind \<Rightarrow> ns_slot table"
  ns_next_inum :: u64
  ns_any :: bool
  userns :: "userns_data table"
  userns_ready :: bool

definition set_slot :: "ns_kind \<Rightarrow> nat \<Rightarrow> ns_slot \<Rightarrow> ns_state \<Rightarrow> ns_state" where
  "set_slot kind i s st = st\<lparr>ns_slots := (ns_slots st)(kind := (ns_slots st kind)(i := s))\<rparr>"

definition set_userns :: "nat \<Rightarrow> userns_data \<Rightarrow> ns_state \<Rightarrow> ns_state" where
  "set_userns i u st = st\<lparr>userns := (userns st)(i := u)\<rparr>"

definition userns_ensure_init :: "ns_state \<Rightarrow> ns_state" where
  "userns_ensure_init st =
     (if userns_ready st then st
      else set_userns 0
             ((userns st 0)\<lparr>un_map := (\<lambda>_. [\<lparr>e_first = 0, e_lower = 0, e_count = 0xFFFFFFFF\<rparr>]),
                un_setgroups_allowed := True, un_parent_could_setfcap := True\<rparr>)
             (st\<lparr>userns_ready := True\<rparr>))"

definition ns_get_locked :: "ns_kind \<Rightarrow> nat \<Rightarrow> ns_state \<Rightarrow> ns_state" where
  "ns_get_locked kind i st =
     (if i = 0 \<or> i \<ge> ns_max kind then st
      else let s = ns_slots st kind i in set_slot kind i (s\<lparr>s_refs := s_refs s + 1\<rparr>) st)"

text \<open>Returns 0 when the table is full, as the C function does.\<close>

definition ns_alloc_locked :: "ns_kind \<Rightarrow> nat \<Rightarrow> ns_state \<Rightarrow> nat \<times> ns_state" where
  "ns_alloc_locked kind owner st =
     (case first_slot (\<lambda>i. i \<noteq> 0 \<and> \<not> s_used (ns_slots st kind i)) (ns_max kind) of
        None \<Rightarrow> (0, st)
      | Some i \<Rightarrow>
          (i, (ns_get_locked NS_USER owner
                (set_slot kind i
                   \<lparr>s_used = True, s_zombie = False, s_entered = False, s_refs = 1,
                    s_owner = owner, s_inum = ns_next_inum st\<rparr>
                   (st\<lparr>ns_next_inum := ns_next_inum st + 1\<rparr>)))\<lparr>ns_any := True\<rparr>))"

definition ns_live_locked :: "ns_kind \<Rightarrow> nat \<Rightarrow> ns_state \<Rightarrow> bool" where
  "ns_live_locked kind i st =
     (if i \<ge> ns_max kind then False
      else if i = 0 then True
      else s_used (ns_slots st kind i) \<and> \<not> s_zombie (ns_slots st kind i))"

definition namespace_get :: "ns_kind \<Rightarrow> nat \<Rightarrow> ns_state \<Rightarrow> unit result \<times> ns_state" where
  "namespace_get kind i st =
     (if ns_live_locked kind i st then (Inr (), ns_get_locked kind i st) else (Inl EINVAL, st))"

definition namespace_owner :: "ns_state \<Rightarrow> ns_kind \<Rightarrow> nat \<Rightarrow> nat" where
  "namespace_owner st kind i =
     (if i \<ge> ns_max kind \<or> i = 0 then 0 else s_owner (ns_slots st kind i))"

definition userns_release_locked :: "nat \<Rightarrow> ns_state \<Rightarrow> ns_state" where
  "userns_release_locked i st =
     (if i \<noteq> 0 \<and> i < NS_MAX_USER then set_userns i userns_zero st else st)"

text \<open>
  \<open>ns_put_locked(NS_USER, id)\<close>: the last reference releases the namespace and
  drops the reference it holds on its parent. \<^term>\<open>None\<close> is the panic on a
  reference underflow.
\<close>

function ns_put_user_locked :: "nat \<Rightarrow> ns_state \<Rightarrow> ns_state option" where
  "ns_put_user_locked i st =
     (if i = 0 \<or> i \<ge> ns_max NS_USER then Some st
      else let s = ns_slots st NS_USER i in
        if \<not> s_used s \<or> s_refs s = 0 then None
        else if s_refs s - 1 \<noteq> 0 then
          Some (set_slot NS_USER i (s\<lparr>s_refs := s_refs s - 1\<rparr>) st)
        else ns_put_user_locked (s_owner s)
               (set_slot NS_USER i (s\<lparr>s_refs := 0, s_used := False\<rparr>)
                  (userns_release_locked i st)))"
  by pat_completeness auto
termination
proof (relation "measure (\<lambda>(i, st). card {j. j < 64 \<and> s_used (ns_slots st NS_USER j)})", goal_cases)
  case 1
  then show ?case by simp
next
  case (2 i st s)
  then have "i < 64" "s_used (ns_slots st NS_USER i)" by auto
  then have "{j. j < 64 \<and> s_used ((ns_slots (set_slot NS_USER i (s\<lparr>s_refs := 0, s_used := False\<rparr>)
        (userns_release_locked i st)) NS_USER) j)} \<subset> {j. j < 64 \<and> s_used (ns_slots st NS_USER j)}"
    by (auto simp: set_slot_def userns_release_locked_def set_userns_def split: if_splits)
  then show ?case by (auto intro: psubset_card_mono)
qed

declare ns_put_user_locked.simps [simp del]

definition namespace_put_user :: "nat \<Rightarrow> ns_state \<Rightarrow> ns_state option" where
  "namespace_put_user i st = (if i = 0 then Some st else ns_put_user_locked i st)"

section \<open>Translation\<close>

definition UID_INVALID :: u32 where "UID_INVALID = 0xFFFFFFFF"
definition UID_OVERFLOW :: u32 where "UID_OVERFLOW = 65534"

text \<open>The loops of \<open>map_down\<close> and \<open>map_up\<close> over the extents.\<close>

fun map_down_ext :: "id_map \<Rightarrow> u32 \<Rightarrow> u32 \<Rightarrow> u32" where
  "map_down_ext [] i count = UID_INVALID"
| "map_down_ext (e # es) i count =
     (let last = i + count - 1 in
      if last < i then UID_INVALID
      else if i \<ge> e_first e \<and> last - e_first e < e_count e then e_lower e + (i - e_first e)
      else map_down_ext es i count)"

definition map_down :: "id_map \<Rightarrow> u32 \<Rightarrow> u32 \<Rightarrow> u32" where
  "map_down m i count = (if i = UID_INVALID then UID_INVALID else map_down_ext m i count)"

fun map_up_ext :: "id_map \<Rightarrow> u32 \<Rightarrow> u32" where
  "map_up_ext [] kid = UID_INVALID"
| "map_up_ext (e # es) kid =
     (if kid \<ge> e_lower e \<and> kid - e_lower e < e_count e then e_first e + (kid - e_lower e)
      else map_up_ext es kid)"

definition map_up :: "id_map \<Rightarrow> u32 \<Rightarrow> u32" where
  "map_up m kid = (if kid = UID_INVALID then UID_INVALID else map_up_ext m kid)"

definition make_kuid :: "ns_state \<Rightarrow> nat \<Rightarrow> u32 \<Rightarrow> u32" where
  "make_kuid st ns uid =
     (if ns = 0 \<or> ns \<ge> NS_MAX_USER then uid else map_down (un_map (userns st ns) USERNS_UID_MAP) uid 1)"

definition make_kgid :: "ns_state \<Rightarrow> nat \<Rightarrow> u32 \<Rightarrow> u32" where
  "make_kgid st ns gid =
     (if ns = 0 \<or> ns \<ge> NS_MAX_USER then gid else map_down (un_map (userns st ns) USERNS_GID_MAP) gid 1)"

definition from_kuid :: "ns_state \<Rightarrow> nat \<Rightarrow> u32 \<Rightarrow> u32" where
  "from_kuid st ns kuid =
     (if ns = 0 \<or> ns \<ge> NS_MAX_USER then kuid else map_up (un_map (userns st ns) USERNS_UID_MAP) kuid)"

definition from_kgid :: "ns_state \<Rightarrow> nat \<Rightarrow> u32 \<Rightarrow> u32" where
  "from_kgid st ns kgid =
     (if ns = 0 \<or> ns \<ge> NS_MAX_USER then kgid else map_up (un_map (userns st ns) USERNS_GID_MAP) kgid)"

definition from_kuid_munged :: "ns_state \<Rightarrow> nat \<Rightarrow> u32 \<Rightarrow> u32" where
  "from_kuid_munged st ns kuid =
     (let v = from_kuid st ns kuid in if v = UID_INVALID then UID_OVERFLOW else v)"

definition from_kgid_munged :: "ns_state \<Rightarrow> nat \<Rightarrow> u32 \<Rightarrow> u32" where
  "from_kgid_munged st ns kgid =
     (let v = from_kgid st ns kgid in if v = UID_INVALID then UID_OVERFLOW else v)"

definition kuid_has_mapping :: "ns_state \<Rightarrow> nat \<Rightarrow> u32 \<Rightarrow> bool" where
  "kuid_has_mapping st ns kuid \<longleftrightarrow> from_kuid st ns kuid \<noteq> UID_INVALID"

definition kgid_has_mapping :: "ns_state \<Rightarrow> nat \<Rightarrow> u32 \<Rightarrow> bool" where
  "kgid_has_mapping st ns kgid \<longleftrightarrow> from_kgid st ns kgid \<noteq> UID_INVALID"

section \<open>Capabilities\<close>

text \<open>
  The bounded walks up the parent links, \<open>depth = 0 .. NS_MAX_LEVEL + 1\<close>;
  \<open>fuel\<close> is the number of iterations left.
\<close>

definition walk_limit :: nat where "walk_limit = NS_MAX_LEVEL + 2"

fun userns_is_ancestor_walk :: "nat \<Rightarrow> ns_state \<Rightarrow> nat \<Rightarrow> nat \<Rightarrow> bool" where
  "userns_is_ancestor_walk 0 st anc ns = False"
| "userns_is_ancestor_walk (Suc fuel) st anc ns =
     (if ns = anc then True
      else if ns = 0 \<or> ns \<ge> NS_MAX_USER then False
      else userns_is_ancestor_walk fuel st anc (un_parent (userns st ns)))"

definition userns_is_ancestor :: "ns_state \<Rightarrow> nat \<Rightarrow> nat \<Rightarrow> bool" where
  "userns_is_ancestor st anc ns = userns_is_ancestor_walk walk_limit st anc ns"

definition has_cap :: "u64 \<Rightarrow> int \<Rightarrow> bool" where
  "has_cap caps cap \<longleftrightarrow> caps AND push_bit (nat cap) 1 \<noteq> 0"

fun ns_capable_walk :: "nat \<Rightarrow> ns_state \<Rightarrow> cred \<Rightarrow> nat \<Rightarrow> int \<Rightarrow> bool" where
  "ns_capable_walk 0 st c ns cap = False"
| "ns_capable_walk (Suc fuel) st c ns cap =
     (let mine = c_user_ns c in
      if ns = mine then has_cap (cap_effective c) cap
      else if un_level (userns st ns) \<le> un_level (userns st mine) then False
      else let parent = un_parent (userns st ns) in
        if parent = mine \<and> c_euid c = un_owner_kuid (userns st ns) then True
        else ns_capable_walk fuel st c parent cap)"

definition ns_capable_cred :: "ns_state \<Rightarrow> cred option \<Rightarrow> nat \<Rightarrow> int \<Rightarrow> bool" where
  "ns_capable_cred st co ns cap =
     (case co of
        None \<Rightarrow> False
      | Some c \<Rightarrow>
          if cap < 0 \<or> cap > CAP_LAST \<or> ns \<ge> NS_MAX_USER then False
          else ns_capable_walk walk_limit st c ns cap)"

definition capable_wrt_inode_uidgid ::
    "ns_state \<Rightarrow> cred option \<Rightarrow> u32 \<Rightarrow> u32 \<Rightarrow> int \<Rightarrow> bool" where
  "capable_wrt_inode_uidgid st co kuid kgid cap =
     (case co of
        None \<Rightarrow> False
      | Some c \<Rightarrow>
          ns_capable_cred st co (c_user_ns c) cap \<and> kuid_has_mapping st (c_user_ns c) kuid
          \<and> kgid_has_mapping st (c_user_ns c) kgid)"

definition cred_inode_owner_or_capable :: "ns_state \<Rightarrow> cred option \<Rightarrow> u32 \<Rightarrow> bool" where
  "cred_inode_owner_or_capable st co kuid =
     (case co of
        None \<Rightarrow> False
      | Some c \<Rightarrow>
          if c_fsuid c = kuid then True
          else kuid_has_mapping st (c_user_ns c) kuid
               \<and> ns_capable_cred st co (c_user_ns c) CAP_FOWNER)"

definition userns_may_setgroups :: "ns_state \<Rightarrow> nat \<Rightarrow> bool" where
  "userns_may_setgroups st ns =
     (if ns = 0 \<or> ns \<ge> NS_MAX_USER then True
      else un_map (userns st ns) USERNS_GID_MAP \<noteq> [] \<and> un_setgroups_allowed (userns st ns))"

section \<open>Lifetime\<close>

definition cred_userns :: "cred option \<Rightarrow> nat" where
  "cred_userns co = (case co of None \<Rightarrow> 0 | Some c \<Rightarrow> c_user_ns c)"

text \<open>
  Moves a credential into namespace \<open>ns\<close> (whose reference the caller hands
  over); \<^term>\<open>None\<close> is the panic of an underflow on the namespace left.
\<close>

definition cred_enter_userns_locked ::
    "cred option \<Rightarrow> nat \<Rightarrow> ns_state \<Rightarrow> (cred option \<times> ns_state) option" where
  "cred_enter_userns_locked co ns st =
     (case co of
        None \<Rightarrow> map_option (\<lambda>st'. (None, st')) (ns_put_user_locked ns st)
      | Some c \<Rightarrow>
          map_option
            (\<lambda>st'. (Some (c\<lparr>c_user_ns := ns, c_securebits := 0, cap_inheritable := 0,
                           cap_ambient := 0, cap_permitted := CAP_FULL_SET,
                           cap_effective := CAP_FULL_SET, cap_bounding := CAP_FULL_SET\<rparr>), st'))
            (ns_put_user_locked (c_user_ns c) st))"

definition userns_init_locked :: "nat \<Rightarrow> nat \<Rightarrow> cred option \<Rightarrow> ns_state \<Rightarrow> ns_state" where
  "userns_init_locked i parent creator st0 =
     (let st1 = set_userns i userns_zero (userns_ensure_init st0);
          st2 = set_userns i
                  (userns_zero\<lparr>un_parent := parent, un_level := un_level (userns st1 parent) + 1,
                    un_owner_kuid := (case creator of None \<Rightarrow> 0 | Some c \<Rightarrow> c_euid c),
                    un_owner_kgid := (case creator of None \<Rightarrow> 0 | Some c \<Rightarrow> c_egid c)\<rparr>) st1;
          st3 = set_userns i
                  ((userns st2 i)\<lparr>un_setgroups_allowed := un_setgroups_allowed (userns st2 parent)\<rparr>) st2
      in set_userns i
           ((userns st3 i)\<lparr>un_parent_could_setfcap :=
              (case creator of None \<Rightarrow> True | Some c \<Rightarrow> ns_capable_cred st3 creator parent CAP_SETFCAP)\<rparr>)
           st3)"

definition userns_create :: "cred option \<Rightarrow> ns_state \<Rightarrow> nat result \<times> ns_state" where
  "userns_create creator st0 =
     (case creator of
        None \<Rightarrow> (Inl EPERM, st0)
      | Some c \<Rightarrow>
          let st = userns_ensure_init st0; parent = c_user_ns c in
          if un_level (userns st parent) + 1 > NS_MAX_LEVEL then (Inl EUSERS, st)
          else if \<not> kuid_has_mapping st parent (c_euid c) \<or> \<not> kgid_has_mapping st parent (c_egid c)
          then (Inl EPERM, st)
          else (case ns_alloc_locked NS_USER parent st of
                  (i, st') \<Rightarrow>
                    if i = 0 then (Inl ENOSPC, st')
                    else (Inr i, userns_init_locked i parent creator st')))"

section \<open>Writing the maps\<close>

definition is_blank :: "char \<Rightarrow> bool" where
  "is_blank ch \<longleftrightarrow> ch = CHR '' '' \<or> ch = CHR 0x09"

definition is_digit :: "char \<Rightarrow> bool" where
  "is_digit ch \<longleftrightarrow> (of_char ch :: nat) \<ge> 48 \<and> (of_char ch :: nat) \<le> 57"

fun parse_digits :: "nat \<Rightarrow> string \<Rightarrow> (nat \<times> string) option" where
  "parse_digits v [] = Some (v, [])"
| "parse_digits v (ch # cs) =
     (if is_digit ch then
        (let v' = v * 10 + ((of_char ch :: nat) - 48) in
         if v' > 0xFFFFFFFF then None else parse_digits v' cs)
      else Some (v, ch # cs))"

text \<open>\<open>parse_u32\<close> on the rest of a line; \<^term>\<open>None\<close> is \<open>-EINVAL\<close>.\<close>

definition parse_u32 :: "string \<Rightarrow> (u32 \<times> string) option" where
  "parse_u32 line =
     (case dropWhile is_blank line of
        [] \<Rightarrow> None
      | ch # cs \<Rightarrow>
          if \<not> is_digit ch then None
          else map_option (map_prod word_of_nat id) (parse_digits 0 (ch # cs)))"

definition ranges_overlap :: "u32 \<Rightarrow> u32 \<Rightarrow> u32 \<Rightarrow> u32 \<Rightarrow> bool" where
  "ranges_overlap a an b bn =
     (let alast = a + an - 1; blast = b + bn - 1 in a \<le> blast \<and> b \<le> alast)"

text \<open>One line of the map, added to the extents read so far; \<open>None\<close> is \<open>-EINVAL\<close>.\<close>

definition parse_map_line :: "id_map \<Rightarrow> string \<Rightarrow> id_map option" where
  "parse_map_line nm line =
     (case parse_u32 line of None \<Rightarrow> None | Some (first, q1) \<Rightarrow>
      (case parse_u32 q1 of None \<Rightarrow> None | Some (lower, q2) \<Rightarrow>
       (case parse_u32 q2 of None \<Rightarrow> None | Some (count, q3) \<Rightarrow>
          if dropWhile is_blank q3 \<noteq> [] \<or> count = 0 \<or> first + count - 1 < first
             \<or> lower + count - 1 < lower \<or> length nm \<ge> USERNS_MAP_EXTENTS then None
          else if list_ex (\<lambda>e. ranges_overlap (e_first e) (e_count e) first count
                             \<or> ranges_overlap (e_lower e) (e_count e) lower count) nm then None
          else Some (nm @ [\<lparr>e_first = first, e_lower = lower, e_count = count\<rparr>]))))"

lemma length_rest_less:
  "buf \<noteq> [] \<Longrightarrow> length (drop 1 (dropWhile P buf)) < length buf"
proof -
  assume "buf \<noteq> []"
  then have "0 < length buf" by simp
  moreover have "length (dropWhile P buf) \<le> length buf" by (rule length_dropWhile_le)
  ultimately show ?thesis by (simp only: length_drop)
qed

function parse_map :: "id_map \<Rightarrow> string \<Rightarrow> id_map option" where
  "parse_map nm buf =
     (if buf = [] then Some nm
      else let line = takeWhile (\<lambda>ch. ch \<noteq> CHR 0x0A) buf;
               rest = drop 1 (dropWhile (\<lambda>ch. ch \<noteq> CHR 0x0A) buf) in
        if dropWhile is_blank line = [] then parse_map nm rest
        else (case parse_map_line nm line of
                None \<Rightarrow> None
              | Some nm' \<Rightarrow> parse_map nm' rest))"
  by pat_completeness auto

termination parse_map
  by (relation "measure (\<lambda>(nm, buf). length buf)") (use length_rest_less in auto)

declare parse_map.simps [simp del]

definition cap_setid :: "map_kind \<Rightarrow> int" where
  "cap_setid which =
     (if which = USERNS_UID_MAP then CAP_SETUID
      else if which = USERNS_GID_MAP then CAP_SETGID else - 1)"

definition verify_root_map :: "ns_state \<Rightarrow> cred \<Rightarrow> nat \<Rightarrow> id_map \<Rightarrow> bool" where
  "verify_root_map st c ns nm =
     (if \<not> list_ex (\<lambda>e. e_lower e = 0) nm then True
      else if c_user_ns c = ns then un_parent_could_setfcap (userns st ns)
      else ns_capable_cred st (Some c) (un_parent (userns st ns)) CAP_SETFCAP)"

definition new_idmap_permitted :: "ns_state \<Rightarrow> cred \<Rightarrow> nat \<Rightarrow> map_kind \<Rightarrow> id_map \<Rightarrow> bool" where
  "new_idmap_permitted st c ns which nm =
     (let cap = cap_setid which; parent = un_parent (userns st ns) in
      if cap = CAP_SETUID \<and> \<not> verify_root_map st c ns nm then False
      else if length nm = 1 \<and> e_count (nm ! 0) = 1 \<and> un_owner_kuid (userns st ns) = c_euid c
           \<and> (cap = CAP_SETUID \<and> make_kuid st parent (e_lower (nm ! 0)) = c_euid c
              \<or> cap = CAP_SETGID \<and> \<not> un_setgroups_allowed (userns st ns)
                \<and> make_kgid st parent (e_lower (nm ! 0)) = c_egid c)
      then True
      else if cap < 0 then True
      else ns_capable_cred st (Some c) parent cap)"

text \<open>The lower ids of a new map, from the parent's view to kernel ids.\<close>

fun lower_to_kernel :: "id_map option \<Rightarrow> id_map \<Rightarrow> id_map option" where
  "lower_to_kernel pm [] = Some []"
| "lower_to_kernel pm (e # es) =
     (let k = (case pm of None \<Rightarrow> e_lower e | Some m \<Rightarrow> map_down m (e_lower e) (e_count e)) in
      if k = 0xFFFFFFFF then None
      else map_option (\<lambda>es'. e\<lparr>e_lower := k\<rparr> # es') (lower_to_kernel pm es))"

definition parent_map :: "ns_state \<Rightarrow> nat \<Rightarrow> map_kind \<Rightarrow> id_map option" where
  "parent_map st ns kind =
     (let parent = un_parent (userns st ns) in
      if parent = 0 then None else Some (un_map (userns st parent) kind))"

definition map_kind_of :: "int \<Rightarrow> map_kind" where
  "map_kind_of which =
     (if which = 0 then USERNS_UID_MAP else if which = 1 then USERNS_GID_MAP else USERNS_PROJID_MAP)"

text \<open>
  \<open>co\<close> is the writer's credential, \<open>target_ns\<close> the user namespace of the
  task whose file is written, \<open>alloc_ok\<close> whether the scratch map can be
  allocated.
\<close>

definition userns_map_write ::
    "cred option \<Rightarrow> nat \<Rightarrow> bool \<Rightarrow> int \<Rightarrow> string \<Rightarrow> ns_state \<Rightarrow> nat result \<times> ns_state" where
  "userns_map_write co target_ns alloc_ok which buf st0 =
     (if which < 0 \<or> which > 2 then (Inl EINVAL, st0)
      else let st = userns_ensure_init st0; ns = target_ns; kind = map_kind_of which in
        case co of
          None \<Rightarrow> (Inl EPERM, st)
        | Some c \<Rightarrow>
            if ns = 0 then (Inl EPERM, st)
            else if c_user_ns c \<noteq> ns \<and> c_user_ns c \<noteq> un_parent (userns st ns) then (Inl EPERM, st)
            else if length buf \<ge> 4096 then (Inl EINVAL, st)
            else if \<not> alloc_ok then (Inl ENOMEM, st)
            else (case parse_map [] buf of
                    None \<Rightarrow> (Inl EINVAL, st)
                  | Some nm \<Rightarrow>
                      if nm = [] then (Inl EINVAL, st)
                      else if un_map (userns st ns) kind \<noteq> [] then (Inl EPERM, st)
                      else if cap_setid kind \<ge> 0 \<and> \<not> ns_capable_cred st co ns CAP_SYS_ADMIN
                      then (Inl EPERM, st)
                      else if \<not> new_idmap_permitted st c ns kind nm then (Inl EPERM, st)
                      else (case lower_to_kernel (parent_map st ns kind) nm of
                              None \<Rightarrow> (Inl EPERM, st)
                            | Some nm' \<Rightarrow>
                                (Inr (length buf),
                                 set_userns ns
                                   ((userns st ns)\<lparr>un_map := (un_map (userns st ns))(kind := nm')\<rparr>) st))))"

definition is_trailing :: "char \<Rightarrow> bool" where
  "is_trailing ch \<longleftrightarrow> ch = CHR 0x0A \<or> is_blank ch"

definition userns_setgroups_write ::
    "cred option \<Rightarrow> nat \<Rightarrow> string \<Rightarrow> ns_state \<Rightarrow> nat result \<times> ns_state" where
  "userns_setgroups_write co target_ns buf st0 =
     (let st = userns_ensure_init st0; ns = target_ns in
      if co = None \<or> \<not> ns_capable_cred st co ns CAP_SYS_ADMIN then (Inl EPERM, st)
      else let word = rev (dropWhile is_trailing (rev buf)) in
        if word = ''allow'' then
          (if \<not> un_setgroups_allowed (userns st ns) then (Inl EPERM, st) else (Inr (length buf), st))
        else if word = ''deny'' then
          (if un_map (userns st ns) USERNS_GID_MAP \<noteq> [] then (Inl EPERM, st)
           else (Inr (length buf),
                 set_userns ns ((userns st ns)\<lparr>un_setgroups_allowed := False\<rparr>) st))
        else (Inl EINVAL, st))"

section \<open>Maps are bijections\<close>

text \<open>
  Well-formed maps: every extent is non-empty and does not wrap around the id
  space on either side, and no two extents share an id on either side.
\<close>

definition separate :: "u32 \<Rightarrow> u32 \<Rightarrow> u32 \<Rightarrow> u32 \<Rightarrow> bool" where
  "separate a an b bn \<longleftrightarrow> unat a + unat an \<le> unat b \<or> unat b + unat bn \<le> unat a"

definition ext_ok :: "id_extent \<Rightarrow> bool" where
  "ext_ok e \<longleftrightarrow> e_count e \<noteq> 0 \<and> unat (e_first e) + unat (e_count e) \<le> 2 ^ 32
     \<and> unat (e_lower e) + unat (e_count e) \<le> 2 ^ 32"

definition ext_separate :: "id_extent \<Rightarrow> id_extent \<Rightarrow> bool" where
  "ext_separate a b \<longleftrightarrow>
     separate (e_first a) (e_count a) (e_first b) (e_count b)
     \<and> separate (e_lower a) (e_count a) (e_lower b) (e_count b)"

definition map_wf :: "id_map \<Rightarrow> bool" where
  "map_wf m \<longleftrightarrow> list_all ext_ok m \<and> sorted_wrt ext_separate m \<and> length m \<le> USERNS_MAP_EXTENTS"

text \<open>What an extent, and a map, mean: the pairs of ids they relate.\<close>

definition ext_maps :: "id_extent \<Rightarrow> u32 \<Rightarrow> u32 \<Rightarrow> bool" where
  "ext_maps e i k \<longleftrightarrow> unat (e_first e) \<le> unat i \<and> unat i < unat (e_first e) + unat (e_count e)
     \<and> unat k = unat (e_lower e) + (unat i - unat (e_first e))"

definition map_rel :: "id_map \<Rightarrow> u32 \<Rightarrow> u32 \<Rightarrow> bool" where
  "map_rel m i k \<longleftrightarrow> (\<exists>e\<in>set m. ext_maps e i k)"

lemma ext_separate_sym: "ext_separate a b \<Longrightarrow> ext_separate b a"
  by (auto simp: ext_separate_def separate_def)

lemma map_wf_pairwise:
  assumes "map_wf m" "a \<in> set m" "b \<in> set m" "a \<noteq> b"
  shows "ext_separate a b"
proof -
  obtain i j where "i < length m" "j < length m" "a = m ! i" "b = m ! j"
    using assms(2,3) by (auto simp: in_set_conv_nth)
  then show ?thesis
    using assms(1,4) ext_separate_sym
    by (metis linorder_neqE_nat map_wf_def sorted_wrt_nth_less)
qed

lemma map_wf_ext_ok: "map_wf m \<Longrightarrow> e \<in> set m \<Longrightarrow> ext_ok e"
  by (auto simp: map_wf_def list_all_iff)

lemma unat_diff_le: "(b :: u32) \<le> a \<Longrightarrow> unat (a - b) = unat a - unat b"
  by (rule unat_sub)

lemma in_range_iff:
  "(a :: u32) \<le> x \<and> x - a < n \<longleftrightarrow> unat a \<le> unat x \<and> unat x < unat a + unat n"
  by (auto simp: word_le_nat_alt word_less_nat_alt unat_diff_le)

lemma unat_offset:
  assumes "(a :: u32) \<le> x" "unat b + (unat x - unat a) < 2 ^ 32"
  shows "unat (b + (x - a)) = unat b + (unat x - unat a)"
  using assms by (simp add: unat_word_ariths unat_diff_le)

lemma ext_maps_iff:
  assumes "ext_ok e"
  shows "e_first e \<le> i \<and> i - e_first e < e_count e \<and> k = e_lower e + (i - e_first e) \<longleftrightarrow> ext_maps e i k"
    and "e_lower e \<le> k \<and> k - e_lower e < e_count e \<and> i = e_first e + (k - e_lower e) \<longleftrightarrow> ext_maps e i k"
proof -
  have down: "unat (e_lower e + (i - e_first e)) = unat (e_lower e) + (unat i - unat (e_first e))"
    if "unat (e_first e) \<le> unat i" "unat i < unat (e_first e) + unat (e_count e)"
    using that assms by (intro unat_offset) (auto simp: ext_ok_def word_le_nat_alt)
  have up: "unat (e_first e + (k - e_lower e)) = unat (e_first e) + (unat k - unat (e_lower e))"
    if "unat (e_lower e) \<le> unat k" "unat k < unat (e_lower e) + unat (e_count e)"
    using that assms by (intro unat_offset) (auto simp: ext_ok_def word_le_nat_alt)
  show "e_first e \<le> i \<and> i - e_first e < e_count e \<and> k = e_lower e + (i - e_first e) \<longleftrightarrow> ext_maps e i k"
    using down in_range_iff [of "e_first e" i "e_count e"]
    by (auto simp: ext_maps_def word_unat_eq_iff)
  show "e_lower e \<le> k \<and> k - e_lower e < e_count e \<and> i = e_first e + (k - e_lower e) \<longleftrightarrow> ext_maps e i k"
    using up in_range_iff [of "e_lower e" k "e_count e"]
    by (auto simp: ext_maps_def word_unat_eq_iff)
qed

lemma map_wf_Cons:
  "map_wf (e # es) \<Longrightarrow> ext_ok e \<and> map_wf es \<and> (\<forall>b\<in>set es. ext_separate e b)"
  by (auto simp: map_wf_def)

lemma map_rel_functional:
  assumes "map_wf m" "map_rel m i k" "map_rel m i' k'"
  shows "i = i' \<longleftrightarrow> k = k'"
proof -
  obtain a b where ab: "a \<in> set m" "ext_maps a i k" "b \<in> set m" "ext_maps b i' k'"
    using assms by (auto simp: map_rel_def)
  show ?thesis
  proof (cases "a = b")
    case True
    then show ?thesis using ab by (auto simp: ext_maps_def word_unat_eq_iff)
  next
    case False
    then have "ext_separate a b" using map_wf_pairwise assms(1) ab by blast
    then show ?thesis using ab by (auto simp: ext_maps_def ext_separate_def separate_def)
  qed
qed

lemma map_down_ext_rel:
  "map_wf m \<Longrightarrow> map_down_ext m i 1 = k \<Longrightarrow> k \<noteq> UID_INVALID \<Longrightarrow> map_rel m i k"
proof (induction m)
  case (Cons e es)
  then show ?case
    using ext_maps_iff(1) [of e i k] map_wf_Cons [of e es]
    by (auto simp: map_rel_def split: if_splits)
qed simp

lemma map_up_ext_rel:
  "map_wf m \<Longrightarrow> map_up_ext m k = i \<Longrightarrow> i \<noteq> UID_INVALID \<Longrightarrow> map_rel m i k"
proof (induction m)
  case (Cons e es)
  then show ?case
    using ext_maps_iff(2) [of e k i] map_wf_Cons [of e es]
    by (auto simp: map_rel_def split: if_splits)
qed simp

lemma map_down_ext_complete:
  "map_wf m \<Longrightarrow> map_rel m i k \<Longrightarrow> map_down_ext m i 1 = k"
proof (induction m)
  case (Cons e es)
  note wf = map_wf_Cons [OF Cons.prems(1)]
  show ?case
  proof (cases "e_first e \<le> i \<and> i - e_first e < e_count e")
    case True
    then have "map_rel (e # es) i (e_lower e + (i - e_first e))"
      using ext_maps_iff(1) [of e i] wf by (auto simp: map_rel_def)
    then show ?thesis using map_rel_functional [OF Cons.prems(1)] Cons.prems(2) True by auto
  next
    case False
    then have "map_rel es i k"
      using Cons.prems(2) ext_maps_iff(1) [of e i k] wf by (auto simp: map_rel_def)
    then show ?thesis using Cons.IH wf False by auto
  qed
qed (simp add: map_rel_def)

lemma map_up_ext_complete:
  "map_wf m \<Longrightarrow> map_rel m i k \<Longrightarrow> map_up_ext m k = i"
proof (induction m)
  case (Cons e es)
  note wf = map_wf_Cons [OF Cons.prems(1)]
  show ?case
  proof (cases "e_lower e \<le> k \<and> k - e_lower e < e_count e")
    case True
    then have "map_rel (e # es) (e_first e + (k - e_lower e)) k"
      using ext_maps_iff(2) [of e k] wf by (auto simp: map_rel_def)
    then show ?thesis using map_rel_functional [OF Cons.prems(1)] Cons.prems(2) True by auto
  next
    case False
    then have "map_rel es i k"
      using Cons.prems(2) ext_maps_iff(2) [of e k i] wf by (auto simp: map_rel_def)
    then show ?thesis using Cons.IH wf False by auto
  qed
qed (simp add: map_rel_def)

lemma map_down_iff:
  assumes "map_wf m" "k \<noteq> UID_INVALID"
  shows "map_down m i 1 = k \<longleftrightarrow> i \<noteq> UID_INVALID \<and> map_rel m i k"
  using map_down_ext_rel [OF assms(1) _ assms(2), of i] map_down_ext_complete [OF assms(1), of i k] assms(2)
  by (auto simp: map_down_def)

lemma map_up_iff:
  assumes "map_wf m" "i \<noteq> UID_INVALID"
  shows "map_up m k = i \<longleftrightarrow> k \<noteq> UID_INVALID \<and> map_rel m i k"
  using map_up_ext_rel [OF assms(1) _ assms(2), of k] map_up_ext_complete [OF assms(1), of i k] assms(2)
  by (auto simp: map_up_def)

section \<open>A written map is well formed\<close>

lemma no_wrap:
  assumes "(n :: u32) \<noteq> 0" "\<not> a + n - 1 < a"
  shows "unat a + unat n \<le> 2 ^ 32" "unat (a + n - 1) = unat a + unat n - 1"
proof -
  have pos: "0 < unat n" using assms(1) by (simp add: unat_gt_0)
  have eq: "a + n - 1 = a + (n - 1)" by simp
  have "a \<le> a + (n - 1)" using assms(2) by (simp only: eq not_less)
  then have "unat (a + (n - 1)) = unat a + unat (n - 1)" by (simp only: unat_plus_simple)
  then show un: "unat (a + n - 1) = unat a + unat n - 1"
    using unat_minus_one [OF assms(1)] pos by (simp only: eq)
  show "unat a + unat n \<le> 2 ^ 32"
    using un pos unsigned_less [of "a + n - 1", where ?'a = nat] by simp
qed

lemma ranges_overlap_iff:
  assumes "an \<noteq> 0" "\<not> a + an - 1 < a" "bn \<noteq> 0" "\<not> b + bn - 1 < b"
  shows "ranges_overlap a an b bn \<longleftrightarrow> \<not> separate a an b bn"
  using no_wrap(2) [OF assms(1,2)] no_wrap(2) [OF assms(3,4)]
    assms(1,3) [folded unat_gt_0] unfolding ranges_overlap_def separate_def word_le_nat_alt Let_def
  by linarith

lemma ext_ok_no_wrap:
  assumes "ext_ok e"
  shows "\<not> e_first e + e_count e - 1 < e_first e" "\<not> e_lower e + e_count e - 1 < e_lower e"
proof -
  have gen: "\<not> a + n - 1 < a" if "n \<noteq> 0" "unat a + unat n \<le> 2 ^ 32" for a n :: u32
  proof -
    have "unat (a + (n - 1)) = unat a + (unat n - 1)"
      using that unat_gt_0 [of n] by (simp add: unat_word_ariths unat_minus_one)
    then show ?thesis by (simp add: word_less_nat_alt add_diff_eq [symmetric] del: add_diff_eq)
  qed
  show "\<not> e_first e + e_count e - 1 < e_first e" "\<not> e_lower e + e_count e - 1 < e_lower e"
    using assms gen unfolding ext_ok_def by blast+
qed

lemma parse_map_line_wf:
  assumes "map_wf nm" "parse_map_line nm line = Some nm'"
  shows "map_wf nm'"
proof -
  obtain first lower count where
    eq: "nm' = nm @ [\<lparr>e_first = first, e_lower = lower, e_count = count\<rparr>]"
    and ok: "count \<noteq> 0" "\<not> first + count - 1 < first" "\<not> lower + count - 1 < lower"
      "length nm < USERNS_MAP_EXTENTS"
    and sep: "\<And>e. e \<in> set nm \<Longrightarrow> \<not> ranges_overlap (e_first e) (e_count e) first count
        \<and> \<not> ranges_overlap (e_lower e) (e_count e) lower count"
    using assms(2)
    by (auto simp: parse_map_line_def list_ex_iff split: option.splits if_splits)
  have "ext_separate e \<lparr>e_first = first, e_lower = lower, e_count = count\<rparr>" if "e \<in> set nm" for e
    using sep [OF that] map_wf_ext_ok [OF assms(1) that] ext_ok_no_wrap [of e] ok
    by (simp add: ext_separate_def ranges_overlap_iff ext_ok_def)
  then show ?thesis
    using assms(1) eq ok no_wrap(1) [OF ok(1,2)] no_wrap(1) [OF ok(1,3)]
    by (simp add: map_wf_def sorted_wrt_append ext_ok_def)
qed

lemma parse_map_wf: "map_wf nm \<Longrightarrow> parse_map nm buf = Some nm' \<Longrightarrow> map_wf nm'"
proof (induction nm buf rule: parse_map.induct)
  case (1 nm buf)
  note step = "1.prems"(2) [unfolded parse_map.simps [of nm buf]]
  show ?case
    using step "1.prems"(1) parse_map_line_wf "1.IH" [OF _ refl refl]
    by (auto simp: Let_def simp del: dropWhile_eq_Nil_conv split: if_splits option.splits)
qed

text \<open>A range handed down through a map lies inside one extent.\<close>

lemma map_down_range:
  assumes "map_wf m" "n \<noteq> 0" "unat i + unat n \<le> 2 ^ 32" "map_down m i n = k" "k \<noteq> UID_INVALID"
  obtains e where "e \<in> set m" "unat (e_first e) \<le> unat i"
    "unat i + unat n \<le> unat (e_first e) + unat (e_count e)"
    "unat k = unat (e_lower e) + (unat i - unat (e_first e))"
proof -
  have last: "unat (i + n - 1) = unat i + unat n - 1"
    using ext_ok_no_wrap(1) [of "\<lparr>e_first = i, e_lower = i, e_count = n\<rparr>"] assms(2,3) no_wrap(2) [of n i]
    by (simp add: ext_ok_def)
  have "map_down_ext m i n = k" using assms(4,5) by (auto simp: map_down_def split: if_splits)
  then have "\<exists>e\<in>set m. e_first e \<le> i \<and> i + n - 1 - e_first e < e_count e
      \<and> k = e_lower e + (i - e_first e)"
    using assms(5) by (induction m) (auto simp: Let_def split: if_splits)
  then obtain e where e: "e \<in> set m" "e_first e \<le> i" "i + n - 1 - e_first e < e_count e"
    "k = e_lower e + (i - e_first e)" by blast
  have n: "0 < unat n" using assms(2) by (simp add: unat_gt_0)
  have "e_first e \<le> i + n - 1" using e(2) last n by (simp add: word_le_nat_alt)
  then have 1: "unat i + unat n \<le> unat (e_first e) + unat (e_count e)"
    using e(3) last n in_range_iff [of "e_first e" "i + n - 1" "e_count e"] by linarith
  moreover have "unat k = unat (e_lower e) + (unat i - unat (e_first e))"
    unfolding e(4) using map_wf_ext_ok [OF assms(1) e(1)] e(2) 1 n
    by (intro unat_offset) (auto simp: ext_ok_def word_le_nat_alt)
  ultimately show ?thesis using that e(1,2) by (simp add: word_le_nat_alt)
qed

text \<open>The translation of one extent, and of two, through a well-formed map.\<close>

definition kernel_lower :: "id_map option \<Rightarrow> id_extent \<Rightarrow> u32" where
  "kernel_lower pm e = (case pm of None \<Rightarrow> e_lower e | Some m \<Rightarrow> map_down m (e_lower e) (e_count e))"

lemma kernel_lower_ok:
  assumes "\<And>m. pm = Some m \<Longrightarrow> map_wf m" "ext_ok e" "kernel_lower pm e \<noteq> UID_INVALID"
  shows "ext_ok (e\<lparr>e_lower := kernel_lower pm e\<rparr>)"
proof (cases pm)
  case None
  then show ?thesis using assms(2) by (simp add: kernel_lower_def)
next
  case (Some m)
  have "map_down m (e_lower e) (e_count e) \<noteq> UID_INVALID"
    using assms(3) Some by (simp add: kernel_lower_def)
  then obtain x where "x \<in> set m" "unat (e_first x) \<le> unat (e_lower e)"
    "unat (e_lower e) + unat (e_count e) \<le> unat (e_first x) + unat (e_count x)"
    "unat (map_down m (e_lower e) (e_count e)) = unat (e_lower x) + (unat (e_lower e) - unat (e_first x))"
    using map_down_range [of m "e_count e" "e_lower e", OF assms(1) [OF Some] _ _ refl] assms(2)
    by (auto simp: ext_ok_def)
  then show ?thesis
    using assms(2) map_wf_ext_ok [OF assms(1) [OF Some], of x] Some
    by (auto simp: ext_ok_def kernel_lower_def)
qed

lemma kernel_lower_separate:
  assumes "\<And>m. pm = Some m \<Longrightarrow> map_wf m" "ext_ok a" "ext_ok b" "ext_separate a b"
    "kernel_lower pm a \<noteq> UID_INVALID" "kernel_lower pm b \<noteq> UID_INVALID"
  shows "ext_separate (a\<lparr>e_lower := kernel_lower pm a\<rparr>) (b\<lparr>e_lower := kernel_lower pm b\<rparr>)"
proof (cases pm)
  case None
  then show ?thesis using assms(4) by (simp add: kernel_lower_def)
next
  case (Some m)
  have kl: "kernel_lower pm e = map_down m (e_lower e) (e_count e)" for e
    using Some by (simp add: kernel_lower_def)
  obtain x where x: "x \<in> set m" "unat (e_first x) \<le> unat (e_lower a)"
    "unat (e_lower a) + unat (e_count a) \<le> unat (e_first x) + unat (e_count x)"
    "unat (kernel_lower pm a) = unat (e_lower x) + (unat (e_lower a) - unat (e_first x))"
    using map_down_range [of m "e_count a" "e_lower a", OF assms(1) [OF Some] _ _ refl] assms(2,5)
    by (auto simp: ext_ok_def kl)
  obtain y where y: "y \<in> set m" "unat (e_first y) \<le> unat (e_lower b)"
    "unat (e_lower b) + unat (e_count b) \<le> unat (e_first y) + unat (e_count y)"
    "unat (kernel_lower pm b) = unat (e_lower y) + (unat (e_lower b) - unat (e_first y))"
    using map_down_range [of m "e_count b" "e_lower b", OF assms(1) [OF Some] _ _ refl] assms(3,6)
    by (auto simp: ext_ok_def kl)
  have "x = y \<or> ext_separate x y"
    using map_wf_pairwise [OF assms(1) [OF Some] x(1) y(1)] by blast
  then have "separate (kernel_lower pm a) (e_count a) (kernel_lower pm b) (e_count b)"
  proof
    assume "x = y"
    then show ?thesis using assms(4) x y by (auto simp: ext_separate_def separate_def)
  next
    assume "ext_separate x y"
    then show ?thesis using x y by (auto simp: ext_separate_def separate_def)
  qed
  then show ?thesis using assms(4) by (simp add: ext_separate_def)
qed

lemma lower_to_kernel_map:
  "lower_to_kernel pm es = Some es' \<Longrightarrow>
     es' = map (\<lambda>e. e\<lparr>e_lower := kernel_lower pm e\<rparr>) es \<and> (\<forall>e\<in>set es. kernel_lower pm e \<noteq> UID_INVALID)"
  by (induction es arbitrary: es')
     (auto simp: kernel_lower_def UID_INVALID_def Let_def split: if_splits)

lemma lower_to_kernel_wf:
  assumes "\<And>m. pm = Some m \<Longrightarrow> map_wf m" "map_wf nm" "lower_to_kernel pm nm = Some nm'"
  shows "map_wf nm'"
proof -
  note eq = lower_to_kernel_map [OF assms(3)]
  have "sorted_wrt (\<lambda>a b. ext_separate (a\<lparr>e_lower := kernel_lower pm a\<rparr>) (b\<lparr>e_lower := kernel_lower pm b\<rparr>)) nm"
    by (rule sorted_wrt_mono_rel [where P = ext_separate])
       (use eq assms map_wf_ext_ok kernel_lower_separate in \<open>auto simp: map_wf_def\<close>)
  moreover have "list_all ext_ok (map (\<lambda>e. e\<lparr>e_lower := kernel_lower pm e\<rparr>) nm)"
    using eq assms(1) kernel_lower_ok map_wf_ext_ok [OF assms(2)] by (auto simp: list_all_iff)
  ultimately show ?thesis using eq assms(2) by (simp add: map_wf_def sorted_wrt_map)
qed

definition maps_wf :: "ns_state \<Rightarrow> bool" where
  "maps_wf st \<longleftrightarrow> (\<forall>ns kind. map_wf (un_map (userns st ns) kind))"

lemma map_wf_Nil [simp]: "map_wf []"
  by (simp add: map_wf_def)

lemma maps_wf_upd:
  "maps_wf st \<Longrightarrow> (\<And>kind. map_wf (un_map u kind)) \<Longrightarrow> maps_wf (set_userns i u st)"
  by (simp add: maps_wf_def set_userns_def)

lemma maps_wf_ensure_init [simp]: "maps_wf st \<Longrightarrow> maps_wf (userns_ensure_init st)"
  by (auto simp: userns_ensure_init_def maps_wf_def set_userns_def map_wf_def ext_ok_def USERNS_MAP_EXTENTS_def)

text \<open>What a write does: fail and change no map, or store the translated map.\<close>

lemma userns_map_write_cases:
  assumes "userns_map_write co ns alloc_ok which buf st0 = (r, st')"
  obtains
    (fail) e where "r = Inl e" "st' = st0 \<or> st' = userns_ensure_init st0"
  | (stored) c nm nm' st kind where "co = Some c" "r = Inr (length buf)" "0 \<le> which" "which \<le> 2"
      "st = userns_ensure_init st0" "kind = map_kind_of which" "ns \<noteq> 0"
      "c_user_ns c = ns \<or> c_user_ns c = un_parent (userns st ns)"
      "parse_map [] buf = Some nm" "nm \<noteq> []" "un_map (userns st ns) kind = []"
      "0 \<le> cap_setid kind \<longrightarrow> ns_capable_cred st co ns CAP_SYS_ADMIN"
      "new_idmap_permitted st c ns kind nm"
      "lower_to_kernel (parent_map st ns kind) nm = Some nm'"
      "st' = set_userns ns ((userns st ns)\<lparr>un_map := (un_map (userns st ns))(kind := nm')\<rparr>) st"
proof -
  note w = assms [unfolded userns_map_write_def Let_def]
  show thesis
    apply (insert w)
    apply (simp only: not_le not_less split: if_split_asm option.split_asm)
    apply ((rule fail; force) | (erule Pair_inject, rule stored; (assumption | rule refl | erule sym | simp)))+
    done
qed

lemma maps_wf_map_write:
  assumes "maps_wf st0" "userns_map_write co ns alloc_ok which buf st0 = (r, st')"
  shows "maps_wf st'"
  using assms(2)
proof (cases rule: userns_map_write_cases)
  case fail
  then show ?thesis using assms(1) by auto
next
  case (stored c nm nm' st kind)
  have wf: "maps_wf st" using assms(1) stored(5) by simp
  have "map_wf nm'"
    by (rule lower_to_kernel_wf [OF _ parse_map_wf [OF map_wf_Nil stored(9)] stored(14)])
       (use wf in \<open>auto simp: maps_wf_def parent_map_def Let_def split: if_splits\<close>)
  then show ?thesis
    unfolding stored(15) using wf by (intro maps_wf_upd) (auto simp: maps_wf_def)
qed
section \<open>The tree of namespaces and its reference counts\<close>

text \<open>
  \<open>h i\<close> is the number of references to namespace \<open>i\<close> held from outside the
  tree (credentials, open namespace files, namespaces of other kinds it owns);
  the tree itself holds one for every child.
\<close>

type_synonym holders = "nat \<Rightarrow> nat"

definition ns_used :: "ns_state \<Rightarrow> nat \<Rightarrow> bool" where
  "ns_used st i \<longleftrightarrow> i \<noteq> 0 \<and> i < NS_MAX_USER \<and> s_used (ns_slots st NS_USER i)"

definition ns_live :: "ns_state \<Rightarrow> nat \<Rightarrow> bool" where
  "ns_live st i \<longleftrightarrow> i = 0 \<or> ns_used st i"

definition children :: "ns_state \<Rightarrow> nat \<Rightarrow> nat set" where
  "children st i = {j. ns_used st j \<and> s_owner (ns_slots st NS_USER j) = i}"

definition userns_tree :: "ns_state \<Rightarrow> bool" where
  "userns_tree st \<longleftrightarrow> un_level (userns st 0) = 0 \<and>
     (\<forall>i. ns_used st i \<longrightarrow>
        un_parent (userns st i) = s_owner (ns_slots st NS_USER i)
        \<and> ns_live st (un_parent (userns st i))
        \<and> un_level (userns st i) = un_level (userns st (un_parent (userns st i))) + 1
        \<and> un_level (userns st i) \<le> NS_MAX_LEVEL)"

definition userns_refs :: "holders \<Rightarrow> ns_state \<Rightarrow> bool" where
  "userns_refs h st \<longleftrightarrow>
     (\<forall>i. ns_used st i \<longrightarrow> 0 < s_refs (ns_slots st NS_USER i)
             \<and> s_refs (ns_slots st NS_USER i) = card (children st i) + h i)
     \<and> (\<forall>i. i \<noteq> 0 \<longrightarrow> 0 < h i \<longrightarrow> ns_used st i)"

definition userns_inv :: "holders \<Rightarrow> ns_state \<Rightarrow> bool" where
  "userns_inv h st \<longleftrightarrow> userns_tree st \<and> userns_refs h st \<and> maps_wf st"

lemma ns_used_finite [simp]: "finite {j. ns_used st j \<and> P j}"
  by (rule finite_subset [of _ "{..<NS_MAX_USER}"]) (auto simp: ns_used_def)

lemma ns_used_pos: "ns_used st i \<Longrightarrow> 0 < i"
  by (simp add: ns_used_def)

lemma children_finite [simp]: "finite (children st i)"
  by (simp add: children_def)

lemma children_live:
  assumes "userns_tree st" "j \<in> children st i" shows "ns_live st i"
  using assms by (auto simp: userns_tree_def children_def)

text \<open>The invariant looks only at the user-namespace slots, the parents and the levels.\<close>

lemma ns_used_cong: "ns_slots st' NS_USER = ns_slots st NS_USER \<Longrightarrow> ns_used st' = ns_used st"
  by (simp add: ns_used_def fun_eq_iff)

lemma userns_tree_cong:
  assumes "ns_slots st' NS_USER = ns_slots st NS_USER"
    "\<And>i. un_parent (userns st' i) = un_parent (userns st i)"
    "\<And>i. un_level (userns st' i) = un_level (userns st i)"
  shows "userns_tree st' = userns_tree st"
  using assms ns_used_cong [OF assms(1)] by (simp add: userns_tree_def ns_live_def)

lemma userns_refs_cong:
  "ns_slots st' NS_USER = ns_slots st NS_USER \<Longrightarrow> userns_refs h st' = userns_refs h st"
  using ns_used_cong [of st' st] by (simp add: userns_refs_def children_def)

lemma ensure_init_frame [simp]:
  "ns_slots (userns_ensure_init st) = ns_slots st"
  "un_parent (userns (userns_ensure_init st) i) = un_parent (userns st i)"
  "un_level (userns (userns_ensure_init st) i) = un_level (userns st i)"
  "un_owner_kuid (userns (userns_ensure_init st) i) = un_owner_kuid (userns st i)"
  by (auto simp: userns_ensure_init_def set_userns_def)

lemma userns_inv_ensure_init: "userns_inv h st \<Longrightarrow> userns_inv h (userns_ensure_init st)"
  using userns_tree_cong [of "userns_ensure_init st" st] userns_refs_cong [of "userns_ensure_init st" st]
  by (simp add: userns_inv_def)

text \<open>Dropping a reference that is held neither panics nor leaves a child without its parent.\<close>

lemma put_frees_leaf:
  assumes inv: "userns_inv h st" and i: "ns_used st i" and h: "0 < h i"
    and last: "s_refs (ns_slots st NS_USER i) = 1"
    and o: "ow = s_owner (ns_slots st NS_USER i)"
    and st1: "st1 = set_slot NS_USER i ((ns_slots st NS_USER i)\<lparr>s_refs := 0, s_used := False\<rparr>)
        (userns_release_locked i st)"
  shows "userns_inv (if ow = 0 then h(i := 0) else (h(i := 0))(ow := h ow + 1)) st1" "h i = 1"
    "ow = 0 \<or> ns_used st1 ow" "ow \<noteq> i"
proof -
  have tree: "userns_tree st" and refs: "userns_refs h st" and wf: "maps_wf st"
    using inv by (auto simp: userns_inv_def)
  have one: "card (children st i) + h i = 1" using refs i last by (auto simp: userns_refs_def)
  then show h1: "h i = 1" using h by simp
  have "card (children st i) = 0" using one h by linarith
  then have none: "children st i = {}" by simp
  have sl: "ns_slots st1 NS_USER =
      (ns_slots st NS_USER)(i := (ns_slots st NS_USER i)\<lparr>s_refs := 0, s_used := False\<rparr>)"
    and un: "userns st1 = (userns st)(i := userns_zero)"
    using i by (auto simp: st1 set_slot_def userns_release_locked_def set_userns_def ns_used_def)
  have used: "ns_used st1 j \<longleftrightarrow> ns_used st j \<and> j \<noteq> i" for j
    by (auto simp: ns_used_def sl)
  have ti: "un_parent (userns st i) = ow" "ns_live st ow"
      "un_level (userns st i) = un_level (userns st ow) + 1"
    using tree i by (auto simp: userns_tree_def o)
  show ne: "ow \<noteq> i" using ti(3) by auto
  show owl: "ow = 0 \<or> ns_used st1 ow" using ti(2) ne by (simp add: ns_live_def used)
  have ch: "children st1 j = children st j - {i}" for j
    by (auto simp: children_def used sl)
  have cho: "card (children st ow) = card (children st1 ow) + 1"
    using i o ch [of ow] card_Suc_Diff1 [of "children st ow" i] by (simp add: children_def)
  have chn: "j \<noteq> ow \<Longrightarrow> children st1 j = children st j" for j
    using ch [of j] o by (auto simp: children_def)
  have "userns_tree st1"
    using tree none i by (auto simp: userns_tree_def used un sl ns_live_def children_def ns_used_def)
  moreover have "userns_refs (if ow = 0 then h(i := 0) else (h(i := 0))(ow := h ow + 1)) st1"
    using refs cho chn owl ne by (auto simp: userns_refs_def used sl dest: ns_used_pos)
  moreover have "maps_wf st1"
    using wf by (simp add: maps_wf_def un userns_zero_def)
  ultimately show "userns_inv (if ow = 0 then h(i := 0) else (h(i := 0))(ow := h ow + 1)) st1"
    by (simp add: userns_inv_def)
qed

lemma userns_inv_drop_ref:
  assumes "userns_inv h st" "ns_used st i" "0 < h i" "s_refs (ns_slots st NS_USER i) - 1 \<noteq> 0"
  shows "userns_inv (h(i := h i - 1))
    (set_slot NS_USER i ((ns_slots st NS_USER i)\<lparr>s_refs := s_refs (ns_slots st NS_USER i) - 1\<rparr>) st)"
proof -
  define st' where "st' = set_slot NS_USER i
    ((ns_slots st NS_USER i)\<lparr>s_refs := s_refs (ns_slots st NS_USER i) - 1\<rparr>) st"
  have sl: "ns_slots st' NS_USER = (ns_slots st NS_USER)(i := (ns_slots st NS_USER i)
      \<lparr>s_refs := s_refs (ns_slots st NS_USER i) - 1\<rparr>)" and un: "userns st' = userns st"
    by (auto simp: st'_def set_slot_def)
  have used: "ns_used st' = ns_used st" by (auto simp: ns_used_def sl fun_eq_iff)
  have ch: "children st' = children st" by (auto simp: children_def used sl fun_eq_iff)
  have "userns_tree st'"
    using assms(1) by (auto simp: userns_inv_def userns_tree_def used ns_live_def sl un)
  moreover have "userns_refs (h(i := h i - 1)) st'"
    using assms by (auto simp: userns_inv_def userns_refs_def used ch sl)
  moreover have "maps_wf st'" using assms(1) by (simp add: userns_inv_def maps_wf_def un)
  ultimately show ?thesis by (simp add: userns_inv_def st'_def)
qed

lemma ns_put_user_locked_inv:
  "userns_inv h st \<Longrightarrow> ns_used st i \<Longrightarrow> 0 < h i \<Longrightarrow>
     \<exists>st'. ns_put_user_locked i st = Some st' \<and> userns_inv (h(i := h i - 1)) st'"
proof (induction i st arbitrary: h rule: ns_put_user_locked.induct)
  case (1 i st)
  let ?s = "ns_slots st NS_USER i"
  have i: "i \<noteq> 0" "i < ns_max NS_USER" and s: "s_used ?s" "s_refs ?s \<noteq> 0"
    using "1.prems"(1,2) by (auto simp: ns_used_def NS_MAX_USER_def userns_inv_def userns_refs_def)
  show ?case
  proof (cases "s_refs ?s - 1 \<noteq> 0")
    case True
    then show ?thesis
      using userns_inv_drop_ref [OF "1.prems"] i s
      by (subst ns_put_user_locked.simps) (auto simp: Let_def)
  next
    case False
    define st1 where "st1 = set_slot NS_USER i (?s\<lparr>s_refs := 0, s_used := False\<rparr>) (userns_release_locked i st)"
    have last: "s_refs ?s = 1" using False s by simp
    note leaf = put_frees_leaf [OF "1.prems" last refl st1_def]
    have put: "ns_put_user_locked i st = ns_put_user_locked (s_owner ?s) st1"
      using i s False by (subst ns_put_user_locked.simps) (simp add: Let_def st1_def)
    show ?thesis
    proof (cases "s_owner ?s = 0")
      case True
      have "ns_put_user_locked 0 st1 = Some st1" by (simp add: ns_put_user_locked.simps)
      moreover have "userns_inv (h(i := h i - 1)) st1" using leaf(1,2) True by simp
      ultimately show ?thesis using put True by (metis fun_upd_def)
    next
      case own: False
      let ?h = "(h(i := 0))(s_owner ?s := h (s_owner ?s) + 1)"
      have "\<exists>st'. ns_put_user_locked (s_owner ?s) st1 = Some st'
          \<and> userns_inv (?h(s_owner ?s := ?h (s_owner ?s) - 1)) st'"
        unfolding st1_def
        by (rule "1.IH" [where h = ?h, OF _ refl]) (use i s False leaf own in \<open>auto simp: st1_def fun_upd_def\<close>)
      moreover have "?h(s_owner ?s := ?h (s_owner ?s) - 1) = h(i := h i - 1)"
        using leaf by (auto simp: fun_eq_iff)
      ultimately show ?thesis using put by (simp add: fun_upd_def)
    qed
  qed
qed
text \<open>Creating a namespace adds a leaf held once by the creator.\<close>

lemma userns_create_cases:
  assumes "userns_create (Some c) st0 = (r, st')" "ns_live st0 (c_user_ns c)"
  obtains
    (fail) e where "r = Inl e" "st' = userns_ensure_init st0"
  | (made) i where "r = Inr i" "i \<noteq> 0" "i < NS_MAX_USER" "\<not> ns_used st0 i" "i \<noteq> c_user_ns c"
      "un_level (userns st0 (c_user_ns c)) + 1 \<le> NS_MAX_LEVEL"
      "st' = userns_init_locked i (c_user_ns c) (Some c)
               (snd (ns_alloc_locked NS_USER (c_user_ns c) (userns_ensure_init st0)))"
      "fst (ns_alloc_locked NS_USER (c_user_ns c) (userns_ensure_init st0)) = i"
proof -
  define st where "st = userns_ensure_init st0"
  obtain i st1 where al: "ns_alloc_locked NS_USER (c_user_ns c) st = (i, st1)" by force
  have al0: "i = 0 \<Longrightarrow> st1 = st"
    using al by (auto simp: ns_alloc_locked_def split: option.splits dest: first_slot_SomeD)
  have al1: "i \<noteq> 0 \<Longrightarrow> i < NS_MAX_USER \<and> \<not> ns_used st0 i"
    using al first_slot_SomeD(1,2) [of "\<lambda>i. i \<noteq> 0 \<and> \<not> s_used (ns_slots st NS_USER i)" "ns_max NS_USER" i]
    by (auto simp: ns_alloc_locked_def st_def ns_used_def NS_MAX_USER_def split: option.splits)
  have live: "i \<noteq> 0 \<Longrightarrow> i \<noteq> c_user_ns c" using al1 assms(2) by (auto simp: ns_live_def)
  show ?thesis
    using assms(1) al al0 al1 live fail made [of i]
    by (auto simp: userns_create_def st_def [symmetric] Let_def split: if_split_asm) (auto simp: st_def)
qed

lemma userns_create_state:
  assumes "i \<noteq> 0" "i < NS_MAX_USER" "i \<noteq> parent"
    "fst (ns_alloc_locked NS_USER parent st) = i"
    "st' = userns_init_locked i parent (Some c) (snd (ns_alloc_locked NS_USER parent st))"
    "userns_ready st"
  shows
    "un_parent (userns st' i) = parent"
    "un_level (userns st' i) = un_level (userns st parent) + 1"
    "un_owner_kuid (userns st' i) = c_euid c"
    "un_map (userns st' i) kind = []"
    "j \<noteq> i \<Longrightarrow> userns st' j = userns st j"
    "s_used (ns_slots st' NS_USER i)" "s_owner (ns_slots st' NS_USER i) = parent"
    "s_refs (ns_slots st' NS_USER i) = 1"
    "j \<noteq> i \<Longrightarrow> s_used (ns_slots st' NS_USER j) = s_used (ns_slots st NS_USER j)"
    "j \<noteq> i \<Longrightarrow> s_owner (ns_slots st' NS_USER j) = s_owner (ns_slots st NS_USER j)"
    "j \<noteq> i \<Longrightarrow> s_refs (ns_slots st' NS_USER j) = s_refs (ns_slots st NS_USER j)
        + (if j = parent \<and> j \<noteq> 0 \<and> j < NS_MAX_USER then 1 else 0)"
  using assms
  by (auto simp: ns_alloc_locked_def userns_init_locked_def userns_ensure_init_def Let_def set_userns_def
      ns_get_locked_def set_slot_def userns_zero_def NS_MAX_USER_def split: option.splits)

lemma userns_create_inv:
  assumes inv: "userns_inv h st0" and live: "ns_live st0 (c_user_ns c)"
    and run: "userns_create (Some c) st0 = (Inr i, st')"
  shows "userns_inv (h(i := 1)) st'"
  using run live
proof (cases rule: userns_create_cases)
  case (made i')
  define st where "st = userns_ensure_init st0"
  let ?p = "c_user_ns c"
  have [simp]: "i' = i" using made(1) by simp
  have tree: "userns_tree st" and refs: "userns_refs h st" and wf: "maps_wf st" and rdy: "userns_ready st"
    using userns_inv_ensure_init [OF inv]
    by (auto simp: userns_inv_def st_def userns_ensure_init_def set_userns_def)
  have eq: "ns_used st0 = ns_used st" by (simp add: st_def ns_used_def fun_eq_iff)
  note new = userns_create_state [OF made(2,3,5) made(8) [folded st_def] made(7) [folded st_def] rdy, simplified]
  have used: "ns_used st' j \<longleftrightarrow> ns_used st j \<or> j = i" for j
    using made(2,3) new(6) new(9) [of j] by (auto simp: ns_used_def)
  have unused: "\<not> ns_used st i" "i \<noteq> 0" using made(2,4) eq by auto
  have none: "children st i = {}"
    using children_live [OF tree, of _ i] unused by (auto simp: ns_live_def)
  have hi: "h i = 0" using refs unused by (auto simp: userns_refs_def)
  have plive: "ns_live st ?p" using live eq by (simp add: ns_live_def)
  have ne: "?p \<noteq> i" using made(5) by simp
  have owner: "s_owner (ns_slots st' NS_USER j) = (if j = i then ?p else s_owner (ns_slots st NS_USER j))" for j
    using new(7) new(10) [of j] by simp
  have ch: "children st' j = (if j = ?p then insert i (children st j) else children st j)" for j
    using unused(1) by (auto simp: children_def used owner)
  have ini: "i \<notin> children st ?p" using unused by (simp add: children_def)
  have un: "un_parent (userns st' j) = (if j = i then ?p else un_parent (userns st j))"
      "un_level (userns st' j) = (if j = i then un_level (userns st ?p) + 1 else un_level (userns st j))" for j
    using new(1,2) new(5) [of j] by auto
  have "userns_tree st'"
    using tree plive unused ne made(6)
    by (auto simp: userns_tree_def used un owner ns_live_def st_def)
  moreover have "userns_refs (h(i := 1)) st'"
    using refs new(8) new(11) none ini ne hi plive unused
    by (auto simp: userns_refs_def used ch ns_live_def dest: ns_used_pos)
       (auto simp: ns_used_def)
  moreover have "maps_wf st'"
    using wf new(4) new(5) unfolding maps_wf_def by (metis map_wf_Nil)
  ultimately show ?thesis by (simp add: userns_inv_def)
qed auto

lemma ns_get_inv:
  assumes "userns_inv h st" "ns_used st i"
  shows "userns_inv (h(i := h i + 1)) (ns_get_locked NS_USER i st)"
proof -
  define st' where "st' = ns_get_locked NS_USER i st"
  have sl: "ns_slots st' NS_USER = (ns_slots st NS_USER)(i := (ns_slots st NS_USER i)
      \<lparr>s_refs := s_refs (ns_slots st NS_USER i) + 1\<rparr>)" and un: "userns st' = userns st"
    using assms(2) by (auto simp: st'_def ns_get_locked_def set_slot_def ns_used_def NS_MAX_USER_def Let_def)
  have used: "ns_used st' = ns_used st" by (auto simp: ns_used_def sl fun_eq_iff)
  have ch: "children st' = children st" by (auto simp: children_def used sl fun_eq_iff)
  have "userns_tree st'"
    using assms(1) by (auto simp: userns_inv_def userns_tree_def used ns_live_def sl un)
  moreover have "userns_refs (h(i := h i + 1)) st'"
    using assms by (auto simp: userns_inv_def userns_refs_def used ch sl)
  moreover have "maps_wf st'" using assms(1) by (simp add: userns_inv_def maps_wf_def un)
  ultimately show ?thesis by (simp add: userns_inv_def st'_def)
qed

lemma userns_map_write_inv:
  assumes "userns_inv h st0" "userns_map_write co ns alloc_ok which buf st0 = (r, st')"
  shows "userns_inv h st'"
  using assms(2)
proof (cases rule: userns_map_write_cases)
  case fail
  then show ?thesis using assms(1) userns_inv_ensure_init by auto
next
  case (stored c nm nm' st kind)
  have "userns_inv h st" using assms(1) userns_inv_ensure_init stored(5) by simp
  moreover have "maps_wf st'" using maps_wf_map_write assms by (auto simp: userns_inv_def)
  ultimately show ?thesis
    using userns_tree_cong [of st' st] userns_refs_cong [of st' st] unfolding stored(15)
    by (simp add: userns_inv_def set_userns_def)
qed

lemma userns_setgroups_write_inv:
  assumes "userns_inv h st0" "userns_setgroups_write co ns buf st0 = (r, st')"
  shows "userns_inv h st'"
proof -
  define st where "st = userns_ensure_init st0"
  have inv: "userns_inv h st" using assms(1) userns_inv_ensure_init by (simp add: st_def)
  have "st' = st \<or> st' = set_userns ns ((userns st ns)\<lparr>un_setgroups_allowed := False\<rparr>) st" (is "_ \<or> _ = ?new")
    using assms(2) by (auto simp: userns_setgroups_write_def st_def [symmetric] Let_def split: if_splits)
  moreover have "userns_inv h ?new"
    using inv userns_tree_cong [of ?new st] userns_refs_cong [of ?new st] maps_wf_upd [of st _ ns]
    by (simp add: userns_inv_def set_userns_def maps_wf_def)
  ultimately show ?thesis using inv by auto
qed

text \<open>
  The steps the kernel takes on the tree, with the references each holder
  gains and loses: the creator of a namespace holds it, a task that joins one
  (\<open>cred_enter_userns_locked\<close>) drops the one it leaves.
\<close>

definition userns_boot :: ns_state where
  "userns_boot =
     \<lparr>ns_slots = (\<lambda>_ _. \<lparr>s_used = False, s_zombie = False, s_entered = False, s_refs = 0,
                        s_owner = 0, s_inum = 0\<rparr>),
      ns_next_inum = 0xF0000002, ns_any = False, userns = (\<lambda>_. userns_zero), userns_ready = False\<rparr>"

definition holds :: "holders \<Rightarrow> nat \<Rightarrow> bool" where
  "holds h ns \<longleftrightarrow> ns = 0 \<or> 0 < h ns"

inductive userns_step :: "ns_state \<times> holders \<Rightarrow> ns_state \<times> holders \<Rightarrow> bool" where
  step_create:
    "\<lbrakk>holds h (c_user_ns c); userns_create (Some c) st = (Inr i, st')\<rbrakk> \<Longrightarrow>
       userns_step (st, h) (st', h(i := 1))"
| step_create_fail:
    "\<lbrakk>holds h (c_user_ns c); userns_create (Some c) st = (Inl e, st')\<rbrakk> \<Longrightarrow>
       userns_step (st, h) (st', h)"
| step_get:
    "\<lbrakk>i \<noteq> 0; namespace_get NS_USER i st = (Inr (), st')\<rbrakk> \<Longrightarrow>
       userns_step (st, h) (st', h(i := h i + 1))"
| step_put:
    "\<lbrakk>i \<noteq> 0; 0 < h i; namespace_put_user i st = Some st'\<rbrakk> \<Longrightarrow>
       userns_step (st, h) (st', h(i := h i - 1))"
| step_enter:
    "\<lbrakk>holds h (c_user_ns c); cred_enter_userns_locked (Some c) ns st = Some (c', st')\<rbrakk> \<Longrightarrow>
       userns_step (st, h)
         (st', if c_user_ns c = 0 then h else h(c_user_ns c := h (c_user_ns c) - 1))"
| step_map_write:
    "userns_map_write co ns alloc_ok which buf st = (r, st') \<Longrightarrow> userns_step (st, h) (st', h)"
| step_setgroups_write:
    "userns_setgroups_write co ns buf st = (r, st') \<Longrightarrow> userns_step (st, h) (st', h)"

inductive_cases userns_stepE: "userns_step s s'"

lemma userns_inv_boot: "userns_inv (\<lambda>_. 0) userns_boot"
  by (auto simp: userns_inv_def userns_tree_def userns_refs_def maps_wf_def userns_boot_def ns_used_def
      children_def userns_zero_def)

lemma holds_live: "userns_inv h st \<Longrightarrow> holds h ns \<Longrightarrow> ns_live st ns"
  by (auto simp: userns_inv_def userns_refs_def holds_def ns_live_def)

lemma userns_step_inv:
  "userns_step (st, h) (st', h') \<Longrightarrow> userns_inv h st \<Longrightarrow> userns_inv h' st'"
proof (induction "(st, h)" "(st', h')" rule: userns_step.induct)
  case (step_create c i)
  then show ?case using userns_create_inv holds_live by metis
next
  case (step_create_fail c e)
  have "ns_live st (c_user_ns c)" using step_create_fail holds_live by blast
  with step_create_fail(2) show ?case
    by (cases rule: userns_create_cases) (use step_create_fail userns_inv_ensure_init in auto)
next
  case (step_get i)
  then show ?case
    using ns_get_inv [of h st i]
    by (auto simp: namespace_get_def ns_live_locked_def ns_used_def NS_MAX_USER_def split: if_splits)
next
  case (step_put i)
  then show ?case
    using ns_put_user_locked_inv [of h st i] holds_live [of h st i]
    by (auto simp: namespace_put_user_def holds_def ns_live_def)
next
  case (step_enter c ns c')
  then show ?case
    using ns_put_user_locked_inv [of h st "c_user_ns c"] holds_live [of h st "c_user_ns c"]
    by (auto simp: cred_enter_userns_locked_def ns_live_def holds_def ns_put_user_locked.simps [of 0]
        split: if_splits)
qed (auto intro: userns_map_write_inv userns_setgroups_write_inv)

definition userns_reachable :: "ns_state \<Rightarrow> holders \<Rightarrow> bool" where
  "userns_reachable st h \<longleftrightarrow> userns_step\<^sup>*\<^sup>* (userns_boot, \<lambda>_. 0) (st, h)"

lemma userns_reachable_inv: "userns_reachable st h \<Longrightarrow> userns_inv h st"
proof -
  have "userns_step\<^sup>*\<^sup>* s s' \<Longrightarrow> userns_inv (snd s) (fst s) \<Longrightarrow> userns_inv (snd s') (fst s')" for s s'
    by (induction rule: rtranclp_induct) (use userns_step_inv in \<open>fastforce+\<close>)
  then show "userns_reachable st h \<Longrightarrow> userns_inv h st"
    using userns_inv_boot by (force simp: userns_reachable_def)
qed
section \<open>What a capability means\<close>

definition userns_up :: "ns_state \<Rightarrow> nat \<Rightarrow> nat \<Rightarrow> bool" where
  "userns_up st x y \<longleftrightarrow> x \<noteq> 0 \<and> x < NS_MAX_USER \<and> y = un_parent (userns st x)"

lemma up_live:
  assumes "userns_tree st" "ns_live st x" "userns_up st x y"
  shows "ns_live st y" "un_level (userns st x) = un_level (userns st y) + 1"
  using assms by (auto simp: userns_tree_def ns_live_def userns_up_def)

lemma ancestors_live:
  assumes "(userns_up st)\<^sup>*\<^sup>* x y" "userns_tree st" "ns_live st x"
  shows "ns_live st y \<and> (y = x \<or> un_level (userns st y) < un_level (userns st x))"
  using assms
proof (induction rule: rtranclp_induct)
  case (step y z)
  then show ?case using up_live [of st y z] by auto
qed simp

lemma ancestors_unfold:
  assumes "x \<noteq> 0" "x < NS_MAX_USER"
  shows "(userns_up st)\<^sup>*\<^sup>* x y \<longleftrightarrow> y = x \<or> (userns_up st)\<^sup>*\<^sup>* (un_parent (userns st x)) y"
proof -
  have "userns_up st x z \<longleftrightarrow> z = un_parent (userns st x)" for z
    using assms by (simp add: userns_up_def)
  then show ?thesis
    by (metis converse_rtranclpE converse_rtranclp_into_rtranclp rtranclp.rtrancl_refl)
qed

lemma ancestors_zero: "(userns_up st)\<^sup>*\<^sup>* 0 y \<longleftrightarrow> y = 0"
  by (metis converse_rtranclpE rtranclp.rtrancl_refl userns_up_def)

lemma level_bound: "userns_tree st \<Longrightarrow> ns_live st x \<Longrightarrow> un_level (userns st x) \<le> NS_MAX_LEVEL"
  by (auto simp: userns_tree_def ns_live_def)

lemma less_walk_limit: "n \<le> NS_MAX_LEVEL \<Longrightarrow> n < walk_limit"
  by (simp add: walk_limit_def)

lemma is_ancestor_walk:
  "userns_tree st \<Longrightarrow> ns_live st ns \<Longrightarrow> un_level (userns st ns) < fuel \<Longrightarrow>
     userns_is_ancestor_walk fuel st anc ns \<longleftrightarrow> (userns_up st)\<^sup>*\<^sup>* ns anc"
proof (induction fuel arbitrary: ns)
  case (Suc fuel)
  show ?case
  proof (cases "ns = 0")
    case True
    then show ?thesis using ancestors_zero by auto
  next
    case False
    then have lt: "ns < NS_MAX_USER" using Suc.prems(2) by (auto simp: ns_live_def ns_used_def)
    then have "userns_up st ns (un_parent (userns st ns))" using False by (simp add: userns_up_def)
    note up = up_live [OF Suc.prems(1,2) this]
    show ?thesis
      using Suc.IH [OF Suc.prems(1) up(1)] up(2) Suc.prems(3) False lt ancestors_unfold [OF False lt]
      by auto
  qed
qed simp

lemma is_ancestor_iff:
  "userns_tree st \<Longrightarrow> ns_live st ns \<Longrightarrow> userns_is_ancestor st anc ns \<longleftrightarrow> (userns_up st)\<^sup>*\<^sup>* ns anc"
  using level_bound [of st ns] is_ancestor_walk [of st ns walk_limit]
  by (simp add: userns_is_ancestor_def less_walk_limit)

lemma owned_child_below:
  assumes "userns_tree st" "ns_live st ns" "userns_is_ancestor st a ns" "a \<noteq> 0" "a < NS_MAX_USER"
  shows "userns_is_ancestor st (un_parent (userns st a)) ns"
proof -
  have "userns_up st a (un_parent (userns st a))" using assms(4,5) by (simp add: userns_up_def)
  with assms(3) show ?thesis
    unfolding is_ancestor_iff [OF assms(1,2)] by (rule rtranclp.rtrancl_into_rtrancl)
qed

definition owns_below :: "ns_state \<Rightarrow> cred \<Rightarrow> nat \<Rightarrow> bool" where
  "owns_below st c a \<longleftrightarrow> a \<noteq> 0 \<and> a < NS_MAX_USER \<and> un_parent (userns st a) = c_user_ns c
     \<and> un_owner_kuid (userns st a) = c_euid c"

lemma owns_below_not_above:
  assumes "userns_tree st" "ns_live st (c_user_ns c)" "(userns_up st)\<^sup>*\<^sup>* (c_user_ns c) a"
  shows "\<not> owns_below st c a"
proof
  assume own: "owns_below st c a"
  have a: "ns_live st a" "un_level (userns st a) \<le> un_level (userns st (c_user_ns c))"
    using ancestors_live [OF assms(3,1,2)] by auto
  have "userns_up st a (c_user_ns c)" using own by (simp add: owns_below_def userns_up_def)
  then show False using up_live(2) [OF assms(1) a(1)] a(2) by simp
qed

lemma ns_capable_walk_iff:
  "userns_tree st \<Longrightarrow> ns_live st ns \<Longrightarrow> ns_live st (c_user_ns c) \<Longrightarrow> un_level (userns st ns) < fuel \<Longrightarrow>
     ns_capable_walk fuel st c ns cap \<longleftrightarrow>
       (userns_up st)\<^sup>*\<^sup>* ns (c_user_ns c)
       \<and> (has_cap (cap_effective c) cap \<or> (\<exists>a. (userns_up st)\<^sup>*\<^sup>* ns a \<and> owns_below st c a))"
proof (induction fuel arbitrary: ns)
  case (Suc fuel)
  let ?m = "c_user_ns c" and ?p = "un_parent (userns st ns)"
  note tree = Suc.prems(1)
  consider (here) "ns = ?m" | (low) "ns \<noteq> ?m" "un_level (userns st ns) \<le> un_level (userns st ?m)"
    | (up) "ns \<noteq> ?m" "un_level (userns st ?m) < un_level (userns st ns)" by linarith
  then show ?case
  proof cases
    case here
    then show ?thesis using owns_below_not_above [OF tree Suc.prems(3)] by auto
  next
    case low
    then show ?thesis using ancestors_live [OF _ tree Suc.prems(2), of ?m] by auto
  next
    case up
    have ns: "ns \<noteq> 0" "ns < NS_MAX_USER"
      using up(2) Suc.prems(2) tree by (auto simp: ns_live_def ns_used_def userns_tree_def)
    then have "userns_up st ns ?p" by (simp add: userns_up_def)
    note pl = up_live [OF tree Suc.prems(2) this]
    note unf = ancestors_unfold [OF ns, of st]
    have own: "owns_below st c ns \<longleftrightarrow> ?p = ?m \<and> c_euid c = un_owner_kuid (userns st ns)"
      using ns by (auto simp: owns_below_def)
    have "(\<exists>a. (userns_up st)\<^sup>*\<^sup>* ns a \<and> owns_below st c a) \<longleftrightarrow>
        owns_below st c ns \<or> (\<exists>a. (userns_up st)\<^sup>*\<^sup>* ?p a \<and> owns_below st c a)"
      using unf by auto
    then show ?thesis
      using Suc.IH [OF tree pl(1) Suc.prems(3)] pl(2) Suc.prems(4) up own unf [of ?m] by (auto simp: Let_def)
  qed
qed simp

lemma ns_capable_cred_iff:
  assumes "userns_tree st" "ns_live st ns" "ns_live st (c_user_ns c)"
  shows "ns_capable_cred st (Some c) ns cap \<longleftrightarrow>
    0 \<le> cap \<and> cap \<le> CAP_LAST \<and> userns_is_ancestor st (c_user_ns c) ns
    \<and> (has_cap (cap_effective c) cap
       \<or> (\<exists>a<NS_MAX_USER. userns_is_ancestor st a ns \<and> owns_below st c a))"
proof -
  have "ns < NS_MAX_USER" using assms(2) by (auto simp: ns_live_def ns_used_def NS_MAX_USER_def)
  then show ?thesis
    using ns_capable_walk_iff [OF assms(1,2,3), of walk_limit cap] less_walk_limit [OF level_bound [OF assms(1,2)]]
      is_ancestor_iff [OF assms(1,2)]
    by (auto simp: ns_capable_cred_def owns_below_def)
qed

text \<open>
  What the kernel relies on when it asks for a capability: a missing
  credential has none, a credential's effective set answers in its own
  namespace, and a larger effective set never answers less.
\<close>

locale cap_authority =
  fixes capable :: "cred option \<Rightarrow> nat \<Rightarrow> int \<Rightarrow> bool"
  assumes no_cred: "\<not> capable None ns cap"
    and own_ns: "c_user_ns c < NS_MAX_USER \<Longrightarrow>
      capable (Some c) (c_user_ns c) cap \<longleftrightarrow> 0 \<le> cap \<and> cap \<le> CAP_LAST \<and> has_cap (cap_effective c) cap"
    and effective_mono: "\<lbrakk>capable (Some c) ns cap; c_user_ns c' = c_user_ns c; c_euid c' = c_euid c;
      \<And>i. has_cap (cap_effective c) i \<Longrightarrow> has_cap (cap_effective c') i\<rbrakk> \<Longrightarrow> capable (Some c') ns cap"
begin

lemma powerless_in_own_ns:
  "c_user_ns c < NS_MAX_USER \<Longrightarrow> cap_effective c = 0 \<Longrightarrow> \<not> capable (Some c) (c_user_ns c) cap"
  by (simp add: own_ns has_cap_def)

lemma same_answer:
  assumes "c_user_ns c' = c_user_ns c" "c_euid c' = c_euid c" "cap_effective c' = cap_effective c"
  shows "capable (Some c') ns cap \<longleftrightarrow> capable (Some c) ns cap"
  using assms effective_mono [of c ns cap c'] effective_mono [of c' ns cap c] by auto

end

lemma ns_capable_walk_mono:
  assumes "c_user_ns c' = c_user_ns c" "c_euid c' = c_euid c"
    "has_cap (cap_effective c) cap \<Longrightarrow> has_cap (cap_effective c') cap"
  shows "ns_capable_walk fuel st c ns cap \<Longrightarrow> ns_capable_walk fuel st c' ns cap"
  by (induction fuel arbitrary: ns) (auto simp: Let_def assms split: if_splits)

interpretation userns_caps: cap_authority "ns_capable_cred st" for st
proof
  show "ns_capable_cred st (Some c) (c_user_ns c) cap \<longleftrightarrow>
      0 \<le> cap \<and> cap \<le> CAP_LAST \<and> has_cap (cap_effective c) cap"
    if "c_user_ns c < NS_MAX_USER" for c cap
    using that by (auto simp: ns_capable_cred_def walk_limit_def numeral_2_eq_2)
  show "ns_capable_cred st (Some c') ns cap"
    if "ns_capable_cred st (Some c) ns cap" "c_user_ns c' = c_user_ns c" "c_euid c' = c_euid c"
      "\<And>i. has_cap (cap_effective c) i \<Longrightarrow> has_cap (cap_effective c') i" for c c' ns cap
    using that ns_capable_walk_mono [of c' c cap walk_limit st ns]
    by (auto simp: ns_capable_cred_def split: if_splits)
qed (simp add: ns_capable_cred_def)

section \<open>What a map write can reach\<close>

text \<open>The kernel ids a namespace's map covers; the initial namespace covers all.\<close>

definition covers_kernel_id :: "ns_state \<Rightarrow> map_kind \<Rightarrow> nat \<Rightarrow> u32 \<Rightarrow> bool" where
  "covers_kernel_id st kind ns k \<longleftrightarrow>
     ns = 0 \<or> list_ex (\<lambda>e. unat (e_lower e) \<le> unat k \<and> unat k < unat (e_lower e) + unat (e_count e))
                (un_map (userns st ns) kind)"

lemma stored_lower_covered:
  assumes wf: "maps_wf st" and nm: "map_wf nm"
    and tr: "lower_to_kernel (parent_map st ns kind) nm = Some nm'" and rel: "map_rel nm' x k"
  shows "covers_kernel_id st kind (un_parent (userns st ns)) k"
proof (cases "un_parent (userns st ns) = 0")
  case True
  then show ?thesis by (simp add: covers_kernel_id_def)
next
  case False
  let ?pm = "un_map (userns st (un_parent (userns st ns))) kind"
  have pm: "parent_map st ns kind = Some ?pm" using False by (simp add: parent_map_def Let_def)
  note eq = lower_to_kernel_map [OF tr]
  obtain e where e: "e \<in> set nm" "ext_maps (e\<lparr>e_lower := kernel_lower (Some ?pm) e\<rparr>) x k"
    using rel eq pm by (auto simp: map_rel_def)
  have ok: "ext_ok e" using map_wf_ext_ok nm e(1) by blast
  have k: "map_down ?pm (e_lower e) (e_count e) \<noteq> UID_INVALID"
    using eq e(1) pm by (auto simp: kernel_lower_def)
  obtain y where y: "y \<in> set ?pm" "unat (e_first y) \<le> unat (e_lower e)"
    "unat (e_lower e) + unat (e_count e) \<le> unat (e_first y) + unat (e_count y)"
    "unat (map_down ?pm (e_lower e) (e_count e)) = unat (e_lower y) + (unat (e_lower e) - unat (e_first y))"
    using map_down_range [of ?pm "e_count e" "e_lower e", OF _ _ _ refl k] wf ok
    by (auto simp: maps_wf_def ext_ok_def)
  have "unat (e_lower y) \<le> unat k \<and> unat k < unat (e_lower y) + unat (e_count y)"
    using e(2) y(2-4) by (clarsimp simp: ext_maps_def kernel_lower_def) arith
  then show ?thesis using y(1) by (auto simp: covers_kernel_id_def list_ex_iff)
qed

lemma unprivileged_uid_map:
  assumes perm: "new_idmap_permitted st c ns USERNS_UID_MAP nm"
    and unpriv: "\<not> ns_capable_cred st (Some c) (un_parent (userns st ns)) CAP_SETUID"
    and tr: "lower_to_kernel (parent_map st ns USERNS_UID_MAP) nm = Some nm'"
    and par: "un_parent (userns st ns) < NS_MAX_USER" and rel: "map_rel nm' x k"
  shows "k = c_euid c"
proof -
  obtain e where e: "nm = [e]" "e_count e = 1" "make_kuid st (un_parent (userns st ns)) (e_lower e) = c_euid c"
    using perm unpriv
    by (cases nm) (auto simp: new_idmap_permitted_def cap_setid_def Let_def split: if_splits)
  have "kernel_lower (parent_map st ns USERNS_UID_MAP) e = c_euid c"
    using e(2,3) par by (auto simp: kernel_lower_def parent_map_def make_kuid_def Let_def)
  then have "ext_maps (e\<lparr>e_lower := c_euid c\<rparr>) x k"
    using lower_to_kernel_map [OF tr] e(1) rel by (simp add: map_rel_def)
  then show ?thesis using e(2) by (auto simp: ext_maps_def word_unat_eq_iff)
qed

section \<open>A concrete run\<close>

text \<open>Root creates namespace 1 and maps its uid 0 to the kernel uid 1000.\<close>

definition example_root :: cred where
  "example_root = \<lparr>c_uid = 0, c_euid = 0, c_suid = 0, c_gid = 0, c_egid = 0, c_sgid = 0, c_groups = [],
     c_ngroups = 0, c_umask = 18, c_fsuid = 0, c_fsgid = 0, cap_effective = CAP_FULL_SET,
     cap_permitted = CAP_FULL_SET, cap_inheritable = 0, cap_bounding = CAP_FULL_SET, cap_ambient = 0,
     c_securebits = 0, c_user_ns = 0\<rparr>"

definition example_made :: ns_state where
  "example_made = snd (userns_create (Some example_root) userns_boot)"

definition example_mapped :: ns_state where
  "example_mapped = snd (userns_map_write (Some example_root) 1 True 0 ''0 1000 1'' example_made)"

lemma example_made_run: "userns_create (Some example_root) userns_boot = (Inr 1, example_made)"
proof -
  have "fst (userns_create (Some example_root) userns_boot) = Inr 1" by code_simp
  then show ?thesis by (simp add: example_made_def prod_eq_iff)
qed

lemma example_made_facts:
  "un_parent (userns example_made 1) = 0" "un_level (userns example_made 1) = 1"
  "un_owner_kuid (userns example_made 1) = 0" "un_map (userns example_made 1) USERNS_UID_MAP = []"
  "userns_ready example_made" "ns_used example_made 1"
  "ns_capable_cred example_made (Some example_root) 1 CAP_SYS_ADMIN"
  by code_simp+

lemma example_map_parses:
  "parse_map [] ''0 1000 1'' = Some [\<lparr>e_first = 0, e_lower = 1000, e_count = 1\<rparr>]"
  by (simp add: parse_map.simps parse_map_line_def parse_u32_def is_blank_def is_digit_def
      USERNS_MAP_EXTENTS_def)

lemma example_map_permitted:
  "new_idmap_permitted example_made example_root 1 USERNS_UID_MAP
     [\<lparr>e_first = 0, e_lower = 1000, e_count = 1\<rparr>]"
  by code_simp

lemma example_mapped_run:
  "userns_map_write (Some example_root) 1 True 0 ''0 1000 1'' example_made = (Inr 8, example_mapped)"
proof -
  have "fst (userns_map_write (Some example_root) 1 True 0 ''0 1000 1'' example_made) = Inr 8"
    using example_made_facts example_map_parses example_map_permitted
    by (simp add: userns_map_write_def userns_ensure_init_def map_kind_of_def parent_map_def
        example_root_def [THEN arg_cong, of c_user_ns])
  then show ?thesis by (simp add: example_mapped_def prod_eq_iff)
qed

lemma example_mapped_facts:
  "un_map (userns example_mapped 1) USERNS_UID_MAP = [\<lparr>e_first = 0, e_lower = 1000, e_count = 1\<rparr>]"
  using example_made_facts example_map_parses example_map_permitted
  by (simp add: example_mapped_def userns_map_write_def userns_ensure_init_def map_kind_of_def
      parent_map_def set_userns_def example_root_def [THEN arg_cong, of c_user_ns])

lemma example_reachable:
  "userns_reachable example_made ((\<lambda>_. 0)(1 := 1))" (is ?made)
  "userns_reachable example_mapped ((\<lambda>_. 0)(1 := 1))"
proof -
  show made: ?made
    unfolding userns_reachable_def
    using step_create [OF _ example_made_run, of "\<lambda>_. 0"] by (auto simp: holds_def example_root_def)
  show "userns_reachable example_mapped ((\<lambda>_. 0)(1 := 1))"
    using made step_map_write [OF example_mapped_run]
    unfolding userns_reachable_def by (rule rtranclp.rtrancl_into_rtrancl)
qed
section \<open>Properties\<close>

text \<open>
  C3. In every reachable state the maps of a namespace are inverse to each
  other where they are defined: a uid that has a kernel id is what that kernel
  id reads back as, and the other way round, so no two uids of a namespace
  share a kernel id; the same holds for gids.
\<close>

theorem userns_id_round_trip:
  assumes "userns_reachable st h" "x \<noteq> UID_INVALID" "y \<noteq> UID_INVALID"
  shows "(make_kuid st ns x = y \<longleftrightarrow> from_kuid st ns y = x)
    \<and> (make_kgid st ns x = y \<longleftrightarrow> from_kgid st ns y = x)"
  using userns_reachable_inv [OF assms(1)] assms(2,3)
  by (auto simp: make_kuid_def from_kuid_def make_kgid_def from_kgid_def userns_inv_def maps_wf_def
      map_down_iff map_up_iff)

theorem userns_id_round_trip_witness:
  "userns_reachable example_mapped ((\<lambda>_. 0)(1 := 1)) \<and> make_kuid example_mapped 1 0 = 1000
     \<and> from_kuid example_mapped 1 1000 = 0"
proof -
  have "make_kuid example_mapped 1 0 = 1000"
    by (simp add: make_kuid_def NS_MAX_USER_def map_down_def UID_INVALID_def example_mapped_facts [simplified])
  then show ?thesis
    using userns_id_round_trip [OF example_reachable(2), of 0 1000 1] example_reachable(2)
    by (simp add: UID_INVALID_def)
qed

text \<open>
  C4. What a capability is relative to, in every reachable state and for a
  credential that is held: in its own namespace a task has exactly its
  effective set; in a namespace that is neither its own nor below it, nothing;
  in a namespace that lies in or below a child of its own namespace which it
  owns by its effective uid, every capability; and nowhere a capability that
  is not in its effective set, unless it owns a namespace on the path up from
  the one asked about.
\<close>

theorem ns_capable_cred_scope:
  assumes "userns_reachable st h" "ns_live st ns" "holds h (c_user_ns c)"
  shows "(ns = c_user_ns c \<longrightarrow>
           ns_capable_cred st (Some c) ns cap = (0 \<le> cap \<and> cap \<le> CAP_LAST \<and> has_cap (cap_effective c) cap))
    \<and> (\<not> userns_is_ancestor st (c_user_ns c) ns \<longrightarrow> \<not> ns_capable_cred st (Some c) ns cap)
    \<and> (a \<noteq> 0 \<and> a < NS_MAX_USER \<and> userns_is_ancestor st a ns \<and> un_parent (userns st a) = c_user_ns c
         \<and> un_owner_kuid (userns st a) = c_euid c \<and> 0 \<le> cap \<and> cap \<le> CAP_LAST
         \<longrightarrow> ns_capable_cred st (Some c) ns cap)
    \<and> (\<not> has_cap (cap_effective c) cap
         \<and> (\<forall>a<NS_MAX_USER. a \<noteq> 0 \<and> userns_is_ancestor st a ns \<longrightarrow> un_owner_kuid (userns st a) \<noteq> c_euid c)
         \<longrightarrow> \<not> ns_capable_cred st (Some c) ns cap)"
proof -
  have inv: "userns_inv h st" using userns_reachable_inv [OF assms(1)] .
  then have tree: "userns_tree st" by (simp add: userns_inv_def)
  have live: "ns_live st (c_user_ns c)" using holds_live [OF inv assms(3)] .
  have lt: "c_user_ns c < NS_MAX_USER" using live by (auto simp: ns_live_def ns_used_def NS_MAX_USER_def)
  note iff = ns_capable_cred_iff [OF tree assms(2) live, of cap]
  have "ns = c_user_ns c \<longrightarrow>
      ns_capable_cred st (Some c) ns cap = (0 \<le> cap \<and> cap \<le> CAP_LAST \<and> has_cap (cap_effective c) cap)"
    using userns_caps.own_ns [of c st cap] lt by auto
  moreover have "userns_is_ancestor st (c_user_ns c) ns"
    if "a \<noteq> 0" "a < NS_MAX_USER" "userns_is_ancestor st a ns" "un_parent (userns st a) = c_user_ns c"
    using owned_child_below [OF tree assms(2) that(3,1,2)] that(4) by simp
  ultimately show ?thesis unfolding iff owns_below_def by blast
qed

theorem ns_capable_cred_scope_witness:
  "ns_capable_cred example_made (Some example_root) 1 CAP_SYS_ADMIN"
proof -
  have "ns_live example_made 1" "holds ((\<lambda>_. 0)(1 := 1)) (c_user_ns example_root)"
    using example_made_facts(6) by (simp_all add: ns_live_def holds_def example_root_def)
  moreover have "userns_is_ancestor example_made 1 1" "c_euid example_root = 0" "c_user_ns example_root = 0"
    by code_simp+
  ultimately show ?thesis
    using ns_capable_cred_scope [OF example_reachable(1), of 1 example_root CAP_SYS_ADMIN 1] example_made_facts(1,3)
    by (simp add: NS_MAX_USER_def CAP_LAST_def)
qed

text \<open>
  Below its own namespace a task that owns nothing still has its effective
  set, which the comment of \<^verbatim>\<open>user_namespace.h\<close> rules out.
\<close>

lemma ns_capable_below_by_effective_set:
  assumes "userns_tree st" "ns_live st ns" "ns_live st (c_user_ns c)"
    "userns_is_ancestor st (c_user_ns c) ns" "has_cap (cap_effective c) cap" "0 \<le> cap" "cap \<le> CAP_LAST"
  shows "ns_capable_cred st (Some c) ns cap"
  using assms by (simp add: ns_capable_cred_iff)

text \<open>
  C5. Dropping a held reference to a user namespace never underflows a
  reference count, in the namespace or in any ancestor it releases, and leaves
  a state in which every namespace still has its parent.
\<close>

theorem namespace_put_user_no_underflow:
  assumes "userns_reachable st h" "i \<noteq> 0" "0 < h i"
  shows "\<exists>st'. namespace_put_user i st = Some st' \<and> userns_reachable st' (h(i := h i - 1))
    \<and> (\<forall>j. ns_used st' j \<longrightarrow> ns_live st' (un_parent (userns st' j)))"
proof -
  have inv: "userns_inv h st" using userns_reachable_inv [OF assms(1)] .
  have "ns_used st i" using holds_live [OF inv, of i] assms(2,3) by (simp add: holds_def ns_live_def)
  then obtain st' where put: "namespace_put_user i st = Some st'"
    and inv': "userns_inv (h(i := h i - 1)) st'"
    using ns_put_user_locked_inv [OF inv _ assms(3)] assms(2) by (auto simp: namespace_put_user_def)
  have "userns_reachable st' (h(i := h i - 1))"
    using assms(1) step_put [where h = h, OF assms(2,3) put]
    unfolding userns_reachable_def by (rule rtranclp.rtrancl_into_rtrancl)
  then show ?thesis using put inv' by (auto simp: userns_inv_def userns_tree_def)
qed

theorem namespace_put_user_no_underflow_witness:
  "\<exists>st'. namespace_put_user 1 example_made = Some st'"
  using namespace_put_user_no_underflow [OF example_reachable(1), of 1] by auto

text \<open>
  C6. A successful write of a uid map gives the namespace no kernel uid that
  its parent's map does not cover, and, when the writer does not hold
  CAP_SETUID over the parent, no kernel uid but the writer's own effective
  one.
\<close>

theorem userns_map_write_confined:
  assumes "userns_reachable st h" "userns_ready st" "holds h ns" "ns \<noteq> 0"
    and "userns_map_write (Some c) ns alloc_ok 0 buf st = (Inr n, st')"
    and "make_kuid st' ns x = k" "k \<noteq> UID_INVALID"
  shows "covers_kernel_id st USERNS_UID_MAP (un_parent (userns st ns)) k
    \<and> (ns_capable_cred st (Some c) (un_parent (userns st ns)) CAP_SETUID \<or> k = c_euid c)"
  using assms(5)
proof (cases rule: userns_map_write_cases)
  case (stored c' nm nm' st1 kind)
  have inv: "userns_inv h st" using userns_reachable_inv [OF assms(1)] .
  have live: "ns_used st ns" using holds_live [OF inv assms(3)] assms(4) by (simp add: ns_live_def)
  have [simp]: "st1 = st" "kind = USERNS_UID_MAP" "c' = c"
    using stored(1,5,6) assms(2) by (auto simp: userns_ensure_init_def map_kind_of_def)
  have par: "un_parent (userns st ns) < NS_MAX_USER"
    using inv live by (auto simp: userns_inv_def userns_tree_def ns_live_def ns_used_def NS_MAX_USER_def)
  have nm: "map_wf nm" using parse_map_wf [OF map_wf_Nil stored(9)] .
  have wf: "maps_wf st" using inv by (simp add: userns_inv_def)
  have "un_map (userns st' ns) USERNS_UID_MAP = nm'"
    using stored(15) by (simp add: set_userns_def)
  moreover have "maps_wf st'" using maps_wf_map_write [OF wf assms(5)] .
  ultimately have rel: "map_rel nm' x k"
    using assms(4,6,7) live map_down_iff [of nm' k x]
    by (auto simp: make_kuid_def ns_used_def maps_wf_def split: if_splits)
  have tr: "lower_to_kernel (parent_map st ns USERNS_UID_MAP) nm = Some nm'" using stored(14) by simp
  show ?thesis
    using stored_lower_covered [OF wf nm tr rel] unprivileged_uid_map [OF _ _ tr par rel] stored(13) by auto
qed simp

theorem userns_map_write_confined_witness:
  "make_kuid example_mapped 1 0 = 1000 \<and> covers_kernel_id example_made USERNS_UID_MAP 0 1000
     \<and> ns_capable_cred example_made (Some example_root) 0 CAP_SETUID"
proof -
  have k: "make_kuid example_mapped 1 0 = 1000"
    by (simp add: make_kuid_def NS_MAX_USER_def map_down_def UID_INVALID_def example_mapped_facts [simplified])
  have "covers_kernel_id example_made USERNS_UID_MAP (un_parent (userns example_made 1)) 1000
      \<and> (ns_capable_cred example_made (Some example_root) (un_parent (userns example_made 1)) CAP_SETUID
         \<or> 1000 = c_euid example_root)"
    by (rule userns_map_write_confined [OF example_reachable(1) example_made_facts(5) _ _ example_mapped_run k])
       (simp_all add: holds_def UID_INVALID_def)
  then show ?thesis using k example_made_facts(1) by (simp add: example_root_def)
qed

end
