(* ===== verification/Creds.thy ===== *)
theory Creds
  imports UserNs
begin

text \<open>
  Users, groups and credentials: \<^verbatim>\<open>kernel/sched/uidgid.c\<close>. The operations take
  the namespace state they translate and check capabilities in, and return the
  updated credential; \<open>prctl(2)\<close> adds the calls of
  \<^verbatim>\<open>kernel/syscall/syscall.c\<close> that set PR_SET_KEEPCAPS, drop from the bounding set and
  change the ambient set. The lemmas show what a sequence of credential calls can
  and cannot gain: an unprivileged task only permutes the ids it has, leaving
  root without keeping capabilities drops them for good, and the capability
  sets stay ordered.
\<close>

section \<open>Users and groups\<close>

definition MAX_USERS :: nat where "MAX_USERS = 64"

record user =
  usr_uid :: u32
  usr_gid :: u32
  usr_name :: string

record group =
  grp_gid :: u32
  grp_name :: string
  grp_members :: "u32 list"

record uidgid_state =
  users :: "user list"
  groups :: "group list"

definition user_find_by_uid :: "uidgid_state \<Rightarrow> u32 \<Rightarrow> user option" where
  "user_find_by_uid s uid = find (\<lambda>u. usr_uid u = uid) (users s)"

definition user_find_by_name :: "uidgid_state \<Rightarrow> string \<Rightarrow> user option" where
  "user_find_by_name s nm = find (\<lambda>u. usr_name u = nm) (users s)"

definition group_find_by_gid :: "uidgid_state \<Rightarrow> u32 \<Rightarrow> group option" where
  "group_find_by_gid s gid = find (\<lambda>g. grp_gid g = gid) (groups s)"

text \<open>The boolean is the C result: \<^term>\<open>True\<close> for 0, \<^term>\<open>False\<close> for -1.\<close>

definition user_add :: "u32 \<Rightarrow> u32 \<Rightarrow> string \<Rightarrow> uidgid_state \<Rightarrow> bool \<times> uidgid_state" where
  "user_add uid gid nm s =
     (if length (users s) \<ge> MAX_USERS then (False, s)
      else if user_find_by_uid s uid \<noteq> None then (False, s)
      else (True, s\<lparr>users := users s @ [\<lparr>usr_uid = uid, usr_gid = gid, usr_name = take 31 nm\<rparr>]\<rparr>))"

definition group_add :: "u32 \<Rightarrow> string \<Rightarrow> uidgid_state \<Rightarrow> bool \<times> uidgid_state" where
  "group_add gid nm s =
     (if length (groups s) \<ge> MAX_GROUPS then (False, s)
      else if group_find_by_gid s gid \<noteq> None then (False, s)
      else (True, s\<lparr>groups := groups s @ [\<lparr>grp_gid = gid, grp_name = take 31 nm, grp_members = []\<rparr>]\<rparr>))"

fun update_first :: "('a \<Rightarrow> bool) \<Rightarrow> ('a \<Rightarrow> 'a) \<Rightarrow> 'a list \<Rightarrow> 'a list" where
  "update_first P f [] = []"
| "update_first P f (x # xs) = (if P x then f x # xs else x # update_first P f xs)"

definition group_add_member :: "u32 \<Rightarrow> u32 \<Rightarrow> uidgid_state \<Rightarrow> bool \<times> uidgid_state" where
  "group_add_member gid uid s =
     (case group_find_by_gid s gid of
        None \<Rightarrow> (False, s)
      | Some g \<Rightarrow>
          if length (grp_members g) \<ge> MAX_USERS then (False, s)
          else if uid \<in> set (grp_members g) then (True, s)
          else (True, s\<lparr>groups := update_first (\<lambda>g. grp_gid g = gid)
                          (\<lambda>g. g\<lparr>grp_members := grp_members g @ [uid]\<rparr>) (groups s)\<rparr>))"

definition uidgid_init :: "uidgid_state" where
  "uidgid_init =
     (let s = \<lparr>users = [], groups = []\<rparr>;
          s = snd (user_add 0 0 ''root'' s);
          s = snd (group_add 0 ''root'' s);
          s = snd (group_add_member 0 0 s);
          s = snd (group_add 5 ''tty'' s);
          s = snd (group_add 6 ''disk'' s);
          s = snd (group_add 7 ''net'' s);
          s = snd (group_add 10 ''wheel'' s);
          s = snd (group_add_member 10 0 s);
          s = snd (user_add 1 1 ''daemon'' s);
          s = snd (group_add 1 ''daemon'' s);
          s = snd (group_add_member 1 1 s);
          s = snd (user_add 1000 1000 ''user'' s);
          s = snd (group_add 1000 ''users'' s)
      in snd (group_add_member 1000 1000 s))"

section \<open>Credential lifetime\<close>

definition cred_default :: cred where
  "cred_default = \<lparr>c_uid = 0, c_euid = 0, c_suid = 0, c_gid = 0, c_egid = 0, c_sgid = 0,
     c_groups = replicate MAX_GROUPS 0, c_ngroups = 0, c_umask = 18, c_fsuid = 0, c_fsgid = 0,
     cap_effective = CAP_FULL_SET, cap_permitted = CAP_FULL_SET, cap_inheritable = 0,
     cap_bounding = CAP_FULL_SET, cap_ambient = 0, c_securebits = 0, c_user_ns = 0\<rparr>"

text \<open>\<open>alloc_ok\<close> is whether the allocation succeeds.\<close>

definition cred_create_default :: "bool \<Rightarrow> cred option" where
  "cred_create_default alloc_ok = (if alloc_ok then Some cred_default else None)"

definition cred_dup :: "bool \<Rightarrow> cred option \<Rightarrow> ns_state \<Rightarrow> cred option \<times> ns_state" where
  "cred_dup alloc_ok src st =
     (case src of
        None \<Rightarrow> (cred_create_default alloc_ok, st)
      | Some c \<Rightarrow>
          if \<not> alloc_ok then (None, st)
          else if c_user_ns c = 0 then (Some c, st)
          else (case namespace_get NS_USER (c_user_ns c) st of
                  (Inl e, st') \<Rightarrow> (Some (c\<lparr>c_user_ns := 0\<rparr>), st')
                | (Inr _, st') \<Rightarrow> (Some c, st')))"

text \<open>\<^term>\<open>None\<close> is the panic of a reference underflow.\<close>

definition cred_free :: "cred option \<Rightarrow> ns_state \<Rightarrow> ns_state option" where
  "cred_free co st = (case co of None \<Rightarrow> Some st | Some c \<Rightarrow> namespace_put_user (c_user_ns c) st)"

section \<open>Changing ids\<close>

definition SECBIT :: "nat \<Rightarrow> u32" where "SECBIT n = push_bit n 1"

abbreviation (input) SECURE_NOROOT :: nat where "SECURE_NOROOT \<equiv> 0"
abbreviation (input) SECURE_NO_SETUID_FIXUP :: nat where "SECURE_NO_SETUID_FIXUP \<equiv> 2"
abbreviation (input) SECURE_KEEP_CAPS :: nat where "SECURE_KEEP_CAPS \<equiv> 4"
abbreviation (input) SECURE_NO_CAP_AMBIENT_RAISE :: nat where "SECURE_NO_CAP_AMBIENT_RAISE \<equiv> 6"

definition SECURE_ALL_BITS :: u32 where
  "SECURE_ALL_BITS = SECBIT SECURE_NOROOT OR SECBIT SECURE_NO_SETUID_FIXUP OR SECBIT SECURE_KEEP_CAPS
     OR SECBIT SECURE_NO_CAP_AMBIENT_RAISE"

definition SECURE_ALL_LOCKS :: u32 where "SECURE_ALL_LOCKS = push_bit 1 SECURE_ALL_BITS"

definition secbit :: "cred \<Rightarrow> nat \<Rightarrow> bool" where
  "secbit c n \<longleftrightarrow> c_securebits c AND SECBIT n \<noteq> 0"

definition cred_root_kuid :: "ns_state \<Rightarrow> cred \<Rightarrow> u32" where
  "cred_root_kuid st c = make_kuid st (c_user_ns c) 0"

definition priv_setuid :: "ns_state \<Rightarrow> cred \<Rightarrow> bool" where
  "priv_setuid st c = ns_capable_cred st (Some c) (c_user_ns c) CAP_SETUID"

definition priv_setgid :: "ns_state \<Rightarrow> cred \<Rightarrow> bool" where
  "priv_setgid st c = ns_capable_cred st (Some c) (c_user_ns c) CAP_SETGID"

definition cred_fixup_setuid :: "ns_state \<Rightarrow> u32 \<Rightarrow> u32 \<Rightarrow> u32 \<Rightarrow> cred \<Rightarrow> cred" where
  "cred_fixup_setuid st old_ruid old_euid old_suid c =
     (if secbit c SECURE_NO_SETUID_FIXUP then c
      else let root = cred_root_kuid st c;
               was_root = (old_ruid = root \<or> old_euid = root \<or> old_suid = root);
               now_root = (c_uid c = root \<or> c_euid c = root \<or> c_suid c = root);
               c = (if was_root \<and> \<not> now_root then
                      (if \<not> secbit c SECURE_KEEP_CAPS then c\<lparr>cap_permitted := 0, cap_effective := 0\<rparr> else c)
                        \<lparr>cap_ambient := 0\<rparr>
                    else c);
               c = (if old_euid = root \<and> c_euid c \<noteq> root then c\<lparr>cap_effective := 0\<rparr> else c)
        in if old_euid \<noteq> root \<and> c_euid c = root then c\<lparr>cap_effective := cap_permitted c\<rparr> else c)"

definition CAP_FS_MASK :: u64 where
  "CAP_FS_MASK = push_bit (nat CAP_CHOWN) 1 OR push_bit (nat CAP_DAC_OVERRIDE) 1
     OR push_bit (nat CAP_DAC_READ_SEARCH) 1 OR push_bit (nat CAP_FOWNER) 1
     OR push_bit (nat CAP_FSETID) 1 OR push_bit (nat CAP_LINUX_IMMUTABLE) 1
     OR push_bit (nat CAP_MKNOD) 1 OR push_bit (nat CAP_MAC_OVERRIDE) 1"

definition cred_fixup_fsuid :: "ns_state \<Rightarrow> u32 \<Rightarrow> cred \<Rightarrow> cred" where
  "cred_fixup_fsuid st old_fsuid c =
     (if secbit c SECURE_NO_SETUID_FIXUP then c
      else let root = cred_root_kuid st c;
               c = (if old_fsuid = root \<and> c_fsuid c \<noteq> root
                    then c\<lparr>cap_effective := cap_effective c AND NOT CAP_FS_MASK\<rparr> else c)
        in if old_fsuid \<noteq> root \<and> c_fsuid c = root
           then c\<lparr>cap_effective := cap_effective c OR (cap_permitted c AND CAP_FS_MASK)\<rparr> else c)"

definition cred_sync_fsids :: "ns_state \<Rightarrow> cred \<Rightarrow> cred" where
  "cred_sync_fsids st c =
     cred_fixup_fsuid st (c_fsuid c) (c\<lparr>c_fsuid := c_euid c, c_fsgid := c_egid c\<rparr>)"

text \<open>
  The calls on a credential that is there: for a null pointer each returns
  \<open>-EINVAL\<close> (the two fs-id calls 0) at once. Arguments of type \<open>int\<close> are kept
  as the 32-bit values they are, \<^term>\<open>-1\<close> leaving a field unchanged.
\<close>

definition cred_set_uid :: "ns_state \<Rightarrow> u32 \<Rightarrow> cred \<Rightarrow> unit result \<times> cred" where
  "cred_set_uid st uid c =
     (let priv = priv_setuid st c in
      if \<not> priv \<and> uid \<noteq> c_uid c \<and> uid \<noteq> c_suid c then (Inl EPERM, c)
      else let c1 = (if priv then c\<lparr>c_uid := uid, c_suid := uid\<rparr> else c);
               c2 = c1\<lparr>c_euid := uid\<rparr>
        in (Inr (), cred_sync_fsids st (cred_fixup_setuid st (c_uid c) (c_euid c) (c_suid c) c2)))"

definition cred_set_gid :: "ns_state \<Rightarrow> u32 \<Rightarrow> cred \<Rightarrow> unit result \<times> cred" where
  "cred_set_gid st gid c =
     (let priv = priv_setgid st c in
      if \<not> priv \<and> gid \<noteq> c_gid c \<and> gid \<noteq> c_sgid c then (Inl EPERM, c)
      else let c1 = (if priv then c\<lparr>c_gid := gid, c_sgid := gid\<rparr> else c)
        in (Inr (), cred_sync_fsids st (c1\<lparr>c_egid := gid\<rparr>)))"

definition cred_setreuid :: "ns_state \<Rightarrow> u32 \<Rightarrow> u32 \<Rightarrow> cred \<Rightarrow> unit result \<times> cred" where
  "cred_setreuid st ruid euid c =
     (let priv = priv_setuid st c in
      if ruid \<noteq> -1 \<and> \<not> priv \<and> ruid \<noteq> c_uid c \<and> ruid \<noteq> c_euid c then (Inl EPERM, c)
      else if euid \<noteq> -1 \<and> \<not> priv \<and> euid \<noteq> c_uid c \<and> euid \<noteq> c_euid c \<and> euid \<noteq> c_suid c
      then (Inl EPERM, c)
      else let c1 = (if ruid \<noteq> -1 then c\<lparr>c_uid := ruid\<rparr> else c);
               c2 = (if euid \<noteq> -1 then c1\<lparr>c_euid := euid\<rparr> else c1);
               c3 = (if ruid \<noteq> -1 \<or> euid \<noteq> -1 \<and> euid \<noteq> c_uid c then c2\<lparr>c_suid := c_euid c2\<rparr> else c2)
        in (Inr (), cred_sync_fsids st (cred_fixup_setuid st (c_uid c) (c_euid c) (c_suid c) c3)))"

definition cred_setregid :: "ns_state \<Rightarrow> u32 \<Rightarrow> u32 \<Rightarrow> cred \<Rightarrow> unit result \<times> cred" where
  "cred_setregid st rgid egid c =
     (let priv = priv_setgid st c in
      if rgid \<noteq> -1 \<and> \<not> priv \<and> rgid \<noteq> c_gid c \<and> rgid \<noteq> c_egid c then (Inl EPERM, c)
      else if egid \<noteq> -1 \<and> \<not> priv \<and> egid \<noteq> c_gid c \<and> egid \<noteq> c_egid c \<and> egid \<noteq> c_sgid c
      then (Inl EPERM, c)
      else let c1 = (if rgid \<noteq> -1 then c\<lparr>c_gid := rgid\<rparr> else c);
               c2 = (if egid \<noteq> -1 then c1\<lparr>c_egid := egid\<rparr> else c1);
               c3 = (if rgid \<noteq> -1 \<or> egid \<noteq> -1 \<and> egid \<noteq> c_gid c then c2\<lparr>c_sgid := c_egid c2\<rparr> else c2)
        in (Inr (), cred_sync_fsids st c3))"

definition own_uid :: "cred \<Rightarrow> u32 \<Rightarrow> bool" where
  "own_uid c x \<longleftrightarrow> x = -1 \<or> x = c_uid c \<or> x = c_euid c \<or> x = c_suid c"

definition own_gid :: "cred \<Rightarrow> u32 \<Rightarrow> bool" where
  "own_gid c x \<longleftrightarrow> x = -1 \<or> x = c_gid c \<or> x = c_egid c \<or> x = c_sgid c"

definition cred_setresuid :: "ns_state \<Rightarrow> u32 \<Rightarrow> u32 \<Rightarrow> u32 \<Rightarrow> cred \<Rightarrow> unit result \<times> cred" where
  "cred_setresuid st ruid euid suid c =
     (let priv = priv_setuid st c in
      if \<not> priv \<and> \<not> (own_uid c ruid \<and> own_uid c euid \<and> own_uid c suid) then (Inl EPERM, c)
      else let c1 = (if ruid \<noteq> -1 then c\<lparr>c_uid := ruid\<rparr> else c);
               c2 = (if euid \<noteq> -1 then c1\<lparr>c_euid := euid\<rparr> else c1);
               c3 = (if suid \<noteq> -1 then c2\<lparr>c_suid := suid\<rparr> else c2)
        in (Inr (), cred_sync_fsids st (cred_fixup_setuid st (c_uid c) (c_euid c) (c_suid c) c3)))"

definition cred_setresgid :: "ns_state \<Rightarrow> u32 \<Rightarrow> u32 \<Rightarrow> u32 \<Rightarrow> cred \<Rightarrow> unit result \<times> cred" where
  "cred_setresgid st rgid egid sgid c =
     (let priv = priv_setgid st c in
      if \<not> priv \<and> \<not> (own_gid c rgid \<and> own_gid c egid \<and> own_gid c sgid) then (Inl EPERM, c)
      else let c1 = (if rgid \<noteq> -1 then c\<lparr>c_gid := rgid\<rparr> else c);
               c2 = (if egid \<noteq> -1 then c1\<lparr>c_egid := egid\<rparr> else c1);
               c3 = (if sgid \<noteq> -1 then c2\<lparr>c_sgid := sgid\<rparr> else c2)
        in (Inr (), cred_sync_fsids st c3))"

text \<open>The previous id is returned whether or not it changes.\<close>

definition cred_set_fsuid :: "ns_state \<Rightarrow> u32 \<Rightarrow> cred \<Rightarrow> u32 \<times> cred" where
  "cred_set_fsuid st fsuid c =
     (c_fsuid c,
      if fsuid = c_uid c \<or> fsuid = c_euid c \<or> fsuid = c_suid c \<or> fsuid = c_fsuid c \<or> priv_setuid st c
      then cred_fixup_fsuid st (c_fsuid c) (c\<lparr>c_fsuid := fsuid\<rparr>) else c)"

definition cred_set_fsgid :: "ns_state \<Rightarrow> u32 \<Rightarrow> cred \<Rightarrow> u32 \<times> cred" where
  "cred_set_fsgid st fsgid c =
     (c_fsgid c,
      if fsgid = c_gid c \<or> fsgid = c_egid c \<or> fsgid = c_sgid c \<or> fsgid = c_fsgid c \<or> priv_setgid st c
      then c\<lparr>c_fsgid := fsgid\<rparr> else c)"

section \<open>Permissions, capabilities and exec\<close>

definition cred_can_access :: "cred option \<Rightarrow> u32 \<Rightarrow> u32 \<Rightarrow> u16 \<Rightarrow> u32 \<Rightarrow> bool" where
  "cred_can_access co file_uid file_gid file_mode access_mask =
     (case co of
        None \<Rightarrow> False
      | Some c \<Rightarrow>
          let in_group = (c_fsgid c = file_gid \<or> file_gid \<in> set (take (nat (c_ngroups c)) (c_groups c)));
              perms = (if c_fsuid c = file_uid then drop_bit 6 file_mode AND 7
                       else if in_group then drop_bit 3 file_mode AND 7
                       else file_mode AND 7)
          in ucast perms AND access_mask = access_mask)"

definition cred_refresh_caps :: "ns_state \<Rightarrow> cred \<Rightarrow> cred" where
  "cred_refresh_caps st c =
     (if secbit c SECURE_NO_SETUID_FIXUP then c
      else let root = (c_euid c = cred_root_kuid st c \<and> \<not> secbit c SECURE_NOROOT);
               want = (if root then CAP_FULL_SET
                       else if secbit c SECURE_KEEP_CAPS then cap_permitted c else 0);
               perm = want AND cap_bounding c
        in c\<lparr>cap_permitted := perm, cap_effective := perm,
             cap_inheritable := cap_inheritable c AND cap_bounding c\<rparr>)"

definition exec_setid :: "ns_state \<Rightarrow> u16 \<Rightarrow> u32 \<Rightarrow> u32 \<Rightarrow> bool \<Rightarrow> cred \<Rightarrow> cred" where
  "exec_setid st file_mode file_kuid file_kgid honour_setid c =
     (let mapped = (kuid_has_mapping st (c_user_ns c) file_kuid \<and> kgid_has_mapping st (c_user_ns c) file_kgid);
          c1 = (if honour_setid \<and> mapped \<and> file_mode AND 0x800 \<noteq> 0 then c\<lparr>c_euid := file_kuid\<rparr> else c)
      in if honour_setid \<and> mapped \<and> file_mode AND 0x408 = 0x408 then c1\<lparr>c_egid := file_kgid\<rparr> else c1)"

definition cred_exec_transform :: "ns_state \<Rightarrow> u16 \<Rightarrow> u32 \<Rightarrow> u32 \<Rightarrow> bool \<Rightarrow> cred \<Rightarrow> bool \<times> cred" where
  "cred_exec_transform st file_mode file_kuid file_kgid honour_setid c =
     (let root = cred_root_kuid st c;
          c2 = exec_setid st file_mode file_kuid file_kgid honour_setid c;
          is_setid = (c_euid c2 \<noteq> c_uid c2 \<or> c_egid c2 \<noteq> c_gid c2);
          rooted = (\<not> secbit c2 SECURE_NOROOT \<and> (c_euid c2 = root \<or> c_uid c2 = root));
          eff = (rooted \<and> c_euid c2 = root);
          amb = (if is_setid then 0 else cap_ambient c2);
          perm = ((if rooted then cap_bounding c2 OR cap_inheritable c2 else 0) AND cap_bounding c2) OR amb
      in (is_setid,
          c2\<lparr>cap_ambient := amb, cap_permitted := perm, cap_effective := (if eff then perm else amb),
             c_suid := c_euid c2, c_sgid := c_egid c2, c_fsuid := c_euid c2, c_fsgid := c_egid c2,
             c_securebits := c_securebits c2 AND NOT (SECBIT SECURE_KEEP_CAPS)\<rparr>))"

definition cred_set_securebits :: "ns_state \<Rightarrow> u32 \<Rightarrow> cred \<Rightarrow> unit result \<times> cred" where
  "cred_set_securebits st bits c =
     (if bits AND NOT (SECURE_ALL_BITS OR SECURE_ALL_LOCKS) \<noteq> 0 then (Inl EINVAL, c)
      else if (c_securebits c AND SECURE_ALL_LOCKS) AND NOT bits \<noteq> 0 then (Inl EPERM, c)
      else let changed = (c_securebits c XOR bits) AND SECURE_ALL_BITS in
        if changed AND drop_bit 1 (c_securebits c) AND SECURE_ALL_BITS \<noteq> 0 then (Inl EPERM, c)
        else if \<not> ns_capable_cred st (Some c) (c_user_ns c) CAP_SETPCAP then (Inl EPERM, c)
        else (Inr (), c\<lparr>c_securebits := bits\<rparr>))"

definition cred_capset :: "u64 \<Rightarrow> u64 \<Rightarrow> u64 \<Rightarrow> cred \<Rightarrow> unit result \<times> cred" where
  "cred_capset eff perm inh c =
     (if perm AND NOT (cap_permitted c) \<noteq> 0 then (Inl EPERM, c)
      else if eff AND NOT perm \<noteq> 0 then (Inl EPERM, c)
      else if inh AND NOT (cap_inheritable c OR cap_permitted c) \<noteq> 0 then (Inl EPERM, c)
      else (Inr (), c\<lparr>cap_permitted := perm, cap_effective := eff, cap_inheritable := inh,
                      cap_ambient := cap_ambient c AND (perm AND inh)\<rparr>))"

definition cred_has_cap :: "ns_state \<Rightarrow> cred option \<Rightarrow> int \<Rightarrow> bool" where
  "cred_has_cap st co cap = ns_capable_cred st co 0 cap"

definition cred_has_cap_effective :: "cred option \<Rightarrow> int \<Rightarrow> bool" where
  "cred_has_cap_effective co cap =
     (case co of
        None \<Rightarrow> False
      | Some c \<Rightarrow> if cap < 0 \<or> cap > CAP_LAST then False else has_cap (cap_effective c) cap)"

section \<open>The credential options of prctl\<close>

text \<open>
  The options of \<open>prctl(2)\<close> that write a credential, on a credential that is
  there. Arguments are the 64-bit registers; \<open>int_arg\<close> is the cast to \<open>int\<close>.
\<close>

abbreviation (input) SECURE_KEEP_CAPS_LOCKED :: nat where "SECURE_KEEP_CAPS_LOCKED \<equiv> 5"

definition int_arg :: "u64 \<Rightarrow> int" where "int_arg a = sint (ucast a :: u32)"

definition prctl_set_keepcaps :: "u64 \<Rightarrow> cred \<Rightarrow> unit result \<times> cred" where
  "prctl_set_keepcaps arg1 c =
     (if arg1 > 1 then (Inl EINVAL, c)
      else if secbit c SECURE_KEEP_CAPS_LOCKED then (Inl EPERM, c)
      else if arg1 \<noteq> 0 then (Inr (), c\<lparr>c_securebits := c_securebits c OR SECBIT SECURE_KEEP_CAPS\<rparr>)
      else (Inr (), c\<lparr>c_securebits := c_securebits c AND NOT (SECBIT SECURE_KEEP_CAPS)\<rparr>))"

definition prctl_capbset_drop :: "ns_state \<Rightarrow> u64 \<Rightarrow> cred \<Rightarrow> unit result \<times> cred" where
  "prctl_capbset_drop st arg1 c =
     (if int_arg arg1 < 0 \<or> int_arg arg1 > CAP_LAST then (Inl EINVAL, c)
      else if \<not> ns_capable_cred st (Some c) (c_user_ns c) CAP_SETPCAP then (Inl EPERM, c)
      else let bounding = cap_bounding c AND NOT (push_bit (nat (int_arg arg1)) 1)
        in (Inr (), c\<lparr>cap_bounding := bounding, cap_inheritable := cap_inheritable c AND bounding\<rparr>))"

definition prctl_cap_ambient :: "u64 \<Rightarrow> u64 \<Rightarrow> u64 \<Rightarrow> u64 \<Rightarrow> cred \<Rightarrow> bool result \<times> cred" where
  "prctl_cap_ambient arg1 arg2 arg3 arg4 c =
     (let cmd = (ucast arg1 :: u32); n = int_arg arg2; b = push_bit (nat n) 1 in
      if cmd = 4 then
        if arg2 \<noteq> 0 \<or> arg3 \<noteq> 0 \<or> arg4 \<noteq> 0 then (Inl EINVAL, c)
        else (Inr False, c\<lparr>cap_ambient := 0\<rparr>)
      else if n < 0 \<or> n > CAP_LAST \<or> arg3 \<noteq> 0 \<or> arg4 \<noteq> 0 then (Inl EINVAL, c)
      else if cmd = 1 then (Inr (cap_ambient c AND b \<noteq> 0), c)
      else if cmd = 2 then
        if cap_permitted c AND b = 0 \<or> cap_inheritable c AND b = 0 then (Inl EPERM, c)
        else if secbit c SECURE_NO_CAP_AMBIENT_RAISE then (Inl EPERM, c)
        else (Inr False, c\<lparr>cap_ambient := cap_ambient c OR b\<rparr>)
      else if cmd = 3 then (Inr False, c\<lparr>cap_ambient := cap_ambient c AND NOT b\<rparr>)
      else (Inl EINVAL, c))"

section \<open>Sequences of calls\<close>

datatype cred_call =
    Setuid u32 | Setgid u32 | Setreuid u32 u32 | Setregid u32 u32
  | Setresuid u32 u32 u32 | Setresgid u32 u32 u32 | Setfsuid u32 | Setfsgid u32
  | Capset u64 u64 u64 | SetSecurebits u32 | SetKeepcaps u64 | CapbsetDrop u64
  | CapAmbient u64 u64 u64 u64

fun cred_call_run :: "ns_state \<Rightarrow> cred_call \<Rightarrow> cred \<Rightarrow> cred" where
  "cred_call_run st (Setuid u) c = snd (cred_set_uid st u c)"
| "cred_call_run st (Setgid g) c = snd (cred_set_gid st g c)"
| "cred_call_run st (Setreuid r e) c = snd (cred_setreuid st r e c)"
| "cred_call_run st (Setregid r e) c = snd (cred_setregid st r e c)"
| "cred_call_run st (Setresuid r e s) c = snd (cred_setresuid st r e s c)"
| "cred_call_run st (Setresgid r e s) c = snd (cred_setresgid st r e s c)"
| "cred_call_run st (Setfsuid u) c = snd (cred_set_fsuid st u c)"
| "cred_call_run st (Setfsgid g) c = snd (cred_set_fsgid st g c)"
| "cred_call_run st (Capset e p i) c = snd (cred_capset e p i c)"
| "cred_call_run st (SetSecurebits b) c = snd (cred_set_securebits st b c)"
| "cred_call_run st (SetKeepcaps a) c = snd (prctl_set_keepcaps a c)"
| "cred_call_run st (CapbsetDrop a) c = snd (prctl_capbset_drop st a c)"
| "cred_call_run st (CapAmbient a b d e) c = snd (prctl_cap_ambient a b d e c)"

definition cred_calls_run :: "ns_state \<Rightarrow> cred_call list \<Rightarrow> cred \<Rightarrow> cred" where
  "cred_calls_run st = fold (cred_call_run st)"

lemma cred_calls_run_inv:
  assumes "\<And>call c. P c \<Longrightarrow> P (cred_call_run st call c)"
  shows "P c \<Longrightarrow> P (cred_calls_run st calls c)"
  by (induction calls arbitrary: c) (auto simp: cred_calls_run_def assms)

section \<open>Capability sets as sets\<close>

lemma has_cap_bit: "has_cap caps cap \<longleftrightarrow> bit caps (nat cap)"
  by (simp add: has_cap_def push_bit_of_1 and_exp_eq_0_iff_not_bit)

definition caps_le :: "u64 \<Rightarrow> u64 \<Rightarrow> bool" where
  "caps_le a b \<longleftrightarrow> a AND NOT b = 0"

lemma caps_le_iff: "caps_le a b \<longleftrightarrow> (\<forall>n. bit a n \<longrightarrow> bit b n)"
  by (simp add: caps_le_def and_not_0_iff)

definition caps_wf :: "cred \<Rightarrow> bool" where
  "caps_wf c \<longleftrightarrow> caps_le (cap_effective c) (cap_permitted c)
     \<and> caps_le (cap_ambient c) (cap_permitted c)"

text \<open>What no call does: raise a capability set beyond what was permitted or effective.\<close>

definition caps_fall :: "cred \<Rightarrow> cred \<Rightarrow> bool" where
  "caps_fall c c' \<longleftrightarrow> caps_le (cap_permitted c') (cap_permitted c)
     \<and> caps_le (cap_effective c') (cap_effective c OR cap_permitted c)
     \<and> caps_le (cap_bounding c') (cap_bounding c) \<and> c_user_ns c' = c_user_ns c"

lemma fixup_setuid_ids [simp]:
  "c_uid (cred_fixup_setuid st r e s c) = c_uid c" "c_euid (cred_fixup_setuid st r e s c) = c_euid c"
  "c_suid (cred_fixup_setuid st r e s c) = c_suid c" "c_fsuid (cred_fixup_setuid st r e s c) = c_fsuid c"
  "c_gid (cred_fixup_setuid st r e s c) = c_gid c" "c_egid (cred_fixup_setuid st r e s c) = c_egid c"
  "c_sgid (cred_fixup_setuid st r e s c) = c_sgid c" "c_user_ns (cred_fixup_setuid st r e s c) = c_user_ns c"
  "c_securebits (cred_fixup_setuid st r e s c) = c_securebits c"
  by (simp_all add: cred_fixup_setuid_def Let_def)

lemma sync_fsids_ids [simp]:
  "c_uid (cred_sync_fsids st c) = c_uid c" "c_euid (cred_sync_fsids st c) = c_euid c"
  "c_suid (cred_sync_fsids st c) = c_suid c" "c_fsuid (cred_sync_fsids st c) = c_euid c"
  "c_gid (cred_sync_fsids st c) = c_gid c" "c_egid (cred_sync_fsids st c) = c_egid c"
  "c_sgid (cred_sync_fsids st c) = c_sgid c" "c_user_ns (cred_sync_fsids st c) = c_user_ns c"
  "c_securebits (cred_sync_fsids st c) = c_securebits c"
  by (simp_all add: cred_sync_fsids_def cred_fixup_fsuid_def Let_def)

lemma cap_ambient_sync: "cap_ambient (cred_sync_fsids st c) = cap_ambient c"
  by (simp add: cred_sync_fsids_def cred_fixup_fsuid_def Let_def)

lemma fixup_fsuid_ids [simp]:
  "c_uid (cred_fixup_fsuid st f c) = c_uid c" "c_euid (cred_fixup_fsuid st f c) = c_euid c"
  "c_suid (cred_fixup_fsuid st f c) = c_suid c" "c_fsuid (cred_fixup_fsuid st f c) = c_fsuid c"
  "c_user_ns (cred_fixup_fsuid st f c) = c_user_ns c" "c_securebits (cred_fixup_fsuid st f c) = c_securebits c"
  by (simp_all add: cred_fixup_fsuid_def Let_def)

lemma caps_fall_refl [simp]: "caps_fall c c"
  by (auto simp: caps_fall_def caps_le_iff bit_simps)

lemma caps_fall_trans: "caps_fall a b \<Longrightarrow> caps_fall b c \<Longrightarrow> caps_fall a c"
  by (auto simp: caps_fall_def caps_le_iff bit_simps)

lemma caps_fall_fixup_setuid: "caps_fall c (cred_fixup_setuid st r e s c)"
  by (auto simp: cred_fixup_setuid_def Let_def caps_fall_def caps_le_iff bit_simps)

lemma caps_fall_fixup_fsuid: "caps_fall c (cred_fixup_fsuid st f c)"
  by (auto simp: cred_fixup_fsuid_def Let_def caps_fall_def caps_le_iff bit_simps)

lemma caps_fall_ids:
  assumes "caps_fall d e" "cap_permitted d = cap_permitted c" "cap_effective d = cap_effective c"
    "cap_bounding d = cap_bounding c" "c_user_ns d = c_user_ns c"
  shows "caps_fall c e"
  using assms by (simp add: caps_fall_def)

lemma caps_fall_sync: "caps_fall c (cred_sync_fsids st c)"
  unfolding cred_sync_fsids_def
  by (rule caps_fall_ids [OF caps_fall_fixup_fsuid]) simp_all

lemmas caps_fall_set = caps_fall_trans [OF caps_fall_fixup_setuid caps_fall_sync]

lemma caps_fall_if: "caps_fall c x \<Longrightarrow> caps_fall c y \<Longrightarrow> caps_fall c (if b then x else y)"
  by simp

lemmas cred_ops_def = cred_set_uid_def cred_set_gid_def cred_setreuid_def cred_setregid_def
  cred_setresuid_def cred_setresgid_def cred_set_fsuid_def cred_set_fsgid_def

lemmas prctl_defs = prctl_set_keepcaps_def prctl_capbset_drop_def prctl_cap_ambient_def

lemmas snd_branch = if_distrib [of snd] snd_conv

lemma bit_cap [simp]: "bit (push_bit k 1 :: u64) n \<longleftrightarrow> n = k \<and> n < 64"
  by (auto simp: bit_push_bit_iff bit_1_iff simp del: push_bit_of_1)

lemma and_cap_0_iff: "x AND push_bit k 1 = 0 \<longleftrightarrow> \<not> bit x k" for x :: u64
  by (simp add: push_bit_of_1 and_exp_eq_0_iff_not_bit)

lemma cred_call_run_caps_fall: "caps_fall c (cred_call_run st call c)"
proof (cases call)
  case (Capset e p i)
  then show ?thesis
    by (auto simp: cred_capset_def caps_fall_def caps_le_iff bit_simps and_not_0_iff split: if_splits)
next
  case (SetSecurebits b)
  then show ?thesis
    by (simp add: cred_set_securebits_def Let_def snd_branch caps_fall_ids [OF caps_fall_refl])
next
  case (SetKeepcaps a)
  then show ?thesis
    by (simp add: prctl_set_keepcaps_def snd_branch caps_fall_ids [OF caps_fall_refl])
next
  case (CapbsetDrop a)
  then show ?thesis
    by (auto simp: prctl_capbset_drop_def Let_def caps_fall_def caps_le_iff bit_simps)
next
  case (CapAmbient a b d e)
  then show ?thesis
    by (simp add: prctl_cap_ambient_def Let_def snd_branch caps_fall_ids [OF caps_fall_refl])
qed (simp only: cred_call_run.simps cred_ops_def Let_def snd_branch,
     intro caps_fall_if caps_fall_refl caps_fall_ids [OF caps_fall_set] caps_fall_ids [OF caps_fall_sync]
       caps_fall_ids [OF caps_fall_fixup_fsuid] caps_fall_ids [OF caps_fall_refl]; simp)+

lemma caps_wf_fixup_setuid: "caps_wf c \<Longrightarrow> caps_wf (cred_fixup_setuid st r e s c)"
  by (auto simp: cred_fixup_setuid_def Let_def caps_wf_def caps_le_iff bit_simps)

lemma caps_wf_fixup_fsuid: "caps_wf c \<Longrightarrow> caps_wf (cred_fixup_fsuid st f c)"
  by (auto simp: cred_fixup_fsuid_def Let_def caps_wf_def caps_le_iff bit_simps)

lemma caps_wf_ids [simp]:
  "caps_wf (c\<lparr>c_uid := x\<rparr>) = caps_wf c" "caps_wf (c\<lparr>c_euid := x\<rparr>) = caps_wf c"
  "caps_wf (c\<lparr>c_suid := x\<rparr>) = caps_wf c" "caps_wf (c\<lparr>c_gid := x\<rparr>) = caps_wf c"
  "caps_wf (c\<lparr>c_egid := x\<rparr>) = caps_wf c" "caps_wf (c\<lparr>c_sgid := x\<rparr>) = caps_wf c"
  "caps_wf (c\<lparr>c_fsuid := x\<rparr>) = caps_wf c" "caps_wf (c\<lparr>c_fsgid := x\<rparr>) = caps_wf c"
  "caps_wf (c\<lparr>c_securebits := b\<rparr>) = caps_wf c"
  by (simp_all add: caps_wf_def)

lemma caps_wf_sync: "caps_wf c \<Longrightarrow> caps_wf (cred_sync_fsids st c)"
  unfolding cred_sync_fsids_def by (rule caps_wf_fixup_fsuid) simp

lemma caps_wf_if: "caps_wf x \<Longrightarrow> caps_wf y \<Longrightarrow> caps_wf (if b then x else y)"
  by simp

lemma cred_call_run_caps_wf: "caps_wf c \<Longrightarrow> caps_wf (cred_call_run st call c)"
proof (cases call)
  case (Capset e p i)
  then show "caps_wf c \<Longrightarrow> caps_wf (cred_call_run st call c)"
    by (auto simp: cred_capset_def caps_wf_def caps_le_iff bit_simps and_not_0_iff split: if_splits)
next
  case (SetSecurebits b)
  then show "caps_wf c \<Longrightarrow> caps_wf (cred_call_run st call c)"
    by (simp add: cred_set_securebits_def Let_def snd_branch)
next
  case (SetKeepcaps a)
  then show "caps_wf c \<Longrightarrow> caps_wf (cred_call_run st call c)"
    by (simp add: prctl_set_keepcaps_def snd_branch)
next
  case (CapbsetDrop a)
  then show "caps_wf c \<Longrightarrow> caps_wf (cred_call_run st call c)"
    by (simp add: prctl_capbset_drop_def Let_def snd_branch caps_wf_def)
next
  case (CapAmbient a b d e)
  then show "caps_wf c \<Longrightarrow> caps_wf (cred_call_run st call c)"
    by (auto simp: prctl_cap_ambient_def Let_def caps_wf_def caps_le_iff and_cap_0_iff bit_or_iff bit_and_iff
      simp del: push_bit_of_1)
qed (simp only: cred_call_run.simps cred_ops_def Let_def snd_branch,
     intro caps_wf_if caps_wf_sync caps_wf_fixup_setuid caps_wf_fixup_fsuid; simp)+

text \<open>
  Dropping a capability from the bounding set takes it out of the inheritable
  set and leaves it ambient; every other call keeps the ambient set within
  the inheritable set.
\<close>

definition ambient_wf :: "cred \<Rightarrow> bool" where
  "ambient_wf c \<longleftrightarrow> caps_le (cap_ambient c) (cap_inheritable c)"

lemma ambient_wf_fixup_setuid: "ambient_wf c \<Longrightarrow> ambient_wf (cred_fixup_setuid st r e s c)"
  by (auto simp: cred_fixup_setuid_def Let_def ambient_wf_def caps_le_def)

lemma ambient_wf_fixup_fsuid: "ambient_wf c \<Longrightarrow> ambient_wf (cred_fixup_fsuid st f c)"
  by (auto simp: cred_fixup_fsuid_def Let_def ambient_wf_def)

lemma ambient_wf_ids [simp]:
  "ambient_wf (c\<lparr>c_uid := x\<rparr>) = ambient_wf c" "ambient_wf (c\<lparr>c_euid := x\<rparr>) = ambient_wf c"
  "ambient_wf (c\<lparr>c_suid := x\<rparr>) = ambient_wf c" "ambient_wf (c\<lparr>c_gid := x\<rparr>) = ambient_wf c"
  "ambient_wf (c\<lparr>c_egid := x\<rparr>) = ambient_wf c" "ambient_wf (c\<lparr>c_sgid := x\<rparr>) = ambient_wf c"
  "ambient_wf (c\<lparr>c_fsuid := x\<rparr>) = ambient_wf c" "ambient_wf (c\<lparr>c_fsgid := x\<rparr>) = ambient_wf c"
  "ambient_wf (c\<lparr>c_securebits := b\<rparr>) = ambient_wf c"
  by (simp_all add: ambient_wf_def)

lemma ambient_wf_sync: "ambient_wf c \<Longrightarrow> ambient_wf (cred_sync_fsids st c)"
  unfolding cred_sync_fsids_def by (rule ambient_wf_fixup_fsuid) simp

lemma ambient_wf_if: "ambient_wf x \<Longrightarrow> ambient_wf y \<Longrightarrow> ambient_wf (if b then x else y)"
  by simp

lemma cred_call_run_ambient_wf:
  "(\<And>a. call \<noteq> CapbsetDrop a) \<Longrightarrow> ambient_wf c \<Longrightarrow> ambient_wf (cred_call_run st call c)"
proof (cases call)
  case (CapbsetDrop a)
  then show "(\<And>a. call \<noteq> CapbsetDrop a) \<Longrightarrow> ambient_wf (cred_call_run st call c)" by blast
next
  case (Capset e p i)
  then show "ambient_wf c \<Longrightarrow> ambient_wf (cred_call_run st call c)"
    by (auto simp: cred_capset_def ambient_wf_def caps_le_iff bit_simps)
next
  case (SetSecurebits b)
  then show "ambient_wf c \<Longrightarrow> ambient_wf (cred_call_run st call c)"
    by (simp add: cred_set_securebits_def Let_def snd_branch)
next
  case (SetKeepcaps a)
  then show "ambient_wf c \<Longrightarrow> ambient_wf (cred_call_run st call c)"
    by (simp add: prctl_set_keepcaps_def snd_branch)
next
  case (CapAmbient a b d e)
  then show "ambient_wf c \<Longrightarrow> ambient_wf (cred_call_run st call c)"
    by (auto simp: prctl_cap_ambient_def Let_def ambient_wf_def caps_le_iff and_cap_0_iff bit_or_iff bit_and_iff
      simp del: push_bit_of_1)
qed (simp only: cred_call_run.simps cred_ops_def Let_def snd_branch,
     intro ambient_wf_if ambient_wf_sync ambient_wf_fixup_setuid ambient_wf_fixup_fsuid; simp)+

lemma cred_calls_run_ambient_wf:
  "(\<And>a. CapbsetDrop a \<notin> set calls) \<Longrightarrow> ambient_wf c \<Longrightarrow> ambient_wf (cred_calls_run st calls c)"
proof (induction calls arbitrary: c)
  case (Cons call calls)
  have "ambient_wf (cred_call_run st call c)"
    by (rule cred_call_run_ambient_wf) (use Cons.prems in auto)
  with Cons.IH [of "cred_call_run st call c"] Cons.prems(1) show ?case by (simp add: cred_calls_run_def)
qed (simp add: cred_calls_run_def)

lemma exec_setid_caps [simp]:
  "cap_permitted (exec_setid st m u g h c) = cap_permitted c"
  "cap_ambient (exec_setid st m u g h c) = cap_ambient c"
  "cap_inheritable (exec_setid st m u g h c) = cap_inheritable c"
  "cap_bounding (exec_setid st m u g h c) = cap_bounding c"
  "c_uid (exec_setid st m u g h c) = c_uid c" "c_gid (exec_setid st m u g h c) = c_gid c"
  "c_user_ns (exec_setid st m u g h c) = c_user_ns c"
  by (simp_all add: exec_setid_def Let_def)

lemma cred_exec_caps_wf: "caps_wf c \<Longrightarrow> caps_wf (snd (cred_exec_transform st m u g h c))"
  unfolding cred_exec_transform_def Let_def snd_conv caps_wf_def caps_le_iff
  by (auto simp: bit_simps)

lemma cred_exec_ambient_wf: "ambient_wf c \<Longrightarrow> ambient_wf (snd (cred_exec_transform st m u g h c))"
  by (simp add: cred_exec_transform_def Let_def ambient_wf_def caps_le_def)

text \<open>Without CAP_SETUID the uid calls only move ids the credential already has.\<close>

definition no_setuid :: "cred \<Rightarrow> bool" where
  "no_setuid c \<longleftrightarrow> c_user_ns c < NS_MAX_USER \<and> \<not> has_cap (cap_permitted c) CAP_SETUID
     \<and> \<not> has_cap (cap_effective c) CAP_SETUID"

definition uids_in :: "u32 set \<Rightarrow> cred \<Rightarrow> bool" where
  "uids_in S c \<longleftrightarrow> {c_uid c, c_euid c, c_suid c, c_fsuid c} \<subseteq> S"

lemma no_setuid_priv: "no_setuid c \<Longrightarrow> \<not> priv_setuid st c"
  by (simp add: no_setuid_def priv_setuid_def userns_caps.own_ns)

lemma no_setuid_call: "no_setuid c \<Longrightarrow> no_setuid (cred_call_run st call c)"
  using cred_call_run_caps_fall [of c st call]
  by (auto simp: no_setuid_def caps_fall_def caps_le_iff has_cap_bit bit_simps)

lemma uids_in_call:
  assumes "no_setuid c" "uids_in S c"
  shows "uids_in S (cred_call_run st call c)"
proof (cases call)
  case (SetSecurebits b)
  then show ?thesis using assms(2) by (auto simp: cred_set_securebits_def uids_in_def Let_def)
next
  case (Capset e p i)
  then show ?thesis using assms(2) by (auto simp: cred_capset_def uids_in_def)
next
  case (SetKeepcaps a)
  then show ?thesis using assms(2) by (auto simp: prctl_set_keepcaps_def uids_in_def)
next
  case (CapbsetDrop a)
  then show ?thesis using assms(2) by (auto simp: prctl_capbset_drop_def uids_in_def Let_def)
next
  case (CapAmbient a b d e)
  then show ?thesis using assms(2) by (auto simp: prctl_cap_ambient_def uids_in_def Let_def)
qed (use assms(2) no_setuid_priv [OF assms(1), of st] in
    \<open>auto simp: cred_set_uid_def cred_set_gid_def cred_setreuid_def cred_setregid_def cred_setresuid_def
      cred_setresgid_def cred_set_fsuid_def cred_set_fsgid_def own_uid_def uids_in_def Let_def\<close>)

text \<open>A lock bit and the flag below it, in the securebits of a credential.\<close>

definition locked :: "nat \<Rightarrow> cred \<Rightarrow> bool" where
  "locked n c \<longleftrightarrow> n \<in> {0, 2, 4, 6} \<and> bit (c_securebits c) (Suc n)"

lemma secbit_iff: "secbit c n \<longleftrightarrow> bit (c_securebits c) n"
  by (simp add: secbit_def SECBIT_def push_bit_of_1 and_exp_eq_0_iff_not_bit)

lemma keepcaps_bits:
  assumes "n \<noteq> 4 \<or> bit (c_securebits c) 5"
  shows "bit (c_securebits (snd (prctl_set_keepcaps a c))) n = bit (c_securebits c) n"
proof -
  have "bit (SECBIT SECURE_KEEP_CAPS) n \<longleftrightarrow> n = 4"
    by (auto simp: SECBIT_def bit_push_bit_iff bit_1_iff simp del: push_bit_of_1)
  then show ?thesis
    using assms secbit_iff [of c 5] bit_imp_le_length [of "c_securebits c" n]
    by (auto simp: prctl_set_keepcaps_def bit_or_iff bit_and_iff bit_not_iff)
qed

lemma secure_all_bits: "bit SECURE_ALL_BITS n \<longleftrightarrow> n \<in> {0, 2, 4, 6}"
proof -
  have 1: "bit (push_bit k 1 :: u32) n \<longleftrightarrow> n = k \<and> n < 32" for k
    by (auto simp: bit_push_bit_iff bit_1_iff simp del: push_bit_of_1)
  show ?thesis unfolding SECURE_ALL_BITS_def SECBIT_def bit_or_iff 1 by auto
qed

lemma secure_all_locks: "bit SECURE_ALL_LOCKS (Suc n) \<longleftrightarrow> n \<in> {0, 2, 4, 6}"
  using secure_all_bits [of n] by (auto simp: SECURE_ALL_LOCKS_def bit_push_bit_iff simp del: push_bit_Suc)

lemma cred_call_run_locked:
  assumes "locked n c"
  shows "locked n (cred_call_run st call c)
    \<and> bit (c_securebits (cred_call_run st call c)) n = bit (c_securebits c) n"
proof (cases call)
  case (SetSecurebits b)
  show ?thesis
  proof (cases "cred_set_securebits st b c")
    case (Pair r c')
    have n: "n < 32" "Suc n < 32" using assms by (auto simp: locked_def)
    show ?thesis
    proof (cases r)
      case (Inl e)
      then have "c' = c" using Pair by (auto simp: cred_set_securebits_def Let_def split: if_splits)
      then show ?thesis using SetSecurebits Pair assms by simp
    next
      case (Inr u)
      then have "c' = c\<lparr>c_securebits := b\<rparr>" and keep: "(c_securebits c AND SECURE_ALL_LOCKS) AND NOT b = 0"
        and same: "((c_securebits c XOR b) AND SECURE_ALL_BITS) AND drop_bit 1 (c_securebits c) AND SECURE_ALL_BITS = 0"
        using Pair by (auto simp: cred_set_securebits_def Let_def split: if_splits)
      moreover have "bit b (Suc n)"
        using keep assms secure_all_locks [of n] by (auto simp: and_not_0_iff locked_def bit_and_iff)
      moreover have "bit b n = bit (c_securebits c) n"
      proof -
        have "\<not> bit (((c_securebits c XOR b) AND SECURE_ALL_BITS) AND drop_bit 1 (c_securebits c) AND SECURE_ALL_BITS) n"
          unfolding same by simp
        then show ?thesis using assms secure_all_bits [of n] by (auto simp: locked_def bit_simps)
      qed
      ultimately show ?thesis using SetSecurebits Pair assms by (simp add: locked_def)
    qed
  qed
next
  case (SetKeepcaps a)
  have "n \<noteq> 4 \<or> bit (c_securebits c) 5" "Suc n \<noteq> 4" using assms by (auto simp: locked_def)
  then show ?thesis
    using assms SetKeepcaps keepcaps_bits [of n c a] keepcaps_bits [of "Suc n" c a] by (simp add: locked_def)
next
  case (CapbsetDrop a)
  then show ?thesis using assms by (simp add: locked_def prctl_capbset_drop_def Let_def)
next
  case (CapAmbient a b d e)
  then show ?thesis using assms by (simp add: locked_def prctl_cap_ambient_def Let_def)
qed (use assms in \<open>auto simp: locked_def cred_set_uid_def cred_set_gid_def cred_setreuid_def cred_setregid_def
    cred_setresuid_def cred_setresgid_def cred_set_fsuid_def cred_set_fsgid_def cred_capset_def Let_def\<close>)
lemma cred_fixup_setuid_drops:
  assumes "\<not> secbit c SECURE_NO_SETUID_FIXUP" "\<not> secbit c SECURE_KEEP_CAPS"
    "cred_root_kuid st c \<in> {r, e, s}" "cred_root_kuid st c \<notin> {c_uid c, c_euid c, c_suid c}"
  shows "cap_permitted (cred_fixup_setuid st r e s c) = 0 \<and> cap_effective (cred_fixup_setuid st r e s c) = 0
    \<and> cap_ambient (cred_fixup_setuid st r e s c) = 0"
  using assms by (auto simp: cred_fixup_setuid_def Let_def)

lemma caps_fall_empty:
  "caps_fall c d \<Longrightarrow> cap_permitted c = 0 \<and> cap_effective c = 0 \<Longrightarrow> cap_permitted d = 0 \<and> cap_effective d = 0"
  by (simp add: caps_fall_def caps_le_def)

section \<open>Properties\<close>

text \<open>
  C7. A task with CAP_SETUID neither permitted nor effective can never reach
  another uid: after any sequence of set-id, set-fsid, capset and \<open>prctl\<close>
  calls its real, effective, saved and filesystem uids are among the four it
  started with, and its permitted set has only shrunk.
\<close>

theorem cred_calls_confined:
  assumes "c_user_ns c < NS_MAX_USER" "\<not> has_cap (cap_permitted c) CAP_SETUID"
    "\<not> has_cap (cap_effective c) CAP_SETUID"
  shows "{c_uid (cred_calls_run st calls c), c_euid (cred_calls_run st calls c),
      c_suid (cred_calls_run st calls c), c_fsuid (cred_calls_run st calls c)}
      \<subseteq> {c_uid c, c_euid c, c_suid c, c_fsuid c}
    \<and> caps_le (cap_permitted (cred_calls_run st calls c)) (cap_permitted c)"
proof -
  have "no_setuid c \<and> uids_in {c_uid c, c_euid c, c_suid c, c_fsuid c} c \<and> caps_fall c c"
    using assms by (simp add: no_setuid_def uids_in_def)
  then have "no_setuid (cred_calls_run st calls c)
      \<and> uids_in {c_uid c, c_euid c, c_suid c, c_fsuid c} (cred_calls_run st calls c)
      \<and> caps_fall c (cred_calls_run st calls c)"
    by (rule cred_calls_run_inv [rotated])
       (use no_setuid_call uids_in_call cred_call_run_caps_fall caps_fall_trans in blast)
  then show ?thesis by (simp add: uids_in_def caps_fall_def)
qed

definition example_user :: cred where
  "example_user = cred_default\<lparr>c_uid := 1000, c_euid := 1000, c_suid := 1000, c_fsuid := 1000,
     cap_effective := 0, cap_permitted := 0\<rparr>"

theorem cred_calls_confined_witness:
  "c_uid (cred_calls_run userns_boot [Setuid 0, Setresuid 0 0 0, Setfsuid 0] example_user) = 1000"
  using cred_calls_confined [of example_user userns_boot "[Setuid 0, Setresuid 0 0 0, Setfsuid 0]"]
  by (simp add: example_user_def cred_default_def has_cap_def NS_MAX_USER_def)

text \<open>
  C8. Leaving the root uid with \<open>setuid(u)\<close> is final for the user ids and
  the capabilities: take a task one of whose real, effective and saved uids is
  the root of its namespace, which has CAP_SETUID there and has set neither
  the KEEP_CAPS nor the NO_SETUID_FIXUP securebit, and let it call
  \<open>setuid(u)\<close> for another uid. After any further set-id, set-fsid, capset and
  \<open>prctl\<close> calls its four uids are all \<open>u\<close>, its permitted, effective and
  ambient sets are empty, and it holds no capability in its own namespace.
  (Group ids are not part of the statement, and neither is \<open>execve\<close>, where a
  set-uid file changes the effective uid.)
\<close>

theorem cred_leave_root_final:
  assumes "c_user_ns c < NS_MAX_USER" "\<not> secbit c SECURE_KEEP_CAPS" "\<not> secbit c SECURE_NO_SETUID_FIXUP"
    "priv_setuid st c" "cred_root_kuid st c \<in> {c_uid c, c_euid c, c_suid c}" "u \<noteq> cred_root_kuid st c"
    "d = cred_calls_run st calls (snd (cred_set_uid st u c))"
  shows "c_uid d = u \<and> c_euid d = u \<and> c_suid d = u \<and> c_fsuid d = u \<and> cap_permitted d = 0
    \<and> cap_effective d = 0 \<and> cap_ambient d = 0 \<and> (\<forall>cap. \<not> ns_capable_cred st (Some d) (c_user_ns d) cap)"
proof -
  define c1 where "c1 = snd (cred_set_uid st u c)"
  let ?c0 = "c\<lparr>c_uid := u, c_suid := u, c_euid := u\<rparr>"
  have c1: "c1 = cred_sync_fsids st (cred_fixup_setuid st (c_uid c) (c_euid c) (c_suid c) ?c0)"
    using assms(4) by (simp add: c1_def cred_set_uid_def Let_def)
  have root: "cred_root_kuid st ?c0 = cred_root_kuid st c" by (simp add: cred_root_kuid_def)
  have drops: "cap_permitted d = 0 \<and> cap_effective d = 0 \<and> cap_ambient d = 0"
    if "d = cred_fixup_setuid st (c_uid c) (c_euid c) (c_suid c) ?c0" for d
    unfolding that by (rule cred_fixup_setuid_drops) (use assms(2,3,5,6) root in \<open>auto simp: secbit_def\<close>)
  have caps: "cap_permitted c1 = 0 \<and> cap_effective c1 = 0"
    unfolding c1 using drops [OF refl] by (intro caps_fall_empty [OF caps_fall_sync]) blast
  have amb: "cap_ambient c1 = 0"
    unfolding c1 using drops [OF refl] by (simp add: cap_ambient_sync)
  have ns: "c_user_ns c1 = c_user_ns c" by (simp add: c1)
  have "uids_in {u} c1" by (simp add: c1 uids_in_def)
  then have "no_setuid c1 \<and> caps_wf c1 \<and> uids_in {u} c1 \<and> caps_fall c1 c1"
    using caps amb ns assms(1) by (simp add: no_setuid_def has_cap_def caps_wf_def caps_le_def)
  then have "no_setuid d \<and> caps_wf d \<and> uids_in {u} d \<and> caps_fall c1 d"
    unfolding assms(7) c1_def [symmetric]
    by (rule cred_calls_run_inv [rotated])
       (use no_setuid_call uids_in_call cred_call_run_caps_wf cred_call_run_caps_fall caps_fall_trans in blast)
  moreover from this have "cap_permitted d = 0 \<and> cap_effective d = 0"
    using caps caps_fall_empty by blast
  ultimately show ?thesis
    using userns_caps.powerless_in_own_ns [of d st] by (auto simp: uids_in_def no_setuid_def caps_wf_def caps_le_def)
qed

theorem cred_leave_root_final_witness:
  "c_euid (cred_calls_run userns_boot [Setuid 0, Setreuid 0 0] (snd (cred_set_uid userns_boot 1000 cred_default))) = 1000"
proof -
  have "priv_setuid userns_boot cred_default" by code_simp
  then show ?thesis
    using cred_leave_root_final [of cred_default userns_boot 1000, OF _ _ _ _ _ _ refl]
    by (simp add: cred_root_kuid_def make_kuid_def cred_default_def NS_MAX_USER_def secbit_def)
qed

text \<open>
  C9. The capability sets of a credential stay ordered through every
  credential call and every exec: starting from a credential whose effective
  set is within its permitted set and whose ambient capabilities are permitted
  and inheritable, the effective set and the ambient set stay within the
  permitted set, and as long as no call drops a capability from the bounding
  set the ambient set stays within the inheritable set too.
\<close>

theorem cred_caps_ordered:
  assumes "caps_le (cap_effective c) (cap_permitted c)"
    "caps_le (cap_ambient c) (cap_permitted c AND cap_inheritable c)"
    "d = cred_calls_run st after
           (snd (cred_exec_transform st mode kuid kgid honour (cred_calls_run st before c)))"
  shows "caps_le (cap_effective d) (cap_permitted d) \<and> caps_le (cap_ambient d) (cap_permitted d)
    \<and> ((\<forall>a. CapbsetDrop a \<notin> set (before @ after)) \<longrightarrow> caps_le (cap_ambient d) (cap_inheritable d))"
proof -
  have c: "caps_wf c" "ambient_wf c"
    using assms(1,2) by (auto simp: caps_wf_def ambient_wf_def caps_le_iff bit_simps)
  have "caps_wf d"
    unfolding assms(3)
    by (intro cred_calls_run_inv [where P = caps_wf] cred_exec_caps_wf cred_call_run_caps_wf c)
  moreover have "ambient_wf d" if "\<forall>a. CapbsetDrop a \<notin> set (before @ after)"
    unfolding assms(3)
    by (intro cred_calls_run_ambient_wf cred_exec_ambient_wf c) (use that in auto)
  ultimately show ?thesis by (auto simp: caps_wf_def ambient_wf_def)
qed

theorem cred_caps_ordered_witness:
  "caps_le (cap_effective (snd (cred_exec_transform userns_boot 0 0 0 True cred_default)))
     (cap_permitted (snd (cred_exec_transform userns_boot 0 0 0 True cred_default)))"
  using cred_caps_ordered [of cred_default _ userns_boot "[]" 0 0 0 True "[]", OF _ _ refl]
  by (simp add: cred_default_def caps_le_def cred_calls_run_def)

text \<open>
  The condition on the bounding set is needed: \<open>PR_CAPBSET_DROP\<close> leaves an
  ambient capability that is no longer inheritable, against the rule stated
  at \<open>PR_CAP_AMBIENT\<close> that it leaves the set as soon as it leaves either.
\<close>

lemma capbset_drop_keeps_ambient:
  "let c = cred_calls_run userns_boot [Capset CAP_FULL_SET CAP_FULL_SET 1, CapAmbient 2 0 0 0, CapbsetDrop 0]
         cred_default
   in cap_ambient c = 1 \<and> cap_inheritable c = 0"
  by code_simp

text \<open>
  C10. A securebits lock is for good: once the lock bit of a flag is set, no
  sequence of credential calls clears the lock or changes the flag.
\<close>

theorem cred_securebits_lock_final:
  assumes "n \<in> {SECURE_NOROOT, SECURE_NO_SETUID_FIXUP, SECURE_KEEP_CAPS, SECURE_NO_CAP_AMBIENT_RAISE}"
    "bit (c_securebits c) (Suc n)"
  shows "bit (c_securebits (cred_calls_run st calls c)) (Suc n)
    \<and> bit (c_securebits (cred_calls_run st calls c)) n = bit (c_securebits c) n"
proof -
  have "locked n c \<and> bit (c_securebits c) n = bit (c_securebits c) n" using assms by (simp add: locked_def)
  then have "locked n (cred_calls_run st calls c)
      \<and> bit (c_securebits (cred_calls_run st calls c)) n = bit (c_securebits c) n"
    by (rule cred_calls_run_inv [rotated]) (use cred_call_run_locked in blast)
  then show ?thesis by (simp add: locked_def)
qed

theorem cred_securebits_lock_final_witness:
  "bit (c_securebits (cred_calls_run userns_boot [SetSecurebits 0] (cred_default\<lparr>c_securebits := 3\<rparr>))) 0"
  using cred_securebits_lock_final [of 0 "cred_default\<lparr>c_securebits := 3\<rparr>" userns_boot "[SetSecurebits 0]"]
  by (simp add: bit_simps)

text \<open>
  A group call also moves the filesystem uid: \<open>setgid(2)\<close> calls
  \<open>cred_sync_fsids\<close>, which undoes an earlier \<open>setfsuid(2)\<close>.
\<close>

lemma cred_set_gid_resets_fsuid:
  "priv_setgid st c \<Longrightarrow> c_fsuid (snd (cred_set_gid st g (c\<lparr>c_fsuid := u\<rparr>))) = c_euid c"
  by (simp add: cred_set_gid_def priv_setgid_def Let_def userns_caps.same_answer [of "c\<lparr>c_fsuid := u\<rparr>" c])

end
