(* ===== verification/IpcPerm.thy ===== *)
theory IpcPerm
  imports UserNs
begin

text \<open>
  What every System V IPC object shares: the permission record of
  \<^verbatim>\<open>kernel/include/b1nix/shm.h\<close> and the rules of \<^verbatim>\<open>kernel/ipc/ipc_ns.c\<close>. The
  record \<open>ipc_ctx\<close> is what the code reads from its surroundings: the current
  credential, the current IPC namespace, the namespace tables, the clock and
  the caller's pid.
\<close>

record ipc_perm =
  ip_uid :: u32
  ip_gid :: u32
  ip_cuid :: u32
  ip_cgid :: u32
  ip_mode :: u16
  ip_seq :: u16
  ip_key :: u32

definition ipc_perm_zero :: ipc_perm where
  "ipc_perm_zero = \<lparr>ip_uid = 0, ip_gid = 0, ip_cuid = 0, ip_cgid = 0, ip_mode = 0, ip_seq = 0, ip_key = 0\<rparr>"

record ipc_ctx =
  x_cred :: "cred option"
  x_ipc_ns :: nat
  x_nss :: ns_state
  x_time :: u64
  x_pid :: u32

definition IPC_CREAT :: u32 where "IPC_CREAT = 0x1000"
definition IPC_EXCL :: u32 where "IPC_EXCL = 0x2000"
definition SYSV_MSG_NOERROR :: u32 where "SYSV_MSG_NOERROR = 0x1000"
definition SYSV_IPC_NOWAIT :: u32 where "SYSV_IPC_NOWAIT = 0x800"

definition cred_in_group :: "cred \<Rightarrow> u32 \<Rightarrow> bool" where
  "cred_in_group c kgid \<longleftrightarrow>
     c_egid c = kgid \<or> kgid \<in> set (take (min (nat (c_ngroups c)) MAX_GROUPS) (c_groups c))"

definition ipc_check_perm :: "ipc_ctx \<Rightarrow> ipc_perm \<Rightarrow> nat \<Rightarrow> u16 \<Rightarrow> unit result" where
  "ipc_check_perm x perm ns flag =
     (case x_cred x of
        None \<Rightarrow> Inr ()
      | Some c \<Rightarrow>
          let requested = drop_bit 6 flag OR drop_bit 3 flag OR flag;
              granted = (if c_euid c = ip_cuid perm \<or> c_euid c = ip_uid perm then drop_bit 6 (ip_mode perm)
                         else if cred_in_group c (ip_cgid perm) \<or> cred_in_group c (ip_gid perm)
                         then drop_bit 3 (ip_mode perm)
                         else ip_mode perm)
          in if requested AND NOT granted AND 7 \<noteq> 0
                \<and> \<not> ns_capable_cred (x_nss x) (Some c) (namespace_owner (x_nss x) NS_IPC ns) CAP_IPC_OWNER
             then Inl EACCES else Inr ())"

definition ipc_may_control :: "ipc_ctx \<Rightarrow> ipc_perm \<Rightarrow> nat \<Rightarrow> bool" where
  "ipc_may_control x perm ns =
     (case x_cred x of
        None \<Rightarrow> True
      | Some c \<Rightarrow>
          c_euid c = ip_cuid perm \<or> c_euid c = ip_uid perm
          \<or> ns_capable_cred (x_nss x) (Some c) (namespace_owner (x_nss x) NS_IPC ns) CAP_SYS_ADMIN)"

section \<open>The rule in terms of permission bits\<close>

text \<open>The permission class of a credential: the shift of its triplet in the mode.\<close>

definition ipc_class :: "cred \<Rightarrow> ipc_perm \<Rightarrow> nat" where
  "ipc_class c perm =
     (if c_euid c = ip_cuid perm \<or> c_euid c = ip_uid perm then 6
      else if cred_in_group c (ip_cgid perm) \<or> cred_in_group c (ip_gid perm) then 3 else 0)"

lemma masked_bits:
  fixes a g :: u16
  shows "a AND NOT g AND 7 = 0 \<longleftrightarrow> (\<forall>b<3. bit a b \<longrightarrow> bit g b)"
proof -
  have seven: "bit (7 :: u16) n \<longleftrightarrow> n < 3" for n
  proof -
    have "(7 :: u16) = mask 3" by (simp add: mask_eq_exp_minus_1)
    then show ?thesis by (simp only: bit_mask_iff) auto
  qed
  have lt: "b < 16" if "b < 3" for b :: nat using that by simp
  have "(\<forall>n. possible_bit TYPE(u16) n \<longrightarrow> \<not> (bit a n \<and> (possible_bit TYPE(u16) n \<and> \<not> bit g n) \<and> n < 3))
      \<longleftrightarrow> (\<forall>b<3. bit a b \<longrightarrow> bit g b)"
    by simp (use lt in blast)
  then show ?thesis by (simp only: bit_eq_iff bit_and_iff bit_not_iff seven bit_0_eq bot_apply bot_bool_def simp_thms)
qed

text \<open>
  C11. Permission on an IPC object is granted exactly when every read, write
  or execute bit asked for in any triplet of the flag is set in the triplet of
  the caller's class (owner or creator, member of either group, others), or
  the caller holds CAP_IPC_OWNER in the user namespace that owns the IPC
  namespace, or there is no caller credential.
\<close>

theorem ipc_check_perm_bits:
  "ipc_check_perm x perm ns flag = Inr () \<longleftrightarrow>
     (case x_cred x of
        None \<Rightarrow> True
      | Some c \<Rightarrow>
          (\<forall>b<3. bit flag b \<or> bit flag (b + 3) \<or> bit flag (b + 6) \<longrightarrow> bit (ip_mode perm) (b + ipc_class c perm))
          \<or> ns_capable_cred (x_nss x) (Some c) (namespace_owner (x_nss x) NS_IPC ns) CAP_IPC_OWNER)"
proof (cases "x_cred x")
  case None
  then show ?thesis by (simp add: ipc_check_perm_def)
next
  case (Some c)
  let ?req = "drop_bit 6 flag OR drop_bit 3 flag OR flag"
  have granted: "(if c_euid c = ip_cuid perm \<or> c_euid c = ip_uid perm then drop_bit 6 (ip_mode perm)
      else if cred_in_group c (ip_cgid perm) \<or> cred_in_group c (ip_gid perm) then drop_bit 3 (ip_mode perm)
      else ip_mode perm) = drop_bit (ipc_class c perm) (ip_mode perm)"
    by (simp add: ipc_class_def)
  have "?req AND NOT (drop_bit (ipc_class c perm) (ip_mode perm)) AND 7 = 0 \<longleftrightarrow>
      (\<forall>b<3. bit flag b \<or> bit flag (b + 3) \<or> bit flag (b + 6) \<longrightarrow> bit (ip_mode perm) (b + ipc_class c perm))"
    unfolding masked_bits by (auto simp: bit_or_iff bit_drop_bit_eq add.commute)
  then show ?thesis
    by (simp only: ipc_check_perm_def Some option.case Let_def granted) (auto split: if_splits)
qed

text \<open>The kernel's own context, in the first IPC namespace, used by the examples of the IPC theories.\<close>

definition example_ctx :: ipc_ctx where
  "example_ctx = \<lparr>x_cred = None, x_ipc_ns = 0, x_nss = userns_boot, x_time = 0, x_pid = 1\<rparr>"

definition example_stranger :: ipc_ctx where
  "example_stranger =
     example_ctx\<lparr>x_cred := Some (example_root\<lparr>c_euid := 1000, c_egid := 1000, cap_effective := 0\<rparr>)\<rparr>"

theorem ipc_check_perm_bits_witness:
  "ipc_check_perm example_stranger (ipc_perm_zero\<lparr>ip_mode := 0x184\<rparr>) 0 0x100 = Inr ()"
proof -
  have "bit (0x184 :: u16) b" if b: "b < 3" and f: "bit (0x100 :: u16) b \<or> bit (0x100 :: u16) (b + 3) \<or> bit (0x100 :: u16) (b + 6)" for b
  proof -
    consider "b = 0" | "b = 1" | "b = 2" using b by linarith
    then show ?thesis using f by cases simp_all
  qed
  moreover have "ipc_class (example_root\<lparr>c_euid := 1000, c_egid := 1000, cap_effective := 0\<rparr>)
      (ipc_perm_zero\<lparr>ip_mode := 0x184\<rparr>) = 0"
    by (simp add: ipc_class_def cred_in_group_def ipc_perm_zero_def example_root_def)
  ultimately show ?thesis
    unfolding ipc_check_perm_bits
    by (auto simp: example_stranger_def)
qed

end
