(* ===== verification/SysvMsg.thy ===== *)
theory SysvMsg
  imports IpcPerm "HOL-Library.Multiset" "HOL-Library.Product_Lexorder"
begin

text \<open>
  System V message queues: \<^verbatim>\<open>kernel/ipc/sysv_msg.c\<close>. A queue is a table of
  \<open>MSGTQL\<close> entries with arrival numbers; its abstract value is the list of
  typed messages in arrival order. The locale \<open>mailbox\<close> states what sending
  and receiving promise in terms of that list; the interpretation
  \<open>msgq\<close> discharges it for the table, and the properties follow for
  whole sequences of calls. Arrival numbers are kept as natural numbers: the
  code counts them in 64 bits from 0 in every new queue.
\<close>

definition MSGMNI :: nat where "MSGMNI = 16"
definition MSGMAX :: nat where "MSGMAX = 4096"
definition MSGTQL :: nat where "MSGTQL = 32"

record msg_entry =
  me_used :: bool
  me_type :: u64
  me_size :: nat
  me_seq :: nat
  me_text :: "u8 list"

record msg_queue =
  q_used :: bool
  q_key :: u32
  q_ns :: nat
  q_perm :: ipc_perm
  q_msgs :: "msg_entry table"
  q_next_seq :: nat
  q_qbytes :: u64
  q_cbytes :: u64
  q_stime :: u64
  q_rtime :: u64
  q_ctime :: u64
  q_lspid :: u32
  q_lrpid :: u32

record msg_state =
  g_queues :: "msg_queue table"
  g_seq :: u16

record sysv_msqid_info =
  mi_perm :: ipc_perm
  mi_stime :: u64
  mi_rtime :: u64
  mi_ctime :: u64
  mi_qnum :: nat
  mi_qbytes :: u64
  mi_cbytes :: u64
  mi_lspid :: u32
  mi_lrpid :: u32

definition msg_entry_zero :: msg_entry where
  "msg_entry_zero = \<lparr>me_used = False, me_type = 0, me_size = 0, me_seq = 0, me_text = []\<rparr>"

definition msg_queue_zero :: msg_queue where
  "msg_queue_zero = \<lparr>q_used = False, q_key = 0, q_ns = 0, q_perm = ipc_perm_zero,
     q_msgs = (\<lambda>_. msg_entry_zero), q_next_seq = 0, q_qbytes = 0, q_cbytes = 0, q_stime = 0,
     q_rtime = 0, q_ctime = 0, q_lspid = 0, q_lrpid = 0\<rparr>"

definition sysv_ipc_init :: "u16 \<Rightarrow> msg_state" where
  "sysv_ipc_init seq = \<lparr>g_queues = (\<lambda>_. msg_queue_zero), g_seq = seq\<rparr>"

definition set_queue :: "nat \<Rightarrow> msg_queue \<Rightarrow> msg_state \<Rightarrow> msg_state" where
  "set_queue i q st = st\<lparr>g_queues := (g_queues st)(i := q)\<rparr>"

definition msg_id_valid :: "ipc_ctx \<Rightarrow> int \<Rightarrow> msg_state \<Rightarrow> bool" where
  "msg_id_valid x msqid st \<longleftrightarrow>
     0 \<le> msqid \<and> msqid < int MSGMNI \<and> q_used (g_queues st (nat msqid))
     \<and> q_ns (g_queues st (nat msqid)) = x_ipc_ns x"

definition msg_access :: "ipc_ctx \<Rightarrow> nat \<Rightarrow> u16 \<Rightarrow> msg_state \<Rightarrow> bool" where
  "msg_access x i acc st \<longleftrightarrow>
     ipc_check_perm x (q_perm (g_queues st i)) (q_ns (g_queues st i)) acc = Inr ()"

definition msg_may_control :: "ipc_ctx \<Rightarrow> msg_queue \<Rightarrow> bool" where
  "msg_may_control x q = ipc_may_control x (q_perm q) (q_ns q)"

definition new_queue :: "ipc_ctx \<Rightarrow> u32 \<Rightarrow> u32 \<Rightarrow> u16 \<Rightarrow> msg_queue" where
  "new_queue x key msgflg seq =
     (let euid = (case x_cred x of None \<Rightarrow> 0 | Some c \<Rightarrow> c_euid c);
          egid = (case x_cred x of None \<Rightarrow> 0 | Some c \<Rightarrow> c_egid c)
      in msg_queue_zero\<lparr>q_used := True, q_key := key, q_ns := x_ipc_ns x,
           q_qbytes := of_nat (MSGMAX * MSGTQL),
           q_perm := \<lparr>ip_uid = euid, ip_gid = egid, ip_cuid = euid, ip_cgid = egid,
                      ip_mode = ucast (msgflg AND 0x1FF), ip_seq = seq, ip_key = key\<rparr>,
           q_ctime := x_time x\<rparr>)"

definition sysv_msgget :: "ipc_ctx \<Rightarrow> u32 \<Rightarrow> u32 \<Rightarrow> msg_state \<Rightarrow> nat result \<times> msg_state" where
  "sysv_msgget x key msgflg st =
     (let found = (if key = 0 then None
                   else first_slot (\<lambda>i. q_used (g_queues st i) \<and> q_ns (g_queues st i) = x_ipc_ns x
                                        \<and> q_key (g_queues st i) = key) MSGMNI)
      in case found of
           Some i \<Rightarrow>
             if msgflg AND IPC_CREAT \<noteq> 0 \<and> msgflg AND IPC_EXCL \<noteq> 0 then (Inl EEXIST, st)
             else if \<not> msg_access x i (ucast (msgflg AND 0x1FF)) st then (Inl EACCES, st)
             else (Inr i, st)
         | None \<Rightarrow>
             if key \<noteq> 0 \<and> msgflg AND IPC_CREAT = 0 then (Inl ENOENT, st)
             else (case first_slot (\<lambda>i. \<not> q_used (g_queues st i)) MSGMNI of
                     None \<Rightarrow> (Inl ENOSPC, st)
                   | Some i \<Rightarrow>
                       (Inr i, (set_queue i (new_queue x key msgflg (g_seq st)) st)
                                 \<lparr>g_seq := g_seq st + 1\<rparr>)))"

text \<open>Storing a message in the first free entry, if it fits.\<close>

definition msg_insert :: "ipc_ctx \<Rightarrow> u64 \<Rightarrow> u8 list \<Rightarrow> msg_queue \<Rightarrow> msg_queue option" where
  "msg_insert x mtype text q =
     (case first_slot (\<lambda>i. \<not> me_used (q_msgs q i)) MSGTQL of
        None \<Rightarrow> None
      | Some slot \<Rightarrow>
          if q_cbytes q + of_nat (length text) \<le> q_qbytes q then
            Some (q\<lparr>q_msgs := (q_msgs q)(slot := \<lparr>me_used = True, me_type = mtype, me_size = length text,
                                                 me_seq = q_next_seq q, me_text = text\<rparr>),
                    q_next_seq := q_next_seq q + 1,
                    q_cbytes := q_cbytes q + of_nat (length text),
                    q_stime := x_time x, q_lspid := x_pid x\<rparr>)
          else None)"

definition msgsnd_try ::
    "ipc_ctx \<Rightarrow> int \<Rightarrow> u64 \<Rightarrow> u8 list \<Rightarrow> msg_state \<Rightarrow> nat result option \<times> msg_state" where
  "msgsnd_try x msqid mtype text st =
     (if \<not> msg_id_valid x msqid st then (Some (Inl EINVAL), st)
      else if \<not> msg_access x (nat msqid) 0x80 st then (Some (Inl EACCES), st)
      else (case msg_insert x mtype text (g_queues st (nat msqid)) of
              Some q \<Rightarrow> (Some (Inr (length text)), set_queue (nat msqid) q st)
            | None \<Rightarrow> (None, st)))"

text \<open>
  The text is the \<open>size\<close> bytes the caller hands over; types are signed
  64-bit numbers; \<open>alloc_ok\<close> is whether the copy can be allocated.
\<close>

definition sysv_msgsnd ::
    "ipc_ctx \<Rightarrow> bool \<Rightarrow> int \<Rightarrow> u64 \<Rightarrow> u8 list \<Rightarrow> u32 \<Rightarrow> msg_state sleep list \<Rightarrow> msg_state
      \<Rightarrow> nat outcome \<times> msg_state" where
  "sysv_msgsnd x alloc_ok msqid mtype text msgflg ws st =
     (if sint mtype < 1 then (Done (Inl EINVAL), st)
      else if length text > MSGMAX then (Done (Inl EINVAL), st)
      else if \<not> alloc_ok then (Done (Inl ENOMEM), st)
      else blocking (msgsnd_try x msqid mtype text)
             (if msgflg AND SYSV_IPC_NOWAIT \<noteq> 0 then Some EAGAIN else None) ERESTARTNOHAND ws st)"

section \<open>Receiving\<close>

definition msg_match :: "u64 \<Rightarrow> u64 \<Rightarrow> bool" where
  "msg_match msgtyp t =
     (if msgtyp = 0 then True
      else if sint msgtyp > 0 then t = msgtyp
      else sint t \<le> sint (- msgtyp))"

definition msg_better :: "u64 \<Rightarrow> msg_entry \<Rightarrow> msg_entry \<Rightarrow> bool" where
  "msg_better msgtyp m b =
     (if sint msgtyp < 0 \<and> me_type m \<noteq> me_type b then sint (me_type m) < sint (me_type b)
      else me_seq m < me_seq b)"

definition msg_scan :: "u64 \<Rightarrow> msg_entry table \<Rightarrow> nat option \<Rightarrow> nat \<Rightarrow> nat option" where
  "msg_scan msgtyp ms best i =
     (if \<not> me_used (ms i) \<or> \<not> msg_match msgtyp (me_type (ms i)) then best
      else (case best of
              None \<Rightarrow> Some i
            | Some b \<Rightarrow> if msg_better msgtyp (ms i) (ms b) then Some i else Some b))"

definition msg_select :: "u64 \<Rightarrow> msg_queue \<Rightarrow> nat option" where
  "msg_select msgtyp q = foldl (msg_scan msgtyp (q_msgs q)) None [0..<MSGTQL]"

definition msg_remove :: "ipc_ctx \<Rightarrow> nat \<Rightarrow> msg_queue \<Rightarrow> msg_queue" where
  "msg_remove x b q =
     q\<lparr>q_cbytes := q_cbytes q - of_nat (me_size (q_msgs q b)),
       q_msgs := (q_msgs q)(b := (q_msgs q b)\<lparr>me_used := False, me_text := []\<rparr>),
       q_rtime := x_time x, q_lrpid := x_pid x\<rparr>"

text \<open>A receive returns the bytes copied out and the type of the message.\<close>

definition msgrcv_try ::
    "ipc_ctx \<Rightarrow> int \<Rightarrow> u64 \<Rightarrow> nat \<Rightarrow> u32 \<Rightarrow> msg_state \<Rightarrow> (u8 list \<times> u64) result option \<times> msg_state" where
  "msgrcv_try x msqid msgtyp size_max msgflg st =
     (if \<not> msg_id_valid x msqid st then (Some (Inl EINVAL), st)
      else if \<not> msg_access x (nat msqid) 0x100 st then (Some (Inl EACCES), st)
      else let q = g_queues st (nat msqid) in
        case msg_select msgtyp q of
          None \<Rightarrow> (None, st)
        | Some b \<Rightarrow>
            let m = q_msgs q b in
            if me_size m > size_max \<and> msgflg AND SYSV_MSG_NOERROR = 0 then (Some (Inl E2BIG), st)
            else (Some (Inr (take (min (me_size m) size_max) (me_text m), me_type m)),
                  set_queue (nat msqid) (msg_remove x b q) st))"

definition sysv_msgrcv ::
    "ipc_ctx \<Rightarrow> int \<Rightarrow> u64 \<Rightarrow> nat \<Rightarrow> u32 \<Rightarrow> msg_state sleep list \<Rightarrow> msg_state
      \<Rightarrow> (u8 list \<times> u64) outcome \<times> msg_state" where
  "sysv_msgrcv x msqid msgtyp size_max msgflg ws st =
     blocking (msgrcv_try x msqid msgtyp size_max msgflg)
       (if msgflg AND SYSV_IPC_NOWAIT \<noteq> 0 then Some ENOMSG else None) ERESTARTNOHAND ws st"

section \<open>Control\<close>

definition queue_info :: "msg_queue \<Rightarrow> sysv_msqid_info" where
  "queue_info q = \<lparr>mi_perm = q_perm q, mi_stime = q_stime q, mi_rtime = q_rtime q, mi_ctime = q_ctime q,
     mi_qnum = length (filter (\<lambda>i. me_used (q_msgs q i)) [0..<MSGTQL]), mi_qbytes = q_qbytes q,
     mi_cbytes = q_cbytes q, mi_lspid = q_lspid q, mi_lrpid = q_lrpid q\<rparr>"

definition sysv_msgctl_stat :: "ipc_ctx \<Rightarrow> int \<Rightarrow> msg_state \<Rightarrow> sysv_msqid_info result" where
  "sysv_msgctl_stat x msqid st =
     (if \<not> msg_id_valid x msqid st then Inl EINVAL
      else if \<not> msg_access x (nat msqid) 0x100 st then Inl EACCES
      else Inr (queue_info (g_queues st (nat msqid))))"

definition sysv_msgctl_set ::
    "ipc_ctx \<Rightarrow> int \<Rightarrow> u32 \<Rightarrow> u32 \<Rightarrow> u16 \<Rightarrow> u64 \<Rightarrow> msg_state \<Rightarrow> unit result \<times> msg_state" where
  "sysv_msgctl_set x msqid uid gid mode qbytes st =
     (if \<not> msg_id_valid x msqid st then (Inl EINVAL, st)
      else let q = g_queues st (nat msqid) in
        if \<not> msg_may_control x q then (Inl EPERM, st)
        else if qbytes > q_qbytes q
             \<and> \<not> ns_capable_cred (x_nss x) (x_cred x) (namespace_owner (x_nss x) NS_IPC (q_ns q)) CAP_SYS_RESOURCE
        then (Inl EPERM, st)
        else (Inr (),
              set_queue (nat msqid)
                (q\<lparr>q_perm := (q_perm q)\<lparr>ip_uid := uid, ip_gid := gid, ip_mode := mode AND 0x1FF\<rparr>,
                   q_qbytes := (if qbytes \<noteq> 0 then qbytes else q_qbytes q), q_ctime := x_time x\<rparr>) st))"

definition clear_queue :: "msg_queue \<Rightarrow> msg_queue" where
  "clear_queue q = q\<lparr>q_msgs := (\<lambda>i. if i < MSGTQL then (q_msgs q i)\<lparr>me_used := False, me_text := []\<rparr>
                                       else q_msgs q i), q_used := False\<rparr>"

definition sysv_msgctl_rmid :: "ipc_ctx \<Rightarrow> int \<Rightarrow> msg_state \<Rightarrow> unit result \<times> msg_state" where
  "sysv_msgctl_rmid x msqid st =
     (if \<not> msg_id_valid x msqid st then (Inl EINVAL, st)
      else let q = g_queues st (nat msqid) in
        if \<not> msg_may_control x q then (Inl EPERM, st)
        else (Inr (), set_queue (nat msqid) (clear_queue q) st))"

definition sysv_msg_stat_index :: "ipc_ctx \<Rightarrow> int \<Rightarrow> msg_state \<Rightarrow> sysv_msqid_info result" where
  "sysv_msg_stat_index x idx st =
     (if \<not> msg_id_valid x idx st then Inl EINVAL else Inr (queue_info (g_queues st (nat idx))))"

definition sysv_msg_ns_destroy :: "nat \<Rightarrow> msg_state \<Rightarrow> msg_state" where
  "sysv_msg_ns_destroy ns st =
     st\<lparr>g_queues := (\<lambda>i. let q = g_queues st i in
          if i < MSGMNI \<and> q_used q \<and> q_ns q = ns then clear_queue q else q)\<rparr>"

section \<open>Which message a receive selects\<close>

text \<open>
  The order a receive looks for the least message in: by type first when the
  requested type is negative, otherwise by arrival.
\<close>

definition msg_rank :: "u64 \<Rightarrow> msg_entry \<Rightarrow> int \<times> nat" where
  "msg_rank msgtyp m = (if sint msgtyp < 0 then sint (me_type m) else 0, me_seq m)"

definition candidate :: "u64 \<Rightarrow> msg_entry table \<Rightarrow> nat \<Rightarrow> bool" where
  "candidate msgtyp ms i \<longleftrightarrow> me_used (ms i) \<and> msg_match msgtyp (me_type (ms i))"

lemma msg_better_rank: "msg_better msgtyp m b \<longleftrightarrow> msg_rank msgtyp m < msg_rank msgtyp b"
proof -
  have "sint (me_type m) = sint (me_type b) \<longleftrightarrow> me_type m = me_type b" by (metis signed_word_eqI)
  then show ?thesis by (auto simp: msg_better_def msg_rank_def less_prod_def)
qed

lemma msg_scan_fold:
  "(case foldl (msg_scan msgtyp ms) None xs of
      None \<Rightarrow> \<forall>i\<in>set xs. \<not> candidate msgtyp ms i
    | Some b \<Rightarrow> b \<in> set xs \<and> candidate msgtyp ms b
        \<and> (\<forall>i\<in>set xs. candidate msgtyp ms i \<longrightarrow> msg_rank msgtyp (ms b) \<le> msg_rank msgtyp (ms i)))"
proof (induction xs rule: rev_induct)
  case (snoc i xs)
  show ?case
  proof (cases "candidate msgtyp ms i")
    case True
    then show ?thesis
      using snoc by (auto simp: msg_scan_def candidate_def msg_better_rank not_less
          split: option.splits intro: order_trans less_imp_le)
  next
    case False
    then show ?thesis using snoc by (auto simp: msg_scan_def candidate_def split: option.splits)
  qed
qed simp

lemma msg_select_None: "msg_select msgtyp q = None \<longleftrightarrow> (\<forall>i<MSGTQL. \<not> candidate msgtyp (q_msgs q) i)"
  using msg_scan_fold [where msgtyp = msgtyp and ms = "q_msgs q" and xs = "[0..<MSGTQL]"]
  by (auto simp: msg_select_def split: option.splits)

lemma msg_select_Some:
  assumes "msg_select msgtyp q = Some b"
  shows "b < MSGTQL" "candidate msgtyp (q_msgs q) b"
    "\<And>i. i < MSGTQL \<Longrightarrow> candidate msgtyp (q_msgs q) i \<Longrightarrow>
       msg_rank msgtyp (q_msgs q b) \<le> msg_rank msgtyp (q_msgs q i)"
  using msg_scan_fold [where msgtyp = msgtyp and ms = "q_msgs q" and xs = "[0..<MSGTQL]"] assms
  by (auto simp: msg_select_def split: option.splits)

section \<open>Well-formed queues and their messages in arrival order\<close>

definition used_slots :: "msg_queue \<Rightarrow> nat list" where
  "used_slots q = filter (\<lambda>i. me_used (q_msgs q i)) [0..<MSGTQL]"

definition queued_bytes :: "msg_queue \<Rightarrow> nat" where
  "queued_bytes q = (\<Sum>i<MSGTQL. if me_used (q_msgs q i) then me_size (q_msgs q i) else 0)"

definition msgq_ok :: "msg_queue \<Rightarrow> bool" where
  "msgq_ok q \<longleftrightarrow>
     (\<forall>i<MSGTQL. me_used (q_msgs q i) \<longrightarrow> me_seq (q_msgs q i) < q_next_seq q
        \<and> me_size (q_msgs q i) = length (me_text (q_msgs q i)) \<and> me_size (q_msgs q i) \<le> MSGMAX)
     \<and> inj_on (\<lambda>i. me_seq (q_msgs q i)) (set (used_slots q))
     \<and> unat (q_cbytes q) = queued_bytes q"

definition arrivals :: "msg_queue \<Rightarrow> nat list" where
  "arrivals q = sort_key (\<lambda>i. me_seq (q_msgs q i)) (used_slots q)"

type_synonym message = "u64 \<times> u8 list"

definition slot_message :: "msg_queue \<Rightarrow> nat \<Rightarrow> message" where
  "slot_message q i = (me_type (q_msgs q i), me_text (q_msgs q i))"

definition queue_messages :: "msg_queue \<Rightarrow> message list" where
  "queue_messages q = map (slot_message q) (arrivals q)"

lemma set_arrivals: "set (arrivals q) = {i. i < MSGTQL \<and> me_used (q_msgs q i)}"
  by (auto simp: arrivals_def used_slots_def)

lemma arrivals_unique:
  assumes "inj_on (\<lambda>i. me_seq (q_msgs q i)) (set (used_slots q))" "distinct L"
    "set L = {i. i < MSGTQL \<and> me_used (q_msgs q i)}" "sorted (map (\<lambda>i. me_seq (q_msgs q i)) L)"
  shows "arrivals q = L"
proof -
  let ?f = "\<lambda>i. me_seq (q_msgs q i)"
  have set: "set (arrivals q) = set L" "set (used_slots q) = set L"
    using assms(3) set_arrivals by (auto simp: used_slots_def)
  have "distinct (arrivals q)" by (simp add: arrivals_def used_slots_def)
  then have "distinct (map ?f (arrivals q))" "distinct (map ?f L)"
    using assms(1,2) set by (auto simp: distinct_map)
  moreover have "sorted (map ?f (arrivals q))" by (simp add: arrivals_def)
  ultimately show ?thesis
    using map_sorted_distinct_set_unique [of ?f "arrivals q" L] assms(1,4) set by auto
qed

lemma arrivals_sorted: "sorted (map (\<lambda>i. me_seq (q_msgs q i)) (arrivals q))"
  by (simp add: arrivals_def)

lemma arrivals_strict:
  assumes "msgq_ok q" "j < k" "k < length (arrivals q)"
  shows "me_seq (q_msgs q (arrivals q ! j)) < me_seq (q_msgs q (arrivals q ! k))"
proof -
  let ?L = "arrivals q"
  have L: "distinct ?L" "set ?L = set (used_slots q)" by (auto simp: arrivals_def used_slots_def)
  have j: "j < length ?L" using assms(2,3) by simp
  have "?L ! j \<noteq> ?L ! k" using L(1) j assms(2,3) by (simp add: nth_eq_iff_index_eq)
  moreover have "?L ! j \<in> set (used_slots q)" "?L ! k \<in> set (used_slots q)"
    using nth_mem [OF j] nth_mem [OF assms(3)] L(2) by auto
  ultimately have "me_seq (q_msgs q (?L ! j)) \<noteq> me_seq (q_msgs q (?L ! k))"
    using assms(1) by (auto simp: msgq_ok_def inj_on_def)
  moreover have "me_seq (q_msgs q (?L ! j)) \<le> me_seq (q_msgs q (?L ! k))"
    using sorted_nth_mono [OF arrivals_sorted [of q], of j k] assms(2,3) by simp
  ultimately show ?thesis by simp
qed

lemma queued_bytes_bound:
  assumes "msgq_ok q"
  shows "queued_bytes q \<le> MSGTQL * MSGMAX"
proof -
  have "(if me_used (q_msgs q i) then me_size (q_msgs q i) else 0) \<le> MSGMAX" if "i \<in> {..<MSGTQL}" for i
    using assms that by (auto simp: msgq_ok_def)
  then show ?thesis
    using sum_bounded_above [of "{..<MSGTQL}"
        "\<lambda>i. if me_used (q_msgs q i) then me_size (q_msgs q i) else 0" MSGMAX]
    unfolding queued_bytes_def by simp
qed

lemma queued_bytes_upd:
  assumes "b < MSGTQL"
  shows "(\<Sum>i<MSGTQL. if me_used (((q_msgs q)(b := m)) i) then me_size (((q_msgs q)(b := m)) i) else 0)
    + (if me_used (q_msgs q b) then me_size (q_msgs q b) else 0)
    = queued_bytes q + (if me_used m then me_size m else 0)"
  unfolding queued_bytes_def
  by (rule sum_table_upd [where f = "\<lambda>m. if me_used m then me_size m else 0", OF assms])

lemma new_queue_ok: "msgq_ok (new_queue x key flg seq)" "queue_messages (new_queue x key flg seq) = []"
  by (simp_all add: new_queue_def msgq_ok_def used_slots_def queued_bytes_def msg_queue_zero_def
      msg_entry_zero_def Let_def queue_messages_def arrivals_def)

subsection \<open>Sending appends\<close>

lemma msg_insert_cases:
  assumes "msg_insert x t text q = Some q'"
  obtains s where "s < MSGTQL" "\<not> me_used (q_msgs q s)"
    "q_cbytes q + of_nat (length text) \<le> q_qbytes q"
    "q_msgs q' = (q_msgs q)(s := \<lparr>me_used = True, me_type = t, me_size = length text,
       me_seq = q_next_seq q, me_text = text\<rparr>)"
    "q_next_seq q' = q_next_seq q + 1" "q_cbytes q' = q_cbytes q + of_nat (length text)"
proof -
  obtain s where s: "first_slot (\<lambda>i. \<not> me_used (q_msgs q i)) MSGTQL = Some s"
    using assms by (auto simp: msg_insert_def split: option.splits)
  show thesis
    by (rule that [of s]) (use assms s first_slot_SomeD(1,2) [OF s] in \<open>auto simp: msg_insert_def split: if_splits\<close>)
qed

lemma msg_insert_no_overflow:
  assumes "msgq_ok q" "length text \<le> MSGMAX"
  shows "unat (q_cbytes q + of_nat (length text)) = unat (q_cbytes q) + length text"
proof -
  have "unat (q_cbytes q) + length text < 2 ^ 64"
    using queued_bytes_bound [OF assms(1)] assms by (simp add: msgq_ok_def MSGTQL_def MSGMAX_def)
  then show ?thesis using assms(2) by (simp add: unat_word_ariths unat_of_nat MSGMAX_def)
qed

lemma msg_insert_ok:
  assumes ok: "msgq_ok q" and len: "length text \<le> MSGMAX" and ins: "msg_insert x t text q = Some q'"
  shows "msgq_ok q' \<and> queue_messages q' = queue_messages q @ [(t, text)]"
  using ins
proof (cases rule: msg_insert_cases)
  case (1 s)
  have used: "set (used_slots q') = insert s (set (used_slots q))" and new: "s \<notin> set (used_slots q)"
    using 1 by (auto simp: used_slots_def)
  have seq: "me_seq (q_msgs q i) < q_next_seq q" if "i \<in> set (used_slots q)" for i
    using ok that by (auto simp: msgq_ok_def used_slots_def)
  have inj: "inj_on (\<lambda>i. me_seq (q_msgs q' i)) (set (used_slots q'))"
  proof -
    have "inj_on (\<lambda>i. me_seq (q_msgs q' i)) (set (used_slots q))"
      using ok new unfolding msgq_ok_def by (auto simp: 1 inj_on_def)
    moreover have "me_seq (q_msgs q' s) \<notin> (\<lambda>i. me_seq (q_msgs q' i)) ` (set (used_slots q))"
    proof
      assume "me_seq (q_msgs q' s) \<in> (\<lambda>i. me_seq (q_msgs q' i)) ` (set (used_slots q))"
      then obtain i where i: "i \<in> set (used_slots q)" "me_seq (q_msgs q' s) = me_seq (q_msgs q' i)" by auto
      then have "i \<noteq> s" using new by auto
      then show False using seq [OF i(1)] i(2) by (simp add: 1)
    qed
    ultimately show ?thesis using new by (simp add: used)
  qed
  have bytes: "queued_bytes q' = queued_bytes q + length text"
    using queued_bytes_upd [OF 1(1), of q "\<lparr>me_used = True, me_type = t, me_size = length text,
       me_seq = q_next_seq q, me_text = text\<rparr>"] 1(2) unfolding queued_bytes_def 1(4) by simp
  have ok': "msgq_ok q'"
    using ok len inj bytes msg_insert_no_overflow [OF ok len] unfolding msgq_ok_def
    by (auto simp: 1 less_Suc_eq)
  have "arrivals q' = arrivals q @ [s]"
  proof (rule arrivals_unique [OF inj])
    show "distinct (arrivals q @ [s])" using new by (simp add: arrivals_def used_slots_def)
    show "set (arrivals q @ [s]) = {i. i < MSGTQL \<and> me_used (q_msgs q' i)}"
      using 1 by (auto simp: set_arrivals)
    have "map (\<lambda>i. me_seq (q_msgs q' i)) (arrivals q) = map (\<lambda>i. me_seq (q_msgs q i)) (arrivals q)"
      using 1(2) by (auto simp: 1 set_arrivals)
    moreover have "me_seq (q_msgs q i) \<le> me_seq (q_msgs q' s)" if "i \<in> set (arrivals q)" for i
      using seq [of i] that by (simp add: 1 arrivals_def less_imp_le)
    ultimately show "sorted (map (\<lambda>i. me_seq (q_msgs q' i)) (arrivals q @ [s]))"
      using arrivals_sorted [of q] by (simp only: map_append sorted_append) auto
  qed
  moreover have "map (slot_message q') (arrivals q) = map (slot_message q) (arrivals q)"
    using 1(2) by (auto simp: slot_message_def 1 set_arrivals)
  moreover have "slot_message q' s = (t, text)" by (simp add: slot_message_def 1)
  ultimately have "queue_messages q' = queue_messages q @ [(t, text)]"
    by (simp only: queue_messages_def map_append list.map)
  then show ?thesis using ok' by simp
qed

subsection \<open>Receiving removes the message selected\<close>

text \<open>The position a receive selects in a list of messages.\<close>

definition selects :: "u64 \<Rightarrow> message list \<Rightarrow> nat \<Rightarrow> bool" where
  "selects msgtyp ms k \<longleftrightarrow> msg_match msgtyp (fst (ms ! k))
     \<and> (sint msgtyp < 0 \<longrightarrow>
          list_all (\<lambda>m. msg_match msgtyp (fst m) \<longrightarrow> sint (fst (ms ! k)) \<le> sint (fst m)) ms)"

definition pick :: "u64 \<Rightarrow> message list \<Rightarrow> nat option" where
  "pick msgtyp ms = first_slot (selects msgtyp ms) (length ms)"

lemma pick_select:
  assumes ok: "msgq_ok q"
  shows "msg_select msgtyp q = map_option (\<lambda>k. arrivals q ! k) (pick msgtyp (queue_messages q))"
proof (cases "msg_select msgtyp q")
  case None
  then have "\<not> candidate msgtyp (q_msgs q) i" if "i \<in> set (arrivals q)" for i
    using that by (simp add: msg_select_None set_arrivals)
  then have "\<not> msg_match msgtyp (me_type (q_msgs q (arrivals q ! k)))" if "k < length (arrivals q)" for k
    using that nth_mem [OF that] set_arrivals [of q] by (auto simp: candidate_def)
  then have "pick msgtyp (queue_messages q) = None"
    by (simp add: pick_def first_slot_None_iff selects_def queue_messages_def slot_message_def)
  then show ?thesis using None by simp
next
  case (Some b)
  note sel = msg_select_Some [OF Some]
  let ?L = "arrivals q"
  have "b \<in> set ?L" using sel(1,2) by (simp add: set_arrivals candidate_def)
  then obtain k where k: "k < length ?L" "?L ! k = b" by (auto simp: in_set_conv_nth)
  have used: "?L ! j < MSGTQL" "me_used (q_msgs q (?L ! j))" if "j < length ?L" for j
    using nth_mem [OF that] set_arrivals [of q] by auto
  have cand: "candidate msgtyp (q_msgs q) (?L ! j) \<longleftrightarrow> msg_match msgtyp (me_type (q_msgs q (?L ! j)))"
    if "j < length ?L" for j using used [OF that] by (simp add: candidate_def)
  have least: "msg_rank msgtyp (q_msgs q b) \<le> msg_rank msgtyp (q_msgs q (?L ! j))"
    if "j < length ?L" "msg_match msgtyp (me_type (q_msgs q (?L ! j)))" for j
    using sel(3) used(1) cand that by blast
  have "sint (me_type (q_msgs q b)) \<le> sint (me_type (q_msgs q (?L ! j)))"
    if "sint msgtyp < 0" "j < length ?L" "msg_match msgtyp (me_type (q_msgs q (?L ! j)))" for j
    using least [OF that(2,3)] that(1) by (auto simp: msg_rank_def less_eq_prod_def)
  then have "selects msgtyp (queue_messages q) k"
    using sel(2) k
    by (simp add: selects_def queue_messages_def slot_message_def candidate_def list_all_length)
  moreover have "\<not> selects msgtyp (queue_messages q) j" if "j < k" for j
  proof
    assume s: "selects msgtyp (queue_messages q) j"
    have j: "j < length ?L" using that k by simp
    have m: "msg_match msgtyp (me_type (q_msgs q (?L ! j)))"
      using s j by (simp add: selects_def queue_messages_def slot_message_def)
    have "sint msgtyp < 0 \<Longrightarrow> sint (me_type (q_msgs q (?L ! j))) \<le> sint (me_type (q_msgs q b))"
      using s j k sel(2)
      by (auto simp: selects_def queue_messages_def slot_message_def list_all_length candidate_def)
    then have "me_seq (q_msgs q b) \<le> me_seq (q_msgs q (?L ! j))"
      using least [OF j m] by (auto simp: msg_rank_def less_eq_prod_def split: if_splits)
    then show False using arrivals_strict [OF ok that k(1)] k(2) by simp
  qed
  ultimately have "pick msgtyp (queue_messages q) = Some k"
    using k by (simp add: pick_def first_slot_Some_iff queue_messages_def)
  then show ?thesis using Some k by simp
qed

definition drop_nth :: "nat \<Rightarrow> 'a list \<Rightarrow> 'a list" where
  "drop_nth k xs = take k xs @ drop (Suc k) xs"

lemma drop_nth_remove1: "distinct xs \<Longrightarrow> k < length xs \<Longrightarrow> drop_nth k xs = filter (\<lambda>y. y \<noteq> xs ! k) xs"
proof (induction xs arbitrary: k)
  case (Cons x xs)
  show ?case
  proof (cases k)
    case 0
    have "filter (\<lambda>y. y \<noteq> x) xs = xs" using Cons.prems(1) by (auto intro: filter_True)
    then show ?thesis using 0 by (simp add: drop_nth_def)
  next
    case (Suc j)
    then have "xs ! j \<noteq> x" using Cons.prems by auto
    then show ?thesis using Cons.IH [of j] Cons.prems Suc by (auto simp: drop_nth_def)
  qed
qed simp

lemma msg_remove_ok:
  assumes ok: "msgq_ok q" and k: "k < length (arrivals q)" and b: "b = arrivals q ! k"
  shows "msgq_ok (msg_remove x b q) \<and> queue_messages (msg_remove x b q) = drop_nth k (queue_messages q)"
proof -
  define q' where "q' = msg_remove x b q"
  have bs: "b < MSGTQL" "me_used (q_msgs q b)" using nth_mem [OF k] set_arrivals [of q] b by auto
  have ms: "q_msgs q' = (q_msgs q)(b := (q_msgs q b)\<lparr>me_used := False, me_text := []\<rparr>)"
    "q_next_seq q' = q_next_seq q" "q_cbytes q' = q_cbytes q - of_nat (me_size (q_msgs q b))"
    by (simp_all add: q'_def msg_remove_def)
  have used: "set (used_slots q') = set (used_slots q) - {b}" by (auto simp: used_slots_def ms)
  have inj: "inj_on (\<lambda>i. me_seq (q_msgs q' i)) (set (used_slots q'))"
    using ok unfolding used msgq_ok_def by (auto simp: ms inj_on_def)
  have bytes: "queued_bytes q' + me_size (q_msgs q b) = queued_bytes q"
    using queued_bytes_upd [OF bs(1), of q "(q_msgs q b)\<lparr>me_used := False, me_text := []\<rparr>"] bs(2)
    unfolding queued_bytes_def ms(1) by simp
  have size: "unat (of_nat (me_size (q_msgs q b)) :: u64) = me_size (q_msgs q b)"
  proof -
    have "me_size (q_msgs q b) \<le> MSGMAX" using ok bs unfolding msgq_ok_def by blast
    then show ?thesis by (simp add: unat_of_nat MSGMAX_def)
  qed
  have "unat (q_cbytes q') = unat (q_cbytes q) - me_size (q_msgs q b)"
    using bytes ok size unfolding ms(3) msgq_ok_def by (subst unat_sub) (auto simp: word_le_nat_alt)
  then have ok': "msgq_ok q'"
    using ok inj bytes unfolding msgq_ok_def by (auto simp: ms)
  have L: "drop_nth k (arrivals q) = filter (\<lambda>y. y \<noteq> b) (arrivals q)"
    unfolding b using k by (intro drop_nth_remove1) (simp_all add: arrivals_def used_slots_def)
  have "arrivals q' = drop_nth k (arrivals q)"
  proof (rule arrivals_unique [OF inj])
    show "distinct (drop_nth k (arrivals q))" unfolding L by (simp add: arrivals_def used_slots_def)
    show "set (drop_nth k (arrivals q)) = {i. i < MSGTQL \<and> me_used (q_msgs q' i)}"
      unfolding L by (auto simp: set_arrivals ms)
    have eq: "map (\<lambda>i. me_seq (q_msgs q' i)) (drop_nth k (arrivals q)) =
        map (\<lambda>i. me_seq (q_msgs q i)) (drop_nth k (arrivals q))" by (simp add: ms)
    show "sorted (map (\<lambda>i. me_seq (q_msgs q' i)) (drop_nth k (arrivals q)))"
      unfolding eq unfolding L by (rule sorted_filter [OF arrivals_sorted])
  qed
  moreover have "map (slot_message q') (drop_nth k (arrivals q)) = map (slot_message q) (drop_nth k (arrivals q))"
    unfolding L by (auto simp: slot_message_def ms)
  ultimately have "queue_messages q' = drop_nth k (queue_messages q)"
    by (simp add: queue_messages_def drop_nth_def take_map drop_map)
  then show ?thesis using ok' by (simp add: q'_def)
qed
section \<open>Mailboxes\<close>

text \<open>
  What a store of messages promises its clients: putting a message in appends
  it, getting one out removes exactly the one the selector picks from the
  messages in arrival order.
\<close>

datatype ('m, 's) mail_op = Put 'm | Get 's

fun mail_run ::
    "('m \<Rightarrow> 'q \<Rightarrow> 'q option) \<Rightarrow> ('s \<Rightarrow> 'q \<Rightarrow> ('m \<times> 'q) option) \<Rightarrow> ('m, 's) mail_op list \<Rightarrow> 'q
      \<Rightarrow> 'm list \<times> 'm list \<times> 'q" where
  "mail_run put get [] q = ([], [], q)"
| "mail_run put get (Put m # ops) q =
     (case put m q of
        None \<Rightarrow> mail_run put get ops q
      | Some q' \<Rightarrow> (case mail_run put get ops q' of (a, r, q'') \<Rightarrow> (m # a, r, q'')))"
| "mail_run put get (Get s # ops) q =
     (case get s q of
        None \<Rightarrow> mail_run put get ops q
      | Some (m, q') \<Rightarrow> (case mail_run put get ops q' of (a, r, q'') \<Rightarrow> (a, m # r, q'')))"

locale mailbox =
  fixes ok :: "'q \<Rightarrow> bool"
    and abs :: "'q \<Rightarrow> 'm list"
    and fits :: "'m \<Rightarrow> bool"
    and put :: "'m \<Rightarrow> 'q \<Rightarrow> 'q option"
    and get :: "'s \<Rightarrow> 'q \<Rightarrow> ('m \<times> 'q) option"
    and sel :: "'s \<Rightarrow> 'm list \<Rightarrow> nat option"
  assumes put_law: "ok q \<Longrightarrow> fits m \<Longrightarrow> put m q = Some q' \<Longrightarrow> ok q' \<and> abs q' = abs q @ [m]"
    and get_law: "ok q \<Longrightarrow> get s q = Some (m, q') \<Longrightarrow>
      ok q' \<and> (\<exists>k<length (abs q). sel s (abs q) = Some k \<and> m = abs q ! k \<and> abs q' = drop_nth k (abs q))"
    and get_none: "ok q \<Longrightarrow> get s q = None \<Longrightarrow> sel s (abs q) = None"
begin

lemma mail_run_conserves:
  assumes "ok q" "\<And>m. Put m \<in> set ops \<Longrightarrow> fits m" "mail_run put get ops q = (a, r, q')"
  shows "ok q' \<and> mset r + mset (abs q') = mset (abs q) + mset a"
  using assms
proof (induction ops arbitrary: q a r)
  case (Cons op ops)
  note fit = Cons.prems(2)
  have ops: "Put m \<in> set ops \<Longrightarrow> fits m" for m using fit by simp
  note IH = Cons.IH [OF _ ops]
  show ?case
  proof (cases op)
    case (Put m)
    then show ?thesis
      using IH [of q] IH Cons.prems(1,3) put_law [OF Cons.prems(1) fit, of m]
      by (auto split: option.splits prod.splits)
  next
    case op: (Get s)
    show ?thesis
    proof (cases "get s q")
      case None
      then show ?thesis using IH [of q] Cons.prems(1,3) op by simp
    next
      case (Some p)
      obtain m q1 where p: "p = (m, q1)" by force
      obtain k where k: "ok q1" "k < length (abs q)" "m = abs q ! k" "abs q1 = drop_nth k (abs q)"
        using get_law [OF Cons.prems(1), of s m q1] Some p by auto
      have "mset (abs q) = mset (take k (abs q) @ abs q ! k # drop (Suc k) (abs q))"
        using id_take_nth_drop [OF k(2)] by simp
      then have "mset (abs q) = add_mset m (mset (abs q1))" by (simp add: k drop_nth_def)
      then show ?thesis
        using IH [of q1] Cons.prems(3) k(1) Some p op by (auto split: prod.splits)
    qed
  qed
qed simp

end

locale fifo_mailbox = mailbox +
  fixes any :: "'b"
  assumes sel_any: "sel any xs = (if xs = [] then None else Some 0)"
begin

lemma mail_run_in_order:
  assumes "ok q" "\<And>m. Put m \<in> set ops \<Longrightarrow> fits m" "\<And>s. Get s \<in> set ops \<Longrightarrow> s = any"
    "mail_run put get ops q = (a, r, q')"
  shows "r @ abs q' = abs q @ a"
  using assms
proof (induction ops arbitrary: q a r)
  case (Cons op ops)
  note fit = Cons.prems(2)
  have ops: "Put m \<in> set ops \<Longrightarrow> fits m" "Get s \<in> set ops \<Longrightarrow> s = any" for m s
    using fit Cons.prems(3) by auto
  note IH = Cons.IH [OF _ ops]
  show ?case
  proof (cases op)
    case (Put m)
    then show ?thesis
      using IH [of q] IH Cons.prems(1,4) put_law [OF Cons.prems(1) fit, of m]
      by (auto split: option.splits prod.splits)
  next
    case op: (Get s)
    have s: "s = any" using Cons.prems(3) op by simp
    show ?thesis
    proof (cases "get s q")
      case None
      then show ?thesis using IH [of q] Cons.prems(1,4) op by simp
    next
      case (Some p)
      obtain m q1 where p: "p = (m, q1)" by force
      have "ok q1 \<and> m # abs q1 = abs q"
        using get_law [OF Cons.prems(1), of s m q1] Some p sel_any [of "abs q"] s
        by (cases "abs q") (auto simp: drop_nth_def)
      then show ?thesis
        using IH [of q1] Cons.prems(4) Some p op by (auto split: prod.splits)
    qed
  qed
qed simp

end

definition msgq_put :: "ipc_ctx \<Rightarrow> message \<Rightarrow> msg_queue \<Rightarrow> msg_queue option" where
  "msgq_put x m q = msg_insert x (fst m) (snd m) q"

definition msgq_get :: "ipc_ctx \<Rightarrow> u64 \<Rightarrow> msg_queue \<Rightarrow> (message \<times> msg_queue) option" where
  "msgq_get x msgtyp q = map_option (\<lambda>b. (slot_message q b, msg_remove x b q)) (msg_select msgtyp q)"

lemma pick_less: "pick msgtyp ms = Some k \<Longrightarrow> k < length ms"
  by (auto simp: pick_def dest: first_slot_SomeD(1))

lemma length_queue_messages [simp]: "length (queue_messages q) = length (arrivals q)"
  by (simp add: queue_messages_def)

lemma msgq_get_law:
  assumes "msgq_ok q" "msgq_get x msgtyp q = Some (m, q')"
  shows "msgq_ok q' \<and> (\<exists>k<length (queue_messages q). pick msgtyp (queue_messages q) = Some k
    \<and> m = queue_messages q ! k \<and> queue_messages q' = drop_nth k (queue_messages q))"
proof -
  obtain k where k: "pick msgtyp (queue_messages q) = Some k" "m = slot_message q (arrivals q ! k)"
    "q' = msg_remove x (arrivals q ! k) q"
    using assms pick_select [OF assms(1)] by (auto simp: msgq_get_def)
  then show ?thesis
    using pick_less [OF k(1)] msg_remove_ok [OF assms(1), of k _ x] by (auto simp: queue_messages_def)
qed

interpretation msgq: fifo_mailbox msgq_ok queue_messages "\<lambda>m. length (snd m) \<le> MSGMAX" "msgq_put x"
  "msgq_get x" pick 0 for x
proof
  show "msgq_ok q' \<and> queue_messages q' = queue_messages q @ [m]"
    if "msgq_ok q" "length (snd m) \<le> MSGMAX" "msgq_put x m q = Some q'" for q m q'
    using msg_insert_ok [OF that(1,2)] that(3) by (simp add: msgq_put_def)
  show "pick s (queue_messages q) = None" if "msgq_ok q" "msgq_get x s q = None" for q s
    using that pick_select [of q s] by (simp add: msgq_get_def)
  show "pick 0 xs = (if xs = [] then None else Some 0)" for xs
    by (auto simp: pick_def first_slot_None_iff first_slot_Some_iff selects_def msg_match_def)
qed (use msgq_get_law in blast)

section \<open>The whole table\<close>

definition msg_inv :: "msg_state \<Rightarrow> bool" where
  "msg_inv st \<longleftrightarrow> (\<forall>i<MSGMNI. q_used (g_queues st i) \<longrightarrow> msgq_ok (g_queues st i))"

lemma msg_inv_set_queue: "msg_inv st \<Longrightarrow> (q_used q \<Longrightarrow> msgq_ok q) \<Longrightarrow> msg_inv (set_queue i q st)"
  by (auto simp: msg_inv_def set_queue_def)

lemma msg_id_valid_ok: "msg_inv st \<Longrightarrow> msg_id_valid x msqid st \<Longrightarrow> msgq_ok (g_queues st (nat msqid))"
  by (simp add: msg_inv_def msg_id_valid_def nat_less_iff)

lemma msgget_inv: "msg_inv st \<Longrightarrow> msg_inv (snd (sysv_msgget x key flg st))"
  using msg_inv_set_queue [OF _ new_queue_ok(1)]
  by (auto simp: sysv_msgget_def Let_def msg_inv_def split: option.splits)

lemma msgsnd_try_inv:
  assumes "msg_inv st" "length text \<le> MSGMAX" "msgsnd_try x msqid t text st = (r, st')"
  shows "msg_inv st'"
  using assms msg_insert_ok [OF msg_id_valid_ok [OF assms(1)] assms(2)]
  by (auto simp: msgsnd_try_def split: if_splits option.splits intro: msg_inv_set_queue)

lemma msgrcv_try_cases:
  assumes "msgrcv_try x msqid msgtyp n flg st = (r, st')"
  obtains (same) "st' = st" "\<And>v. r \<noteq> Some (Inr v)"
  | (got) m q' where "msg_id_valid x msqid st" "msg_access x (nat msqid) 0x100 st"
      "msgq_get x msgtyp (g_queues st (nat msqid)) = Some (m, q')"
      "st' = set_queue (nat msqid) q' st"
      "r = Some (Inr (take (min (me_size (q_msgs (g_queues st (nat msqid))
              (the (msg_select msgtyp (g_queues st (nat msqid)))))) n) (snd m), fst m))"
  using assms
  by (auto simp: msgrcv_try_def msgq_get_def slot_message_def Let_def split: if_splits option.splits)

lemma msgrcv_try_inv:
  assumes "msg_inv st" "msgrcv_try x msqid msgtyp n flg st = (r, st')"
  shows "msg_inv st'"
  using assms(2)
proof (cases rule: msgrcv_try_cases)
  case (got m q')
  then show ?thesis
    using msgq_get_law [OF msg_id_valid_ok [OF assms(1) got(1)] got(3)] assms(1)
    by (auto intro: msg_inv_set_queue)
qed (use assms(1) in simp)

lemma msgq_ok_cong:
  "q_msgs q' = q_msgs q \<Longrightarrow> q_next_seq q' = q_next_seq q \<Longrightarrow> q_cbytes q' = q_cbytes q \<Longrightarrow> msgq_ok q' = msgq_ok q"
  by (simp add: msgq_ok_def used_slots_def queued_bytes_def cong: if_cong)

lemma msgctl_inv:
  assumes "msg_inv st"
  shows "msg_inv (snd (sysv_msgctl_set x msqid uid gid mode qbytes st))"
    "msg_inv (snd (sysv_msgctl_rmid x msqid st))" "msg_inv (sysv_msg_ns_destroy ns st)"
proof -
  have "msgq_ok (q\<lparr>q_perm := p, q_qbytes := b, q_ctime := c\<rparr>) = msgq_ok q" for q p b c
    by (rule msgq_ok_cong) simp_all
  then show "msg_inv (snd (sysv_msgctl_set x msqid uid gid mode qbytes st))"
    using assms msg_id_valid_ok [OF assms, of x msqid]
    by (simp add: sysv_msgctl_set_def Let_def msg_inv_set_queue del: if_split split: if_split_asm)
  show "msg_inv (snd (sysv_msgctl_rmid x msqid st))"
    using assms by (auto simp: sysv_msgctl_rmid_def Let_def clear_queue_def intro: msg_inv_set_queue)
  show "msg_inv (sysv_msg_ns_destroy ns st)"
    using assms by (auto simp: msg_inv_def sysv_msg_ns_destroy_def Let_def clear_queue_def)
qed

text \<open>The attempts of the two blocking calls.\<close>

interpretation sndq: sleeper "msgsnd_try x msqid t body"
  "\<lambda>st. msg_inv st \<and> length body \<le> MSGMAX" for x msqid t body
proof
  show "msg_inv st' \<and> length body \<le> MSGMAX"
    if "msg_inv st \<and> length body \<le> MSGMAX" "msgsnd_try x msqid t body st = (r, st')" for st r st'
    using that msgsnd_try_inv by blast
qed (auto simp: msgsnd_try_def split: if_splits option.splits)

interpretation rcvq: sleeper "msgrcv_try x msqid msgtyp n flg" msg_inv
  for x msqid msgtyp n flg
proof
  show "st' = st" if "msgrcv_try x msqid msgtyp n flg st = (None, st')" for st st'
    using that by (auto simp: msgrcv_try_def Let_def split: if_splits option.splits)
qed (rule msgrcv_try_inv)

section \<open>Reachable states\<close>

text \<open>
  The calls as steps on the table, each attempt of a blocking call being one
  step, taken by any caller and in any order.
\<close>

inductive msg_step :: "msg_state \<Rightarrow> msg_state \<Rightarrow> bool" where
  step_get: "msg_step st (snd (sysv_msgget x key flg st))"
| step_snd: "length body \<le> MSGMAX \<Longrightarrow> msg_step st (snd (msgsnd_try x msqid t body st))"
| step_rcv: "msg_step st (snd (msgrcv_try x msqid msgtyp n flg st))"
| step_set: "msg_step st (snd (sysv_msgctl_set x msqid uid gid mode qbytes st))"
| step_rmid: "msg_step st (snd (sysv_msgctl_rmid x msqid st))"
| step_ns_destroy: "msg_step st (sysv_msg_ns_destroy ns st)"

inductive_cases msg_stepE: "msg_step st st'"

definition msg_reachable :: "msg_state \<Rightarrow> bool" where
  "msg_reachable st \<longleftrightarrow> msg_step\<^sup>*\<^sup>* (sysv_ipc_init 0) st"

lemma msg_inv_init: "msg_inv (sysv_ipc_init s)"
  by (simp add: msg_inv_def sysv_ipc_init_def msg_queue_zero_def)

lemma msg_step_inv: "msg_step st st' \<Longrightarrow> msg_inv st \<Longrightarrow> msg_inv st'"
  by (erule msg_stepE) (auto intro: msgget_inv msgctl_inv msgsnd_try_inv msgrcv_try_inv simp: prod_eq_iff)

lemma msg_reachable_inv: "msg_reachable st \<Longrightarrow> msg_inv st"
  unfolding msg_reachable_def by (induction rule: rtranclp_induct) (auto intro: msg_inv_init msg_step_inv)

definition msg_runs :: "(msg_state \<Rightarrow> msg_state) \<Rightarrow> bool" where
  "msg_runs f \<longleftrightarrow> (\<forall>st. msg_step\<^sup>*\<^sup>* st (f st))"

lemma msg_runs_inv:
  assumes "msg_runs f" "msg_inv st"
  shows "msg_inv (f st)"
proof -
  have "msg_step\<^sup>*\<^sup>* st (f st)" using assms(1) by (simp add: msg_runs_def)
  then show ?thesis using assms(2) by (induction rule: rtranclp_induct) (auto intro: msg_step_inv)
qed

section \<open>Properties\<close>

text \<open>
  C12. Type-selective receive. When \<open>msgrcv\<close> returns a message, having slept
  while other callers ran, then at the moment it took it the queue held that
  message at the first position, in arrival order, of those that match the
  requested type (any type for 0, exactly the type when positive, and for a
  negative type those of the lowest type not above its absolute value); the
  caller gets its bytes, cut to the buffer, and the queue keeps all others in
  order.
\<close>

theorem sysv_msgrcv_selects:
  assumes "msg_reachable st" "\<And>w. w \<in> set ws \<Longrightarrow> msg_runs (snd w)"
    "sysv_msgrcv x msqid msgtyp n flg ws st = (Done (Inr (bytes, t)), st')"
  shows "\<exists>i\<le>length ws. \<exists>k body.
    (let before = queue_messages (g_queues (slept (take i ws) st) (nat msqid)) in
       k < length before \<and> before ! k = (t, body) \<and> bytes = take n body
       \<and> selects msgtyp before k \<and> (\<forall>j<k. \<not> selects msgtyp before j)
       \<and> queue_messages (g_queues st' (nat msqid)) = take k before @ drop (Suc k) before)"
proof -
  have "\<exists>i\<le>length ws. msg_inv (slept (take i ws) st)
      \<and> msgrcv_try x msqid msgtyp n flg (slept (take i ws) st) = (Some (Inr (bytes, t)), st')"
    by (rule rcvq.blocking_returned [OF msg_reachable_inv [OF assms(1)]])
       (use assms(2,3) msg_runs_inv in \<open>auto simp: sysv_msgrcv_def\<close>)
  then obtain i where i: "i \<le> length ws" and inv: "msg_inv (slept (take i ws) st)"
    and attempt: "msgrcv_try x msqid msgtyp n flg (slept (take i ws) st) = (Some (Inr (bytes, t)), st')"
    by blast
  define s where "s = slept (take i ws) st"
  let ?q = "g_queues s (nat msqid)"
  from attempt [folded s_def] show ?thesis
  proof (cases rule: msgrcv_try_cases)
    case (got m q')
    have ok: "msgq_ok ?q" using msg_id_valid_ok inv got(1) by (simp add: s_def)
    obtain k where k: "k < length (queue_messages ?q)" "pick msgtyp (queue_messages ?q) = Some k"
      "m = queue_messages ?q ! k" "queue_messages q' = drop_nth k (queue_messages ?q)"
      using msgq_get_law [OF ok got(3)] by auto
    obtain b where b: "msg_select msgtyp ?q = Some b" "m = slot_message ?q b"
      using got(3) by (auto simp: msgq_get_def)
    have "me_size (q_msgs ?q b) = length (snd m)"
      using ok msg_select_Some(1,2) [OF b(1)] b(2) by (auto simp: msgq_ok_def candidate_def slot_message_def)
    then have "bytes = take n (snd m)" "t = fst m" using got(5) b(1) by (auto simp: min_def)
    moreover have "g_queues st' (nat msqid) = q'" by (simp add: got(4) set_queue_def)
    ultimately have "k < length (queue_messages ?q) \<and> queue_messages ?q ! k = (t, snd m) \<and> bytes = take n (snd m)
        \<and> selects msgtyp (queue_messages ?q) k \<and> (\<forall>j<k. \<not> selects msgtyp (queue_messages ?q) j)
        \<and> queue_messages (g_queues st' (nat msqid)) = take k (queue_messages ?q) @ drop (Suc k) (queue_messages ?q)"
      using k by (auto simp: pick_def first_slot_Some_iff drop_nth_def)
    then show ?thesis using i unfolding s_def Let_def by blast
  qed blast
qed

text \<open>
  C13. A queue loses and invents no message: through any sequence of sends and
  receives, the messages received and those still queued are together, as a
  multiset, those first queued and those accepted; and when every receive asks
  for any type, they come out in the order they were sent.
\<close>

theorem msgq_conserves_in_order:
  assumes "msgq_ok q" "\<And>m. Put m \<in> set ops \<Longrightarrow> length (snd m) \<le> MSGMAX"
    "mail_run (msgq_put x) (msgq_get x) ops q = (accepted, received, q')"
  shows "mset received + mset (queue_messages q') = mset (queue_messages q) + mset accepted
    \<and> ((\<forall>s. Get s \<in> set ops \<longrightarrow> s = 0) \<longrightarrow> received @ queue_messages q' = queue_messages q @ accepted)"
  using msgq.mail_run_conserves [OF assms] msgq.mail_run_in_order [OF assms(1,2) _ assms(3)] by blast

text \<open>
  C14. In every reachable state the byte count of a queue is the sum of the
  sizes of its messages and never exceeds 32 messages of 4096 bytes, so the
  64-bit additions of the capacity check cannot wrap around.
\<close>

theorem msgq_accounting:
  assumes "msg_reachable st" "i < MSGMNI" "q_used (g_queues st i)" "length body \<le> MSGMAX"
  shows "unat (q_cbytes (g_queues st i)) = sum_list (map (\<lambda>m. length (snd m)) (queue_messages (g_queues st i)))
    \<and> length (queue_messages (g_queues st i)) \<le> MSGTQL
    \<and> unat (q_cbytes (g_queues st i) + of_nat (length body)) = unat (q_cbytes (g_queues st i)) + length body"
proof -
  let ?q = "g_queues st i"
  have ok: "msgq_ok ?q" using msg_reachable_inv [OF assms(1)] assms(2,3) by (simp add: msg_inv_def)
  have "sum_list (map (\<lambda>m. length (snd m)) (queue_messages ?q)) = sum_list (map (\<lambda>j. length (me_text (q_msgs ?q j))) (arrivals ?q))"
    by (simp add: queue_messages_def slot_message_def comp_def)
  also have "\<dots> = sum (\<lambda>j. length (me_text (q_msgs ?q j))) (set (arrivals ?q))"
    by (intro sum_list_distinct_conv_sum_set) (simp add: arrivals_def used_slots_def)
  also have "\<dots> = sum (\<lambda>j. me_size (q_msgs ?q j)) (set (arrivals ?q))"
    using ok by (intro sum.cong) (auto simp: set_arrivals msgq_ok_def)
  also have "\<dots> = queued_bytes ?q"
    unfolding queued_bytes_def set_arrivals by (subst sum.inter_filter [symmetric]) (auto simp: lessThan_def)
  finally have "unat (q_cbytes ?q) = sum_list (map (\<lambda>m. length (snd m)) (queue_messages ?q))"
    using ok by (simp add: msgq_ok_def)
  moreover have "length (arrivals ?q) \<le> MSGTQL"
    using length_filter_le [of "\<lambda>i. me_used (q_msgs ?q i)" "[0..<MSGTQL]"] by (simp add: arrivals_def used_slots_def)
  ultimately show ?thesis using msg_insert_no_overflow [OF ok assms(4)] by simp
qed

section \<open>A concrete run\<close>

text \<open>The kernel itself (no credential) makes a queue and sends two messages.\<close>

definition example_queue :: msg_state where
  "example_queue =
     snd (msgsnd_try example_ctx 0 2 [7, 8] (snd (msgsnd_try example_ctx 0 5 [9]
       (snd (sysv_msgget example_ctx 0 0x1B6 (sysv_ipc_init 0))))))"

lemma example_queue_reachable: "msg_reachable example_queue"
proof -
  have "msg_step (sysv_ipc_init 0) (snd (sysv_msgget example_ctx 0 0x1B6 (sysv_ipc_init 0)))"
    by (rule step_get)
  moreover have "length [9 :: u8] \<le> MSGMAX" "length [7, 8 :: u8] \<le> MSGMAX" by (simp_all add: MSGMAX_def)
  ultimately show ?thesis
    unfolding msg_reachable_def example_queue_def
    by (meson step_snd rtranclp.rtrancl_into_rtrancl rtranclp.rtrancl_refl)
qed

definition example_table :: "msg_entry table" where
  "example_table = (\<lambda>_. msg_entry_zero)
     (0 := \<lparr>me_used = True, me_type = 5, me_size = 1, me_seq = 0, me_text = [9]\<rparr>,
      1 := \<lparr>me_used = True, me_type = 2, me_size = 2, me_seq = 1, me_text = [7, 8]\<rparr>)"

lemma example_ctx_simps:
  "x_cred example_ctx = None" "x_ipc_ns example_ctx = 0" "x_time example_ctx = 0" "x_pid example_ctx = 1"
  by (simp_all add: example_ctx_def)

lemma example_access: "msg_access example_ctx i a st"
  by (simp add: msg_access_def ipc_check_perm_def example_ctx_simps)

lemma example_queue_0:
  "q_used (g_queues example_queue 0)" "q_ns (g_queues example_queue 0) = 0"
  "q_msgs (g_queues example_queue 0) = example_table"
proof -
  have 0: "first_slot (\<lambda>i. True) MSGMNI = Some 0" "first_slot (\<lambda>i. True) MSGTQL = Some 0"
    by (simp_all add: first_slot_Some_iff MSGMNI_def MSGTQL_def)
  have 1: "first_slot (\<lambda>i. \<not> me_used (if i = 0 then m else msg_entry_zero)) MSGTQL = Some 1"
    if "me_used m" for m
    using that by (simp add: first_slot_Some_iff MSGTQL_def msg_entry_zero_def)
  have bytes: "(of_nat (MSGMAX * MSGTQL) :: u64) = 131072" by (simp add: MSGMAX_def MSGTQL_def)
  note defs = example_queue_def sysv_msgget_def sysv_ipc_init_def msgsnd_try_def msg_insert_def
    msg_id_valid_def set_queue_def new_queue_def msg_queue_zero_def example_access example_table_def
  show "q_used (g_queues example_queue 0)" "q_ns (g_queues example_queue 0) = 0"
    "q_msgs (g_queues example_queue 0) = example_table"
    by (simp_all add: defs 0 1 bytes MSGMNI_def [THEN arg_cong, of int]
        msg_entry_zero_def [THEN arg_cong, of me_used] Let_def example_ctx_simps
        del: of_nat_mult) (simp add: numeral_2_eq_2)
qed

lemma example_arrivals: "arrivals (g_queues example_queue 0) = [0, 1]"
  by (simp add: arrivals_def used_slots_def example_queue_0 example_table_def MSGTQL_def upt_rec
      msg_entry_zero_def)

lemma example_queue_messages: "queue_messages (g_queues example_queue 0) = [(5, [9]), (2, [7, 8])]"
  by (simp add: queue_messages_def example_arrivals slot_message_def example_queue_0 example_table_def)

lemma example_receive:
  "fst (sysv_msgrcv example_ctx 0 (- 3) 1 SYSV_MSG_NOERROR [] example_queue) = Done (Inr ([7], 2))"
proof -
  have ok: "msgq_ok (g_queues example_queue 0)"
    using msg_reachable_inv [OF example_queue_reachable] example_queue_0(1) by (simp add: msg_inv_def MSGMNI_def)
  have "pick (- 3) [(5, [9]), (2, [7, 8])] = Some 1"
    by (simp add: pick_def first_slot_Some_iff selects_def msg_match_def)
  then have "msg_select (- 3) (g_queues example_queue 0) = Some 1"
    using pick_select [OF ok, of "- 3"] by (simp add: example_queue_messages example_arrivals)
  then show ?thesis
    by (simp add: sysv_msgrcv_def msgrcv_try_def msg_id_valid_def MSGMNI_def example_queue_0 example_access
        example_table_def SYSV_MSG_NOERROR_def Let_def example_ctx_simps)
qed

theorem sysv_msgrcv_selects_witness:
  "fst (sysv_msgrcv example_ctx 0 (- 3) 1 SYSV_MSG_NOERROR [] example_queue) = Done (Inr ([7], 2))
   \<and> queue_messages (g_queues (snd (sysv_msgrcv example_ctx 0 (- 3) 1 SYSV_MSG_NOERROR [] example_queue)) 0)
       = [(5, [9])]"
proof -
  let ?r = "sysv_msgrcv example_ctx 0 (- 3) 1 SYSV_MSG_NOERROR [] example_queue"
  have r: "?r = (Done (Inr ([7], 2)), snd ?r)" using example_receive by (simp add: prod_eq_iff)
  obtain k body where "k < Suc (Suc 0)" "[(5 :: u64, [9 :: u8]), (2, [7, 8])] ! k = (2, body)"
    "queue_messages (g_queues (snd ?r) 0) = take k [(5, [9]), (2, [7, 8])] @ drop (Suc k) [(5, [9]), (2, [7, 8])]"
    using sysv_msgrcv_selects [OF example_queue_reachable _ r] example_arrivals
    by (auto simp: Let_def slept_def example_queue_messages)
  then show ?thesis using example_receive by (cases k) auto
qed

theorem msgq_conserves_in_order_witness:
  "case mail_run (msgq_put example_ctx) (msgq_get example_ctx) [Get 0, Get 0] (g_queues example_queue 0) of
     (accepted, received, q') \<Rightarrow> received @ queue_messages q' = [(5, [9]), (2, [7, 8])] @ accepted"
proof -
  let ?q = "g_queues example_queue 0"
  have ok: "msgq_ok ?q"
    using msg_reachable_inv [OF example_queue_reachable] example_queue_0(1) by (simp add: msg_inv_def MSGMNI_def)
  obtain a r q' where run: "mail_run (msgq_put example_ctx) (msgq_get example_ctx) [Get 0, Get 0] ?q = (a, r, q')"
    by (metis prod_cases3)
  show ?thesis
    using msgq_conserves_in_order [OF ok _ run] unfolding run by (auto simp: example_queue_messages)
qed

theorem msgq_accounting_witness:
  "unat (q_cbytes (g_queues example_queue 0)) = 3"
proof -
  show ?thesis
    using msgq_accounting [OF example_queue_reachable _ example_queue_0(1), of "[]"]
    by (simp add: MSGMNI_def example_queue_messages)
qed

end
