(* ===== verification/SysvSem.thy ===== *)
theory SysvSem
  imports IpcPerm
begin

text \<open>
  System V semaphores: \<^verbatim>\<open>kernel/ipc/sysv_sem.c\<close>. The state is the table of sets
  and the table of undo entries, both of fixed size. Values are 16-bit words,
  the snapshot an operation array is tried on is a table of integers (the
  \<open>i32\<close> sums of the code cannot overflow: they add a 16-bit value and a
  16-bit operation), and an undo adjustment is a 32-bit word read as signed.
  The lemmas show that an operation array applies as a whole or not at all,
  that values stay within their limit, and that an exiting task gives its
  adjustments back.
\<close>

definition SEMMNI :: nat where "SEMMNI = 32"
definition SEMMSL :: nat where "SEMMSL = 32"
definition SEMVMX :: int where "SEMVMX = 32767"
definition SEM_UNDO :: u16 where "SEM_UNDO = 0x1000"
definition SEM_NOWAIT :: u16 where "SEM_NOWAIT = 0x800"
definition SEM_UNDO_MAX :: nat where "SEM_UNDO_MAX = 64"

record sem_slot =
  ss_used :: bool
  ss_key :: u32
  ss_ns :: nat
  ss_nsems :: nat
  ss_vals :: "u16 table"
  ss_pid :: "nat table"
  ss_ncnt :: "nat table"
  ss_zcnt :: "nat table"
  ss_perm :: ipc_perm
  ss_otime :: u64
  ss_ctime :: u64

record sem_undo =
  su_used :: bool
  su_pid :: nat
  su_semid :: nat
  su_semnum :: nat
  su_adjust :: u32

record sem_state =
  g_sets :: "sem_slot table"
  g_undo :: "sem_undo table"
  g_sem_seq :: u16

record sysv_sembuf =
  sb_num :: u16
  sb_op :: u16
  sb_flg :: u16

record sysv_semid_info =
  si_perm :: ipc_perm
  si_otime :: u64
  si_ctime :: u64
  si_nsems :: nat

definition sem_slot_zero :: sem_slot where
  "sem_slot_zero = \<lparr>ss_used = False, ss_key = 0, ss_ns = 0, ss_nsems = 0, ss_vals = (\<lambda>_. 0),
     ss_pid = (\<lambda>_. 0), ss_ncnt = (\<lambda>_. 0), ss_zcnt = (\<lambda>_. 0), ss_perm = ipc_perm_zero,
     ss_otime = 0, ss_ctime = 0\<rparr>"

definition sem_undo_zero :: sem_undo where
  "sem_undo_zero = \<lparr>su_used = False, su_pid = 0, su_semid = 0, su_semnum = 0, su_adjust = 0\<rparr>"

definition sem_boot :: sem_state where
  "sem_boot = \<lparr>g_sets = (\<lambda>_. sem_slot_zero), g_undo = (\<lambda>_. sem_undo_zero), g_sem_seq = 0\<rparr>"

definition set_sem :: "nat \<Rightarrow> sem_slot \<Rightarrow> sem_state \<Rightarrow> sem_state" where
  "set_sem i s st = st\<lparr>g_sets := (g_sets st)(i := s)\<rparr>"

definition sem_id_valid :: "ipc_ctx \<Rightarrow> int \<Rightarrow> sem_state \<Rightarrow> bool" where
  "sem_id_valid x semid st \<longleftrightarrow>
     0 \<le> semid \<and> semid < int SEMMNI \<and> ss_used (g_sets st (nat semid)) \<and> ss_ns (g_sets st (nat semid)) = x_ipc_ns x"

definition sem_may_control :: "ipc_ctx \<Rightarrow> sem_slot \<Rightarrow> bool" where
  "sem_may_control x s = ipc_may_control x (ss_perm s) (ss_ns s)"

definition sem_access :: "ipc_ctx \<Rightarrow> nat \<Rightarrow> u16 \<Rightarrow> sem_state \<Rightarrow> bool" where
  "sem_access x i acc st \<longleftrightarrow> ipc_check_perm x (ss_perm (g_sets st i)) (ss_ns (g_sets st i)) acc = Inr ()"

definition new_sem :: "ipc_ctx \<Rightarrow> u32 \<Rightarrow> nat \<Rightarrow> u32 \<Rightarrow> u16 \<Rightarrow> sem_slot" where
  "new_sem x key nsems semflg seq =
     (let euid = (case x_cred x of None \<Rightarrow> 0 | Some c \<Rightarrow> c_euid c);
          egid = (case x_cred x of None \<Rightarrow> 0 | Some c \<Rightarrow> c_egid c)
      in sem_slot_zero\<lparr>ss_used := True, ss_key := key, ss_ns := x_ipc_ns x, ss_nsems := nsems,
           ss_perm := \<lparr>ip_uid = euid, ip_gid = egid, ip_cuid = euid, ip_cgid = egid,
                       ip_mode = ucast (semflg AND 0x1FF), ip_seq = seq, ip_key = key\<rparr>,
           ss_ctime := x_time x\<rparr>)"

definition sysv_semget :: "ipc_ctx \<Rightarrow> u32 \<Rightarrow> int \<Rightarrow> u32 \<Rightarrow> sem_state \<Rightarrow> nat result \<times> sem_state" where
  "sysv_semget x key nsems semflg st =
     (if nsems < 0 \<or> nsems > int SEMMSL then (Inl EINVAL, st)
      else let found = (if key = 0 then None
                        else first_slot (\<lambda>i. ss_used (g_sets st i) \<and> ss_ns (g_sets st i) = x_ipc_ns x
                                             \<and> ss_key (g_sets st i) = key) SEMMNI)
      in case found of
           Some i \<Rightarrow>
             if semflg AND IPC_CREAT \<noteq> 0 \<and> semflg AND IPC_EXCL \<noteq> 0 then (Inl EEXIST, st)
             else if \<not> sem_access x i (ucast (semflg AND 0x1FF)) st then (Inl EACCES, st)
             else if nsems > 0 \<and> nat nsems > ss_nsems (g_sets st i) then (Inl EINVAL, st)
             else (Inr i, st)
         | None \<Rightarrow>
             if key \<noteq> 0 \<and> semflg AND IPC_CREAT = 0 then (Inl ENOENT, st)
             else if nsems = 0 then (Inl EINVAL, st)
             else (case first_slot (\<lambda>i. \<not> ss_used (g_sets st i)) SEMMNI of
                     None \<Rightarrow> (Inl ENOSPC, st)
                   | Some i \<Rightarrow>
                       (Inr i, (set_sem i (new_sem x key (nat nsems) semflg (g_sem_seq st)) st)
                                 \<lparr>g_sem_seq := g_sem_seq st + 1\<rparr>)))"

section \<open>Undo entries\<close>

definition undo_is :: "nat \<Rightarrow> nat \<Rightarrow> nat \<Rightarrow> sem_undo \<Rightarrow> bool" where
  "undo_is pid semid semnum u \<longleftrightarrow> su_used u \<and> su_pid u = pid \<and> su_semid u = semid \<and> su_semnum u = semnum"

definition undo_record :: "nat \<Rightarrow> nat \<Rightarrow> nat \<Rightarrow> u32 \<Rightarrow> sem_undo table \<Rightarrow> sem_undo table" where
  "undo_record pid semid semnum adjust t =
     (case first_slot (\<lambda>i. undo_is pid semid semnum (t i)) SEM_UNDO_MAX of
        Some i \<Rightarrow>
          let a = su_adjust (t i) - adjust in t(i := (t i)\<lparr>su_adjust := a, su_used := (a \<noteq> 0)\<rparr>)
      | None \<Rightarrow>
          if adjust = 0 then t
          else (case first_slot (\<lambda>i. \<not> su_used (t i)) SEM_UNDO_MAX of
                  None \<Rightarrow> t
                | Some i \<Rightarrow> t(i := \<lparr>su_used = True, su_pid = pid, su_semid = semid, su_semnum = semnum,
                                  su_adjust = - adjust\<rparr>)))"

definition undo_clear :: "(sem_undo \<Rightarrow> bool) \<Rightarrow> sem_undo table \<Rightarrow> sem_undo table" where
  "undo_clear P t = (\<lambda>i. if i < SEM_UNDO_MAX \<and> su_used (t i) \<and> P (t i) then (t i)\<lparr>su_used := False\<rparr> else t i)"

section \<open>Operation arrays\<close>

datatype sem_trial = Applied "int table" | MustWait | Refused errno

text \<open>The loop that tries the operations on a snapshot of the values.\<close>

fun try_loop :: "nat \<Rightarrow> sysv_sembuf list \<Rightarrow> int table \<Rightarrow> sem_trial" where
  "try_loop nsems [] nxt = Applied nxt"
| "try_loop nsems (b # bs) nxt =
     (let n = unat (sb_num b); opn = sint (sb_op b);
          blk = (if sb_flg b AND SEM_NOWAIT \<noteq> 0 then Refused EAGAIN else MustWait) in
      if n \<ge> nsems then Refused EFBIG
      else if opn = 0 then (if nxt n \<noteq> 0 then blk else try_loop nsems bs nxt)
      else if opn > 0 then
        (if nxt n + opn > SEMVMX then Refused ERANGE else try_loop nsems bs (nxt(n := nxt n + opn)))
      else (if nxt n + opn < 0 then blk else try_loop nsems bs (nxt(n := nxt n + opn))))"

definition commit_op :: "nat \<Rightarrow> nat \<Rightarrow> sysv_sembuf \<Rightarrow> sem_state \<Rightarrow> sem_state" where
  "commit_op pid semid b st =
     (let s = g_sets st semid; n = unat (sb_num b);
          st1 = set_sem semid (s\<lparr>ss_pid := (ss_pid s)(n := pid)\<rparr>) st
      in if sb_flg b AND SEM_UNDO \<noteq> 0
         then st1\<lparr>g_undo := undo_record pid semid n (scast (sb_op b)) (g_undo st1)\<rparr> else st1)"

text \<open>The result is \<open>Some (Inr ())\<close> when the array was applied, \<^term>\<open>None\<close> when it must wait.\<close>

definition sem_try_ops :: "ipc_ctx \<Rightarrow> nat \<Rightarrow> sysv_sembuf list \<Rightarrow> sem_state \<Rightarrow> unit result option \<times> sem_state" where
  "sem_try_ops x semid ops st =
     (let s = g_sets st semid in
      case try_loop (ss_nsems s) ops (\<lambda>i. int (unat (ss_vals s i))) of
        Refused e \<Rightarrow> (Some (Inl e), st)
      | MustWait \<Rightarrow> (None, st)
      | Applied nxt \<Rightarrow>
          let st1 = set_sem semid
                (s\<lparr>ss_vals := (\<lambda>i. if i < ss_nsems s then word_of_int (nxt i) else ss_vals s i)\<rparr>) st;
              st2 = fold (commit_op (unat (x_pid x)) semid) ops st1
          in (Some (Inr ()), set_sem semid ((g_sets st2 semid)\<lparr>ss_otime := x_time x\<rparr>) st2))"

definition semop_try :: "ipc_ctx \<Rightarrow> int \<Rightarrow> sysv_sembuf list \<Rightarrow> sem_state \<Rightarrow> unit result option \<times> sem_state" where
  "semop_try x semid ops st =
     (if \<not> sem_id_valid x semid st then (Some (Inl EINVAL), st)
      else if \<not> sem_access x (nat semid) (if list_ex (\<lambda>b. sb_op b \<noteq> 0) ops then 0x80 else 0x100) st
      then (Some (Inl EACCES), st)
      else sem_try_ops x (nat semid) ops st)"

text \<open>The waiter counts around a sleep.\<close>

definition count_wait :: "sysv_sembuf \<Rightarrow> sem_slot \<Rightarrow> sem_slot" where
  "count_wait b s =
     (let n = unat (sb_num b) in
      if n < ss_nsems s then
        (if sb_op b = 0 then s\<lparr>ss_zcnt := (ss_zcnt s)(n := ss_zcnt s n + 1)\<rparr>
         else if sint (sb_op b) < 0 then s\<lparr>ss_ncnt := (ss_ncnt s)(n := ss_ncnt s n + 1)\<rparr> else s)
      else s)"

definition uncount_wait :: "sysv_sembuf \<Rightarrow> sem_slot \<Rightarrow> sem_slot" where
  "uncount_wait b s =
     (let n = unat (sb_num b) in
      if n \<ge> ss_nsems s then s
      else if sb_op b = 0 \<and> ss_zcnt s n \<noteq> 0 then s\<lparr>ss_zcnt := (ss_zcnt s)(n := ss_zcnt s n - 1)\<rparr>
      else if sint (sb_op b) < 0 \<and> ss_ncnt s n \<noteq> 0 then s\<lparr>ss_ncnt := (ss_ncnt s)(n := ss_ncnt s n - 1)\<rparr>
      else s)"

text \<open>
  One sleep: whether a signal is pending, what the rest of the system does
  until the caller holds the lock again, and whether the deadline has passed
  by then.
\<close>

type_synonym sem_sleep = "bool \<times> (sem_state \<Rightarrow> sem_state) \<times> bool"

fun semop_loop ::
    "ipc_ctx \<Rightarrow> int \<Rightarrow> sysv_sembuf list \<Rightarrow> bool \<Rightarrow> sem_sleep list \<Rightarrow> sem_state \<Rightarrow> unit outcome \<times> sem_state" where
  "semop_loop x semid ops timed [] st =
     (case semop_try x semid ops st of
        (Some r, st') \<Rightarrow> (Done r, st')
      | (None, st') \<Rightarrow>
          (Blocked, set_sem (nat semid) (fold count_wait ops (g_sets st' (nat semid))) st'))"
| "semop_loop x semid ops timed ((pending, env, expired) # ws) st =
     (case semop_try x semid ops st of
        (Some r, st') \<Rightarrow> (Done r, st')
      | (None, st') \<Rightarrow>
          let st1 = env (set_sem (nat semid) (fold count_wait ops (g_sets st' (nat semid))) st') in
          if \<not> sem_id_valid x semid st1 then (Done (Inl EIDRM), st1)
          else let st2 = set_sem (nat semid) (fold uncount_wait ops (g_sets st1 (nat semid))) st1 in
            if pending then (Done (Inl ERESTARTNOHAND), st2)
            else if timed \<and> expired then (Done (Inl EAGAIN), st2)
            else semop_loop x semid ops timed ws st2)"

text \<open>\<open>timed\<close> is \<open>timeout_ms >= 0\<close>.\<close>

definition sysv_semop ::
    "ipc_ctx \<Rightarrow> int \<Rightarrow> sysv_sembuf list \<Rightarrow> bool \<Rightarrow> sem_sleep list \<Rightarrow> sem_state \<Rightarrow> unit outcome \<times> sem_state" where
  "sysv_semop x semid ops timed ws st =
     (if ops = [] \<or> length ops > SEMMSL then (Done (Inl EINVAL), st)
      else semop_loop x semid ops timed ws st)"

section \<open>Control\<close>

definition sem_info :: "sem_slot \<Rightarrow> sysv_semid_info" where
  "sem_info s = \<lparr>si_perm = ss_perm s, si_otime = ss_otime s, si_ctime = ss_ctime s, si_nsems = ss_nsems s\<rparr>"

definition sysv_semctl_stat :: "ipc_ctx \<Rightarrow> int \<Rightarrow> sem_state \<Rightarrow> sysv_semid_info result" where
  "sysv_semctl_stat x semid st =
     (if \<not> sem_id_valid x semid st then Inl EINVAL
      else if \<not> sem_access x (nat semid) 0x100 st then Inl EACCES
      else Inr (sem_info (g_sets st (nat semid))))"

definition sysv_semctl_set :: "ipc_ctx \<Rightarrow> int \<Rightarrow> u32 \<Rightarrow> u32 \<Rightarrow> u16 \<Rightarrow> sem_state \<Rightarrow> unit result \<times> sem_state" where
  "sysv_semctl_set x semid uid gid mode st =
     (if \<not> sem_id_valid x semid st then (Inl EINVAL, st)
      else let s = g_sets st (nat semid) in
        if \<not> sem_may_control x s then (Inl EPERM, st)
        else (Inr (), set_sem (nat semid)
               (s\<lparr>ss_perm := (ss_perm s)\<lparr>ip_uid := uid, ip_gid := gid, ip_mode := mode AND 0x1FF\<rparr>,
                  ss_ctime := x_time x\<rparr>) st))"

definition drop_set :: "nat \<Rightarrow> sem_state \<Rightarrow> sem_state" where
  "drop_set i st = (set_sem i ((g_sets st i)\<lparr>ss_used := False\<rparr>) st)
     \<lparr>g_undo := undo_clear (\<lambda>u. su_semid u = i) (g_undo st)\<rparr>"

definition sysv_semctl_rmid :: "ipc_ctx \<Rightarrow> int \<Rightarrow> sem_state \<Rightarrow> unit result \<times> sem_state" where
  "sysv_semctl_rmid x semid st =
     (if \<not> sem_id_valid x semid st then (Inl EINVAL, st)
      else if \<not> sem_may_control x (g_sets st (nat semid)) then (Inl EPERM, st)
      else (Inr (), drop_set (nat semid) st))"

definition sem_peek :: "ipc_ctx \<Rightarrow> int \<Rightarrow> int \<Rightarrow> (sem_slot \<Rightarrow> nat \<Rightarrow> 'a) \<Rightarrow> sem_state \<Rightarrow> 'a result" where
  "sem_peek x semid semnum f st =
     (if sem_id_valid x semid st \<and> \<not> sem_access x (nat semid) 0x100 st then Inl EACCES
      else if sem_id_valid x semid st \<and> 0 \<le> semnum \<and> nat semnum < ss_nsems (g_sets st (nat semid))
      then Inr (f (g_sets st (nat semid)) (nat semnum))
      else Inl EINVAL)"

definition sysv_semctl_getval :: "ipc_ctx \<Rightarrow> int \<Rightarrow> int \<Rightarrow> sem_state \<Rightarrow> u16 result" where
  "sysv_semctl_getval x semid semnum st = sem_peek x semid semnum ss_vals st"

definition sysv_semctl_getcnt :: "ipc_ctx \<Rightarrow> int \<Rightarrow> int \<Rightarrow> bool \<Rightarrow> sem_state \<Rightarrow> nat result" where
  "sysv_semctl_getcnt x semid semnum want_zero st =
     sem_peek x semid semnum (if want_zero then ss_zcnt else ss_ncnt) st"

definition sysv_semctl_getpid :: "ipc_ctx \<Rightarrow> int \<Rightarrow> int \<Rightarrow> sem_state \<Rightarrow> nat result" where
  "sysv_semctl_getpid x semid semnum st = sem_peek x semid semnum ss_pid st"

definition sysv_semctl_setval :: "ipc_ctx \<Rightarrow> int \<Rightarrow> int \<Rightarrow> int \<Rightarrow> sem_state \<Rightarrow> unit result \<times> sem_state" where
  "sysv_semctl_setval x semid semnum val st =
     (if val < 0 \<or> val > SEMVMX then (Inl ERANGE, st)
      else if \<not> sem_id_valid x semid st \<or> semnum < 0 \<or> nat semnum \<ge> ss_nsems (g_sets st (nat semid))
      then (Inl EINVAL, st)
      else if \<not> sem_access x (nat semid) 0x80 st then (Inl EACCES, st)
      else let s = g_sets st (nat semid) in
        (Inr (),
         (set_sem (nat semid)
            (s\<lparr>ss_vals := (ss_vals s)(nat semnum := word_of_int val), ss_ctime := x_time x\<rparr>) st)
           \<lparr>g_undo := undo_clear (\<lambda>u. su_semid u = nat semid \<and> su_semnum u = nat semnum) (g_undo st)\<rparr>))"

definition sysv_semctl_getall :: "ipc_ctx \<Rightarrow> int \<Rightarrow> nat \<Rightarrow> sem_state \<Rightarrow> u16 list result" where
  "sysv_semctl_getall x semid count st =
     (if \<not> sem_id_valid x semid st \<or> count < ss_nsems (g_sets st (nat semid)) then Inl EINVAL
      else if \<not> sem_access x (nat semid) 0x100 st then Inl EACCES
      else let s = g_sets st (nat semid) in Inr (map (ss_vals s) [0..<ss_nsems s]))"

definition sysv_semctl_setall :: "ipc_ctx \<Rightarrow> int \<Rightarrow> u16 list \<Rightarrow> sem_state \<Rightarrow> unit result \<times> sem_state" where
  "sysv_semctl_setall x semid vals st =
     (if \<not> sem_id_valid x semid st \<or> length vals < ss_nsems (g_sets st (nat semid)) then (Inl EINVAL, st)
      else if \<not> sem_access x (nat semid) 0x80 st then (Inl EACCES, st)
      else let s = g_sets st (nat semid) in
        if list_ex (\<lambda>v. int (unat v) > SEMVMX) (take (ss_nsems s) vals) then (Inl ERANGE, st)
        else (Inr (),
              (set_sem (nat semid)
                 (s\<lparr>ss_vals := (\<lambda>i. if i < ss_nsems s then vals ! i else ss_vals s i), ss_ctime := x_time x\<rparr>) st)
                \<lparr>g_undo := undo_clear (\<lambda>u. su_semid u = nat semid) (g_undo st)\<rparr>))"

text \<open>
  Giving one undo entry back, at the exit of task \<open>pid\<close>; the second
  component is the set whose sleepers are woken at the end, if any.
\<close>

definition undo_apply :: "u32 \<Rightarrow> u16 \<Rightarrow> u16" where
  "undo_apply adjust v =
     (let w = sint (ucast v + adjust) in
      if w < 0 then 0 else if w > SEMVMX then word_of_int SEMVMX else word_of_int w)"

definition cleanup_entry :: "ipc_ctx \<Rightarrow> nat \<Rightarrow> nat \<Rightarrow> sem_state \<times> nat option \<Rightarrow> sem_state \<times> nat option" where
  "cleanup_entry x pid i stw =
     (let st = fst stw; u = g_undo st i in
      if \<not> su_used u \<or> su_pid u \<noteq> pid then stw
      else let semid = su_semid u; n = su_semnum u; s = g_sets st semid;
               hit = (sem_id_valid x (int semid) st \<and> n < ss_nsems s);
               st1 = (if hit then set_sem semid
                         (s\<lparr>ss_vals := (ss_vals s)(n := undo_apply (su_adjust u) (ss_vals s n))\<rparr>) st else st)
        in (st1\<lparr>g_undo := (g_undo st1)(i := u\<lparr>su_used := False\<rparr>)\<rparr>, if hit then Some semid else snd stw))"

definition sysv_sem_task_cleanup :: "ipc_ctx \<Rightarrow> nat \<Rightarrow> sem_state \<Rightarrow> sem_state \<times> nat option" where
  "sysv_sem_task_cleanup x pid st = fold (cleanup_entry x pid) [0..<SEM_UNDO_MAX] (st, None)"

definition sysv_sem_stat_index :: "ipc_ctx \<Rightarrow> int \<Rightarrow> sem_state \<Rightarrow> sysv_semid_info result" where
  "sysv_sem_stat_index x idx st =
     (if sem_id_valid x idx st then Inr (sem_info (g_sets st (nat idx))) else Inl EINVAL)"

definition sysv_sem_ns_destroy :: "nat \<Rightarrow> sem_state \<Rightarrow> sem_state" where
  "sysv_sem_ns_destroy ns st =
     fold (\<lambda>i st. if ss_used (g_sets st i) \<and> ss_ns (g_sets st i) = ns then drop_set i st else st)
       [0..<SEMMNI] st"

section \<open>An operation array applies as a whole\<close>

definition net_op :: "sysv_sembuf list \<Rightarrow> nat \<Rightarrow> int" where
  "net_op ops n = sum_list (map (\<lambda>b. if unat (sb_num b) = n then sint (sb_op b) else 0) ops)"

definition in_range :: "nat \<Rightarrow> int table \<Rightarrow> bool" where
  "in_range nsems v \<longleftrightarrow> (\<forall>n<nsems. 0 \<le> v n \<and> v n \<le> SEMVMX)"

lemma net_op_simps [simp]:
  "net_op [] n = 0"
  "net_op (b # bs) n = (if unat (sb_num b) = n then sint (sb_op b) else 0) + net_op bs n"
  by (simp_all add: net_op_def)

lemma try_loop_applied:
  assumes "try_loop nsems ops nxt = Applied nxt'"
  shows "(\<forall>b\<in>set ops. unat (sb_num b) < nsems) \<and> (\<forall>n. nxt' n = nxt n + net_op ops n)
    \<and> (in_range nsems nxt \<longrightarrow> in_range nsems nxt')"
  using assms
proof (induction ops arbitrary: nxt)
  case (Cons b bs)
  let ?n = "unat (sb_num b)" and ?o = "sint (sb_op b)"
  have n: "?n < nsems" using Cons.prems by (auto simp: Let_def split: if_splits)
  have step: "try_loop nsems bs (nxt(?n := nxt ?n + ?o)) = Applied nxt'"
    and range: "?o \<noteq> 0 \<longrightarrow> (?o > 0 \<longrightarrow> nxt ?n + ?o \<le> SEMVMX) \<and> (?o < 0 \<longrightarrow> 0 \<le> nxt ?n + ?o)"
    using Cons.prems n by (auto simp: Let_def split: if_splits)
  have "in_range nsems (nxt(?n := nxt ?n + ?o))" if "in_range nsems nxt"
    using that range n by (cases "?o = 0"; cases "?o > 0") (auto simp: in_range_def)
  then show ?case using Cons.IH [OF step] n by (auto simp: fun_upd_def)
qed simp

section \<open>Undo entries\<close>

definition undo_uniq :: "sem_undo table \<Rightarrow> bool" where
  "undo_uniq t \<longleftrightarrow> (\<forall>i<SEM_UNDO_MAX. \<forall>j<SEM_UNDO_MAX. su_used (t i) \<longrightarrow>
     undo_is (su_pid (t i)) (su_semid (t i)) (su_semnum (t i)) (t j) \<longrightarrow> i = j)"

text \<open>The adjustment a task owes a semaphore.\<close>

definition undo_owed :: "nat \<Rightarrow> nat \<Rightarrow> nat \<Rightarrow> sem_undo table \<Rightarrow> u32" where
  "undo_owed pid semid n t = (\<Sum>i<SEM_UNDO_MAX. if undo_is pid semid n (t i) then su_adjust (t i) else 0)"

definition undo_room :: "sem_undo table \<Rightarrow> nat" where
  "undo_room t = (\<Sum>i<SEM_UNDO_MAX. if su_used (t i) then 0 else 1)"

lemma undo_owed_upd:
  assumes "i < SEM_UNDO_MAX"
  shows "undo_owed pid semid n (t(i := u)) =
    undo_owed pid semid n t - (if undo_is pid semid n (t i) then su_adjust (t i) else 0)
      + (if undo_is pid semid n u then su_adjust u else 0)"
  unfolding undo_owed_def
  by (rule sum_table_upd_group [where f = "\<lambda>v. if undo_is pid semid n v then su_adjust v else 0", OF assms])

lemma undo_room_upd:
  assumes "i < SEM_UNDO_MAX"
  shows "undo_room (t(i := u)) + (if su_used (t i) then 0 else 1) = undo_room t + (if su_used u then 0 else 1)"
  unfolding undo_room_def
  by (rule sum_table_upd [where f = "\<lambda>v. if su_used v then 0 else 1", OF assms])

lemma undo_room_pos: "0 < undo_room t \<Longrightarrow> \<exists>i. first_slot (\<lambda>i. \<not> su_used (t i)) SEM_UNDO_MAX = Some i"
  by (rule ccontr) (auto simp: undo_room_def first_slot_None_iff)

lemma undo_none_zero:
  assumes "first_slot (\<lambda>i. undo_is pid semid n (t i)) SEM_UNDO_MAX = None"
  shows "undo_owed pid semid n t = 0"
  using assms by (simp add: undo_owed_def first_slot_None_iff)

lemma undo_some_owed:
  assumes "undo_uniq t" "first_slot (\<lambda>i. undo_is pid semid n (t i)) SEM_UNDO_MAX = Some i"
  shows "undo_owed pid semid n t = su_adjust (t i)"
proof -
  note i = first_slot_SomeD(1,2) [OF assms(2)]
  have "undo_is pid semid n (t j) \<longleftrightarrow> j = i" if "j < SEM_UNDO_MAX" for j
    using assms(1) i that by (auto simp: undo_uniq_def undo_is_def)
  then have "undo_owed pid semid n t = (\<Sum>j<SEM_UNDO_MAX. if j = i then su_adjust (t j) else 0)"
    unfolding undo_owed_def by (intro sum.cong) auto
  then show ?thesis using i(1) by (simp add: sum.delta)
qed

lemma undo_uniq_upd:
  assumes "undo_uniq t"
    "\<And>j. su_used u \<Longrightarrow> j < SEM_UNDO_MAX \<Longrightarrow> j \<noteq> i \<Longrightarrow> \<not> undo_is (su_pid u) (su_semid u) (su_semnum u) (t j)"
  shows "undo_uniq (t(i := u))"
  unfolding undo_uniq_def
proof (intro allI impI)
  fix j k
  assume "j < SEM_UNDO_MAX" "k < SEM_UNDO_MAX" "su_used ((t(i := u)) j)"
    "undo_is (su_pid ((t(i := u)) j)) (su_semid ((t(i := u)) j)) (su_semnum ((t(i := u)) j)) ((t(i := u)) k)"
  note jk = this
  consider "j = i" "k = i" | "j = i" "k \<noteq> i" | "j \<noteq> i" "k = i" | "j \<noteq> i" "k \<noteq> i" by blast
  then show "j = k"
  proof cases
    case 2
    then show ?thesis using assms(2) [of k] jk by simp
  next
    case 3
    then show ?thesis using assms(2) [of j] jk by (simp add: undo_is_def)
  next
    case 4
    then show ?thesis using assms(1) jk unfolding undo_uniq_def by simp
  qed simp
qed

lemma undo_record_uniq:
  assumes "undo_uniq t"
  shows "undo_uniq (undo_record pid semid n a t)"
proof (cases "first_slot (\<lambda>i. undo_is pid semid n (t i)) SEM_UNDO_MAX")
  case None
  then have none: "\<not> undo_is pid semid n (t i)" if "i < SEM_UNDO_MAX" for i
    using that by (simp add: first_slot_None_iff)
  show ?thesis
    using assms None none by (simp add: undo_record_def undo_uniq_upd split: option.split)
next
  case (Some i)
  note i = first_slot_SomeD(1,2) [OF Some]
  have "\<not> undo_is pid semid n (t j)" if "j < SEM_UNDO_MAX" "j \<noteq> i" for j
    using assms i that by (auto simp: undo_uniq_def undo_is_def)
  then show ?thesis
    using assms Some i(2) by (simp add: undo_record_def undo_uniq_upd Let_def undo_is_def)
qed

lemma undo_record_owed:
  assumes "undo_uniq t" "0 < undo_room t"
  shows "undo_owed p s m (undo_record pid semid n a t)
    = undo_owed p s m t - (if p = pid \<and> s = semid \<and> m = n then a else 0)"
proof (cases "first_slot (\<lambda>i. undo_is pid semid n (t i)) SEM_UNDO_MAX")
  case None
  obtain j where j: "first_slot (\<lambda>i. \<not> su_used (t i)) SEM_UNDO_MAX = Some j"
    using undo_room_pos [OF assms(2)] by blast
  note j' = first_slot_SomeD(1,2) [OF j]
  show ?thesis
    using None j j' by (auto simp: undo_record_def undo_owed_upd undo_is_def)
next
  case (Some i)
  note i = first_slot_SomeD(1,2) [OF Some]
  show ?thesis
    using Some i by (auto simp: undo_record_def Let_def undo_owed_upd undo_is_def)
qed

lemma undo_record_room: "undo_room t \<le> undo_room (undo_record pid semid n a t) + 1"
proof (cases "first_slot (\<lambda>i. undo_is pid semid n (t i)) SEM_UNDO_MAX")
  case None
  show ?thesis
  proof (cases "first_slot (\<lambda>i. \<not> su_used (t i)) SEM_UNDO_MAX")
    case (Some j)
    let ?u = "\<lparr>su_used = True, su_pid = pid, su_semid = semid, su_semnum = n, su_adjust = - a\<rparr>"
    have "undo_record pid semid n a t = (if a = 0 then t else t(j := ?u))"
      by (simp add: undo_record_def None Some)
    then show ?thesis using undo_room_upd [OF first_slot_SomeD(1) [OF Some], of t ?u] by (auto split: if_splits)
  qed (simp add: undo_record_def None)
next
  case (Some i)
  note i = first_slot_SomeD(1,2) [OF Some]
  show ?thesis
    using Some i undo_room_upd [OF i(1), of t "(t i)\<lparr>su_adjust := su_adjust (t i) - a, su_used := su_adjust (t i) - a \<noteq> 0\<rparr>"]
    by (auto simp: undo_record_def Let_def undo_is_def split: if_splits)
qed

text \<open>The undo entries recorded by a committed operation array.\<close>

definition record_op :: "nat \<Rightarrow> nat \<Rightarrow> sysv_sembuf \<Rightarrow> sem_undo table \<Rightarrow> sem_undo table" where
  "record_op pid semid b t =
     (if sb_flg b AND SEM_UNDO \<noteq> 0 then undo_record pid semid (unat (sb_num b)) (scast (sb_op b)) t else t)"

lemma commit_ops:
  "g_undo (fold (commit_op pid semid) ops st) = fold (record_op pid semid) ops (g_undo st)"
  "i \<noteq> semid \<Longrightarrow> g_sets (fold (commit_op pid semid) ops st) i = g_sets st i"
  "ss_vals (g_sets (fold (commit_op pid semid) ops st) i) = ss_vals (g_sets st i)"
  "ss_nsems (g_sets (fold (commit_op pid semid) ops st) i) = ss_nsems (g_sets st i)"
  "ss_used (g_sets (fold (commit_op pid semid) ops st) i) = ss_used (g_sets st i)"
  "ss_ns (g_sets (fold (commit_op pid semid) ops st) i) = ss_ns (g_sets st i)"
  by (induction ops arbitrary: st)
     (simp_all add: commit_op_def record_op_def set_sem_def Let_def)

lemma record_ops_uniq: "undo_uniq t \<Longrightarrow> undo_uniq (fold (record_op pid semid) ops t)"
  by (induction ops arbitrary: t) (auto simp: record_op_def undo_record_uniq)

lemma record_ops_owed:
  assumes "undo_uniq t" "length ops \<le> undo_room t" "\<And>b. b \<in> set ops \<Longrightarrow> sb_flg b AND SEM_UNDO \<noteq> 0"
  shows "undo_owed pid semid n (fold (record_op pid semid) ops t) = undo_owed pid semid n t - of_int (net_op ops n)"
  using assms
proof (induction ops arbitrary: t)
  case (Cons b ops)
  let ?t = "undo_record pid semid (unat (sb_num b)) (scast (sb_op b)) t"
  have flg: "sb_flg b AND SEM_UNDO \<noteq> 0" using Cons.prems(3) by simp
  have len: "length ops \<le> undo_room ?t" "0 < undo_room t"
    using Cons.prems(2) undo_record_room [of t pid semid "unat (sb_num b)" "scast (sb_op b)"] by auto
  have 1: "undo_owed pid semid n (fold (record_op pid semid) ops ?t) = undo_owed pid semid n ?t - of_int (net_op ops n)"
    by (rule Cons.IH [OF undo_record_uniq [OF Cons.prems(1)] len(1)]) (simp add: Cons.prems(3))
  have 2: "undo_owed pid semid n ?t = undo_owed pid semid n t - (if n = unat (sb_num b) then scast (sb_op b) else 0)"
    using undo_record_owed [OF Cons.prems(1) len(2), of pid semid n pid semid] by simp
  have 3: "fold (record_op pid semid) (b # ops) t = fold (record_op pid semid) ops ?t"
    using flg by (simp add: record_op_def)
  show ?case unfolding 3 1 2 by (cases "n = unat (sb_num b)") simp_all
qed simp

section \<open>The exit of a task\<close>

lemma undo_apply_back:
  assumes "0 \<le> v" "v \<le> SEMVMX" "0 \<le> w" "w \<le> SEMVMX"
  shows "undo_apply (of_int (v - w)) (word_of_int w) = word_of_int v"
proof -
  have "uint (word_of_int w :: u16) = w"
    using assms by (simp add: unsigned_of_int take_bit_int_eq_self SEMVMX_def)
  then have "ucast (word_of_int w :: u16) = (word_of_int w :: u32)" by (simp only: ucast_eq)
  then have 1: "ucast (word_of_int w :: u16) + of_int (v - w) = (word_of_int v :: u32)" by simp
  have 2: "sint (word_of_int v :: u32) = v"
    using assms by (simp add: signed_of_int signed_take_bit_int_eq_self SEMVMX_def)
  show ?thesis using assms(1,2) by (simp only: undo_apply_def Let_def 1 2) simp
qed

text \<open>What the fold over the undo table does, entry by entry.\<close>

definition owing :: "nat \<Rightarrow> sem_undo table \<Rightarrow> nat \<Rightarrow> nat \<Rightarrow> nat \<Rightarrow> nat option" where
  "owing pid t k semid n = first_slot (\<lambda>i. undo_is pid semid n (t i)) k"

definition given_back :: "ipc_ctx \<Rightarrow> nat \<Rightarrow> sem_state \<Rightarrow> nat \<Rightarrow> nat \<Rightarrow> nat \<Rightarrow> u16" where
  "given_back x pid st k semid n =
     (let v = ss_vals (g_sets st semid) n in
      case owing pid (g_undo st) k semid n of
        None \<Rightarrow> v
      | Some i \<Rightarrow> if sem_id_valid x (int semid) st \<and> n < ss_nsems (g_sets st semid)
                 then undo_apply (su_adjust (g_undo st i)) v else v)"

lemma cleanup_prefix:
  assumes "undo_uniq (g_undo st)" "k \<le> SEM_UNDO_MAX"
  shows "g_undo (fst (fold (cleanup_entry x pid) [0..<k] (st, w)))
      = (\<lambda>i. if i < k \<and> su_used (g_undo st i) \<and> su_pid (g_undo st i) = pid
             then (g_undo st i)\<lparr>su_used := False\<rparr> else g_undo st i) \<and>
    (\<forall>j. g_sets (fst (fold (cleanup_entry x pid) [0..<k] (st, w))) j
      = (g_sets st j)\<lparr>ss_vals := given_back x pid st k j\<rparr>)"
  using assms(2)
proof (induction k)
  case 0
  then show ?case by (simp add: given_back_def owing_def first_slot_def)
next
  case (Suc k)
  define st1 where "st1 = fst (fold (cleanup_entry x pid) [0..<k] (st, w))"
  let ?u = "g_undo st k"
  have k: "k < SEM_UNDO_MAX" using Suc.prems by simp
  have un: "g_undo st1 = (\<lambda>i. if i < k \<and> su_used (g_undo st i) \<and> su_pid (g_undo st i) = pid
      then (g_undo st i)\<lparr>su_used := False\<rparr> else g_undo st i)"
    and sets: "\<And>j. g_sets st1 j = (g_sets st j)\<lparr>ss_vals := given_back x pid st k j\<rparr>"
    using Suc.IH Suc.prems by (auto simp: st1_def)
  have step: "fst (fold (cleanup_entry x pid) [0..<Suc k] (st, w))
      = fst (cleanup_entry x pid k (fold (cleanup_entry x pid) [0..<k] (st, w)))" by simp
  have valid: "sem_id_valid x j st1 = sem_id_valid x j st" for j
    by (simp add: sem_id_valid_def sets)
  show ?case
  proof (cases "su_used ?u \<and> su_pid ?u = pid")
    case False
    have "given_back x pid st (Suc k) j n = given_back x pid st k j n" for j n
      using False by (auto simp: given_back_def owing_def first_slot_Suc undo_is_def split: option.splits)
    then show ?thesis
      unfolding step using False sets un
      by (auto simp: cleanup_entry_def Let_def st1_def [symmetric] less_Suc_eq fun_eq_iff)
  next
    case True
    let ?s = "su_semid ?u" and ?n = "su_semnum ?u"
    have none: "owing pid (g_undo st) k ?s ?n = None"
      unfolding owing_def first_slot_None_iff
    proof (intro allI impI notI)
      fix i assume "i < k" "undo_is pid ?s ?n (g_undo st i)"
      moreover from this have "i < SEM_UNDO_MAX" using k by simp
      ultimately have "k = i" using assms(1) k True unfolding undo_uniq_def by (auto simp: undo_is_def)
      then show False using \<open>i < k\<close> by simp
    qed
    have "given_back x pid st (Suc k) j n = (if j = ?s \<and> n = ?n \<and> sem_id_valid x (int ?s) st \<and> ?n < ss_nsems (g_sets st ?s)
        then undo_apply (su_adjust ?u) (ss_vals (g_sets st ?s) ?n) else given_back x pid st k j n)" for j n
      using True none
      by (auto simp: given_back_def owing_def first_slot_Suc undo_is_def Let_def split: option.splits)
    moreover have "given_back x pid st k ?s ?n = ss_vals (g_sets st ?s) ?n"
      using none by (simp add: given_back_def)
    ultimately show ?thesis
      unfolding step using True sets un valid
      by (auto simp: cleanup_entry_def Let_def st1_def [symmetric] less_Suc_eq fun_eq_iff set_sem_def)
  qed
qed

lemma cleanup_values:
  assumes "undo_uniq (g_undo st)" "sem_id_valid x (int semid) st" "n < ss_nsems (g_sets st semid)"
    "int (unat (ss_vals (g_sets st semid) n)) \<le> SEMVMX"
  shows "ss_vals (g_sets (fst (sysv_sem_task_cleanup x pid st)) semid) n
    = undo_apply (undo_owed pid semid n (g_undo st)) (ss_vals (g_sets st semid) n)"
proof -
  have zero: "undo_apply 0 v = v" if "int (unat v) \<le> SEMVMX" for v
    using undo_apply_back [of "int (unat v)" "int (unat v)"] that by simp
  have "ss_vals (g_sets (fst (sysv_sem_task_cleanup x pid st)) semid) n = given_back x pid st SEM_UNDO_MAX semid n"
    using cleanup_prefix [OF assms(1) order_refl, of x pid None] by (simp add: sysv_sem_task_cleanup_def)
  then show ?thesis
    using assms undo_none_zero [of pid semid n "g_undo st"] undo_some_owed [OF assms(1), of pid semid n] zero
    by (auto simp: given_back_def owing_def Let_def split: option.splits)
qed

section \<open>Reachable states\<close>

definition undo_in :: "(nat \<Rightarrow> nat \<Rightarrow> bool) \<Rightarrow> sem_undo table \<Rightarrow> bool" where
  "undo_in P t \<longleftrightarrow> (\<forall>i<SEM_UNDO_MAX. su_used (t i) \<longrightarrow> P (su_semid (t i)) (su_semnum (t i)))"

lemma undo_record_in: "undo_in P t \<Longrightarrow> P semid n \<Longrightarrow> undo_in P (undo_record pid semid n a t)"
  by (auto simp: undo_record_def undo_in_def undo_is_def Let_def split: option.splits dest!: first_slot_SomeD(2))

lemma record_ops_in:
  "undo_in P t \<Longrightarrow> (\<And>b. b \<in> set ops \<Longrightarrow> P semid (unat (sb_num b))) \<Longrightarrow> undo_in P (fold (record_op pid semid) ops t)"
  by (induction ops arbitrary: t) (auto simp: record_op_def undo_record_in)

definition sem_inv :: "sem_state \<Rightarrow> bool" where
  "sem_inv st \<longleftrightarrow>
     (\<forall>i<SEMMNI. ss_used (g_sets st i) \<longrightarrow> in_range (ss_nsems (g_sets st i)) (\<lambda>n. int (unat (ss_vals (g_sets st i) n))))
     \<and> undo_uniq (g_undo st)
     \<and> undo_in (\<lambda>s n. s < SEMMNI \<and> ss_used (g_sets st s) \<and> n < ss_nsems (g_sets st s)) (g_undo st)"

lemma undo_clear_uniq: "undo_uniq t \<Longrightarrow> undo_uniq (undo_clear P t)"
  by (auto simp: undo_uniq_def undo_clear_def undo_is_def)

lemma undo_clear_in: "undo_in Q t \<Longrightarrow> (\<And>i. i < SEM_UNDO_MAX \<Longrightarrow> su_used (t i) \<Longrightarrow> \<not> P (t i) \<Longrightarrow>
    Q (su_semid (t i)) (su_semnum (t i)) \<Longrightarrow> R (su_semid (t i)) (su_semnum (t i))) \<Longrightarrow> undo_in R (undo_clear P t)"
  by (auto simp: undo_in_def undo_clear_def)

lemma sem_id_valid_D: "sem_id_valid x semid st \<Longrightarrow> nat semid < SEMMNI \<and> ss_used (g_sets st (nat semid))"
  by (simp add: sem_id_valid_def nat_less_iff)

lemma uint_value: "in_range m v \<Longrightarrow> n < m \<Longrightarrow> int (unat (word_of_int (v n) :: u16)) = v n"
  by (auto simp: in_range_def SEMVMX_def unsigned_of_int take_bit_int_eq_self uint_nat [symmetric] simp del: uint_nat)

lemma sem_try_ops_applied:
  assumes "sem_inv st" "semid < SEMMNI" "ss_used (g_sets st semid)"
    "sem_try_ops x semid ops st = (Some (Inr ()), st')"
  obtains nxt where
    "try_loop (ss_nsems (g_sets st semid)) ops (\<lambda>i. int (unat (ss_vals (g_sets st semid) i))) = Applied nxt"
    "in_range (ss_nsems (g_sets st semid)) nxt"
    "\<And>n. n < ss_nsems (g_sets st semid) \<Longrightarrow>
       nxt n = int (unat (ss_vals (g_sets st semid) n)) + net_op ops n
       \<and> ss_vals (g_sets st' semid) n = word_of_int (nxt n) \<and> int (unat (ss_vals (g_sets st' semid) n)) = nxt n"
    "\<And>b. b \<in> set ops \<Longrightarrow> unat (sb_num b) < ss_nsems (g_sets st semid)"
    "\<And>i. i \<noteq> semid \<Longrightarrow> g_sets st' i = g_sets st i"
    "ss_nsems (g_sets st' semid) = ss_nsems (g_sets st semid)"
    "ss_used (g_sets st' semid)" "ss_ns (g_sets st' semid) = ss_ns (g_sets st semid)"
    "g_undo st' = fold (record_op (unat (x_pid x)) semid) ops (g_undo st)"
proof -
  let ?s = "g_sets st semid"
  obtain nxt where nxt: "try_loop (ss_nsems ?s) ops (\<lambda>i. int (unat (ss_vals ?s i))) = Applied nxt"
    using assms(4) by (auto simp: sem_try_ops_def Let_def split: sem_trial.splits)
  have "in_range (ss_nsems ?s) (\<lambda>i. int (unat (ss_vals ?s i)))" using assms(1-3) by (simp add: sem_inv_def)
  then have r: "in_range (ss_nsems ?s) nxt" using try_loop_applied [OF nxt] by blast
  have st': "g_undo st' = fold (record_op (unat (x_pid x)) semid) ops (g_undo st)"
    "\<And>i. i \<noteq> semid \<Longrightarrow> g_sets st' i = g_sets st i"
    "\<And>n. n < ss_nsems ?s \<Longrightarrow> ss_vals (g_sets st' semid) n = word_of_int (nxt n)"
    "ss_nsems (g_sets st' semid) = ss_nsems ?s" "ss_used (g_sets st' semid) = ss_used ?s"
    "ss_ns (g_sets st' semid) = ss_ns ?s"
    using assms(4) nxt by (auto simp: sem_try_ops_def Let_def set_sem_def commit_ops)
  show thesis
    by (rule that [OF nxt r]) (use try_loop_applied [OF nxt] st' assms(3) uint_value [OF r] in auto)
qed

lemma sem_try_ops_fail: "sem_try_ops x semid ops st = (r, st') \<Longrightarrow> r \<noteq> Some (Inr ()) \<Longrightarrow> st' = st"
  by (auto simp: sem_try_ops_def Let_def split: sem_trial.splits)

lemma semop_try_cases:
  assumes "semop_try x semid ops st = (r, st')"
  obtains (same) "st' = st" "r \<noteq> Some (Inr ())"
  | (applied) "sem_id_valid x semid st" "r = Some (Inr ())" "sem_try_ops x (nat semid) ops st = (Some (Inr ()), st')"
proof (cases "r = Some (Inr ())")
  case True
  then show ?thesis using assms applied by (auto simp: semop_try_def split: if_splits)
next
  case False
  then have "st' = st" using assms sem_try_ops_fail by (auto simp: semop_try_def split: if_splits)
  then show ?thesis using same False by blast
qed

lemma semop_try_inv:
  assumes "sem_inv st" "semop_try x semid ops st = (r, st')"
  shows "sem_inv st'"
  using assms(2)
proof (cases rule: semop_try_cases)
  case applied
  note v = sem_id_valid_D [OF applied(1)]
  let ?s = "g_sets st (nat semid)"
  obtain nxt where a: "in_range (ss_nsems ?s) nxt"
    "\<And>n. n < ss_nsems ?s \<Longrightarrow> int (unat (ss_vals (g_sets st' (nat semid)) n)) = nxt n"
    "\<And>b. b \<in> set ops \<Longrightarrow> unat (sb_num b) < ss_nsems ?s"
    "\<And>i. i \<noteq> nat semid \<Longrightarrow> g_sets st' i = g_sets st i"
    "ss_nsems (g_sets st' (nat semid)) = ss_nsems ?s" "ss_used (g_sets st' (nat semid))"
    "g_undo st' = fold (record_op (unat (x_pid x)) (nat semid)) ops (g_undo st)"
    by (rule sem_try_ops_applied [OF assms(1) v [THEN conjunct1] v [THEN conjunct2] applied(3)])
       (rule that, assumption, (blast | simp)+)
  have same: "ss_nsems (g_sets st' i) = ss_nsems (g_sets st i)" "ss_used (g_sets st' i) = ss_used (g_sets st i)" for i
    using a(4) [of i] a(5,6) v by (cases "i = nat semid"; simp)+
  have "in_range (ss_nsems (g_sets st' i)) (\<lambda>n. int (unat (ss_vals (g_sets st' i) n)))"
    if "i < SEMMNI" "ss_used (g_sets st i)" for i
    using assms(1) a(1,2,5) a(4) [of i] that by (cases "i = nat semid") (auto simp: sem_inv_def in_range_def)
  moreover have "undo_uniq (g_undo st')"
    unfolding a(7) using assms(1) by (intro record_ops_uniq) (simp add: sem_inv_def)
  moreover have "undo_in (\<lambda>s n. s < SEMMNI \<and> ss_used (g_sets st s) \<and> n < ss_nsems (g_sets st s)) (g_undo st')"
    unfolding a(7) using assms(1) a(3) v by (intro record_ops_in) (auto simp: sem_inv_def)
  ultimately show ?thesis by (simp add: sem_inv_def same)
qed (use assms(1) in simp)

text \<open>The invariant looks at the values, sizes and undo entries only.\<close>

lemma sem_inv_same:
  assumes "sem_inv st" "\<And>i. ss_vals (g_sets st' i) = ss_vals (g_sets st i)"
    "\<And>i. ss_nsems (g_sets st' i) = ss_nsems (g_sets st i)" "\<And>i. ss_used (g_sets st' i) = ss_used (g_sets st i)"
    "g_undo st' = g_undo st"
  shows "sem_inv st'"
  using assms by (simp add: sem_inv_def)

lemma count_wait_same:
  "ss_vals (fold count_wait ops s) = ss_vals s" "ss_nsems (fold count_wait ops s) = ss_nsems s"
  "ss_used (fold count_wait ops s) = ss_used s" "ss_ns (fold count_wait ops s) = ss_ns s"
  "ss_vals (fold uncount_wait ops s) = ss_vals s" "ss_nsems (fold uncount_wait ops s) = ss_nsems s"
  "ss_used (fold uncount_wait ops s) = ss_used s" "ss_ns (fold uncount_wait ops s) = ss_ns s"
  by (induction ops arbitrary: s) (simp_all add: count_wait_def uncount_wait_def Let_def)

lemma sem_inv_counts:
  assumes "sem_inv st"
  shows "sem_inv (set_sem i (fold count_wait ops (g_sets st i)) st)"
    "sem_inv (set_sem i (fold uncount_wait ops (g_sets st i)) st)"
  by (rule sem_inv_same [OF assms]; simp add: set_sem_def count_wait_same)+

lemma drop_set_inv:
  assumes "sem_inv st"
  shows "sem_inv (drop_set i st)"
proof -
  have "undo_in (\<lambda>s n. s < SEMMNI \<and> ss_used (g_sets (drop_set i st) s) \<and> n < ss_nsems (g_sets (drop_set i st) s))
      (undo_clear (\<lambda>u. su_semid u = i) (g_undo st))"
    by (rule undo_clear_in [where Q = "\<lambda>s n. s < SEMMNI \<and> ss_used (g_sets st s) \<and> n < ss_nsems (g_sets st s)"])
       (use assms in \<open>auto simp: sem_inv_def drop_set_def set_sem_def\<close>)
  then show ?thesis
    using assms undo_clear_uniq by (auto simp: sem_inv_def drop_set_def set_sem_def)
qed

lemma sem_set_values_inv:
  assumes "sem_inv st" "i < SEMMNI" "in_range (ss_nsems (g_sets st i)) (\<lambda>n. int (unat (vs n)))"
  shows "sem_inv ((set_sem i ((g_sets st i)\<lparr>ss_vals := vs, ss_ctime := t\<rparr>) st)\<lparr>g_undo := undo_clear P (g_undo st)\<rparr>)"
proof -
  have "undo_in (\<lambda>s n. s < SEMMNI \<and> ss_used (g_sets st s) \<and> n < ss_nsems (g_sets st s)) (undo_clear P (g_undo st))"
    by (rule undo_clear_in [where Q = "\<lambda>s n. s < SEMMNI \<and> ss_used (g_sets st s) \<and> n < ss_nsems (g_sets st s)"])
       (use assms in \<open>auto simp: sem_inv_def\<close>)
  then show ?thesis
    using assms undo_clear_uniq by (auto simp: sem_inv_def set_sem_def undo_in_def)
qed

lemma semget_inv: "sem_inv st \<Longrightarrow> sem_inv (snd (sysv_semget x key nsems flg st))"
proof -
  assume inv: "sem_inv st"
  have "sem_inv ((set_sem i (new_sem x key n flg s) st)\<lparr>g_sem_seq := q\<rparr>)"
    if "\<not> ss_used (g_sets st i)" for i n s q
    using inv that by (auto simp: sem_inv_def set_sem_def new_sem_def sem_slot_zero_def in_range_def SEMVMX_def
        undo_in_def Let_def)
  then show ?thesis
    using inv by (auto simp: sysv_semget_def Let_def split: option.splits dest: first_slot_SomeD(2))
qed

lemma semctl_inv:
  assumes "sem_inv st"
  shows "sem_inv (snd (sysv_semctl_set x semid uid gid mode st))" "sem_inv (snd (sysv_semctl_rmid x semid st))"
    "sem_inv (snd (sysv_semctl_setval x semid semnum val st))" "sem_inv (snd (sysv_semctl_setall x semid vals st))"
    "sem_inv (sysv_sem_ns_destroy ns st)"
proof -
  show "sem_inv (snd (sysv_semctl_set x semid uid gid mode st))"
    by (rule sem_inv_same [OF assms]) (simp_all add: sysv_semctl_set_def Let_def set_sem_def)
  show "sem_inv (snd (sysv_semctl_rmid x semid st))"
    using assms by (simp add: sysv_semctl_rmid_def drop_set_inv)
  show "sem_inv (snd (sysv_semctl_setval x semid semnum val st))"
  proof (cases "fst (sysv_semctl_setval x semid semnum val st)")
    case (Inl e)
    then show ?thesis using assms by (auto simp: sysv_semctl_setval_def Let_def split: if_splits)
  next
    case (Inr u)
    then have c: "0 \<le> val" "val \<le> SEMVMX" "sem_id_valid x semid st"
      by (auto simp: sysv_semctl_setval_def split: if_splits)
    have "in_range (ss_nsems (g_sets st (nat semid))) (\<lambda>n. int (unat (((ss_vals (g_sets st (nat semid)))
        (nat semnum := word_of_int val)) n)))"
      using assms sem_id_valid_D [OF c(3)] c(1,2) uint_value [of 1 "\<lambda>_. val" 0]
      by (auto simp: sem_inv_def in_range_def)
    then show ?thesis
      using sem_set_values_inv [OF assms] sem_id_valid_D [OF c(3)] Inr
      by (auto simp: sysv_semctl_setval_def Let_def split: if_splits)
  qed
  show "sem_inv (snd (sysv_semctl_setall x semid vals st))"
  proof (cases "fst (sysv_semctl_setall x semid vals st)")
    case (Inl e)
    then show ?thesis using assms by (auto simp: sysv_semctl_setall_def Let_def split: if_splits)
  next
    case (Inr u)
    let ?s = "g_sets st (nat semid)"
    have c: "sem_id_valid x semid st" "ss_nsems ?s \<le> length vals"
      "\<not> list_ex (\<lambda>v. int (unat v) > SEMVMX) (take (ss_nsems ?s) vals)"
      using Inr by (auto simp: sysv_semctl_setall_def Let_def split: if_splits)
    have "int (unat (vals ! n)) \<le> SEMVMX" if "n < ss_nsems ?s" for n
      using c(2,3) that by (simp add: list_ex_length not_less) (metis nth_take not_le)
    then have "in_range (ss_nsems ?s) (\<lambda>n. int (unat (if n < ss_nsems ?s then vals ! n else ss_vals ?s n)))"
      by (simp add: in_range_def)
    then show ?thesis
      using sem_set_values_inv [OF assms] sem_id_valid_D [OF c(1)] Inr
      by (auto simp: sysv_semctl_setall_def Let_def split: if_splits)
  qed
  have "sem_inv (fold (\<lambda>i st. if ss_used (g_sets st i) \<and> ss_ns (g_sets st i) = ns then drop_set i st else st) is st)"
    if "sem_inv st" for "is" st
    using that by (induction "is" arbitrary: st) (auto simp: drop_set_inv)
  then show "sem_inv (sysv_sem_ns_destroy ns st)"
    using assms by (simp add: sysv_sem_ns_destroy_def)
qed

lemma undo_apply_range: "int (unat (undo_apply a v)) \<le> SEMVMX"
proof -
  have w: "int (unat (word_of_int w :: u16)) = w" if "0 \<le> w" "w \<le> SEMVMX" for w
    using uint_value [of 1 "\<lambda>_. w" 0] that by (simp add: in_range_def)
  define w where "w = sint (ucast v + a)"
  consider "w < 0" | "SEMVMX < w" | "0 \<le> w" "w \<le> SEMVMX" by linarith
  then show ?thesis
  proof cases
    case 3
    then have "undo_apply a v = word_of_int w" by (simp only: undo_apply_def Let_def w_def [symmetric]) simp
    then show ?thesis using w [OF 3] 3(2) by (simp only:)
  qed (simp_all only: undo_apply_def Let_def w_def [symmetric], simp_all add: SEMVMX_def)
qed

lemma cleanup_inv:
  assumes "sem_inv st"
  shows "sem_inv (fst (sysv_sem_task_cleanup x pid st))"
proof -
  define st' where "st' = fst (sysv_sem_task_cleanup x pid st)"
  have uniq: "undo_uniq (g_undo st)" using assms by (simp add: sem_inv_def)
  have un: "g_undo st' = undo_clear (\<lambda>u. su_pid u = pid) (g_undo st)"
    and sets: "g_sets st' j = (g_sets st j)\<lparr>ss_vals := given_back x pid st SEM_UNDO_MAX j\<rparr>" for j
    using cleanup_prefix [OF uniq order_refl, of x pid None]
    by (auto simp: st'_def sysv_sem_task_cleanup_def undo_clear_def)
  have "in_range (ss_nsems (g_sets st j)) (\<lambda>n. int (unat (given_back x pid st SEM_UNDO_MAX j n)))"
    if "j < SEMMNI" "ss_used (g_sets st j)" for j
    using assms that undo_apply_range
    by (auto simp: sem_inv_def in_range_def given_back_def Let_def split: option.splits)
  moreover have "undo_in (\<lambda>s n. s < SEMMNI \<and> ss_used (g_sets st s) \<and> n < ss_nsems (g_sets st s)) (g_undo st')"
    unfolding un
    by (rule undo_clear_in [where Q = "\<lambda>s n. s < SEMMNI \<and> ss_used (g_sets st s) \<and> n < ss_nsems (g_sets st s)"])
       (use assms in \<open>auto simp: sem_inv_def\<close>)
  ultimately have "sem_inv st'"
    using undo_clear_uniq [OF uniq] by (simp add: sem_inv_def sets un)
  then show ?thesis by (simp add: st'_def)
qed

inductive sem_step :: "sem_state \<Rightarrow> sem_state \<Rightarrow> bool" where
  sem_step_get: "sem_step st (snd (sysv_semget x key nsems flg st))"
| sem_step_op: "sem_step st (snd (semop_try x semid ops st))"
| sem_step_sleep: "sem_step st (set_sem i (fold count_wait ops (g_sets st i)) st)"
| sem_step_wake: "sem_step st (set_sem i (fold uncount_wait ops (g_sets st i)) st)"
| sem_step_set: "sem_step st (snd (sysv_semctl_set x semid uid gid mode st))"
| sem_step_rmid: "sem_step st (snd (sysv_semctl_rmid x semid st))"
| sem_step_setval: "sem_step st (snd (sysv_semctl_setval x semid semnum val st))"
| sem_step_setall: "sem_step st (snd (sysv_semctl_setall x semid vals st))"
| sem_step_cleanup: "sem_step st (fst (sysv_sem_task_cleanup x pid st))"
| sem_step_ns_destroy: "sem_step st (sysv_sem_ns_destroy ns st)"

inductive_cases sem_stepE: "sem_step st st'"

definition sem_reachable :: "sem_state \<Rightarrow> bool" where
  "sem_reachable st \<longleftrightarrow> sem_step\<^sup>*\<^sup>* sem_boot st"

lemma sem_step_inv: "sem_step st st' \<Longrightarrow> sem_inv st \<Longrightarrow> sem_inv st'"
  by (erule sem_stepE) (auto intro: semget_inv semctl_inv sem_inv_counts cleanup_inv semop_try_inv simp: prod_eq_iff)

lemma sem_steps_inv: "sem_step\<^sup>*\<^sup>* st st' \<Longrightarrow> sem_inv st \<Longrightarrow> sem_inv st'"
  by (induction rule: rtranclp_induct) (auto intro: sem_step_inv)

lemma sem_inv_boot: "sem_inv sem_boot"
  by (simp add: sem_inv_def sem_boot_def sem_slot_zero_def sem_undo_zero_def undo_uniq_def undo_in_def)

lemma sem_reachable_inv: "sem_reachable st \<Longrightarrow> sem_inv st"
  using sem_steps_inv sem_inv_boot by (auto simp: sem_reachable_def)

definition sem_runs :: "(sem_state \<Rightarrow> sem_state) \<Rightarrow> bool" where
  "sem_runs f \<longleftrightarrow> (\<forall>st. sem_step\<^sup>*\<^sup>* st (f st))"

lemma sem_runs_inv: "sem_runs f \<Longrightarrow> sem_inv st \<Longrightarrow> sem_inv (f st)"
  using sem_steps_inv by (auto simp: sem_runs_def)

section \<open>What a call that slept did\<close>

definition sem_wait :: "int \<Rightarrow> sysv_sembuf list \<Rightarrow> sem_sleep \<Rightarrow> sem_state \<Rightarrow> sem_state" where
  "sem_wait semid ops w st =
     (let st1 = fst (snd w) (set_sem (nat semid) (fold count_wait ops (g_sets st (nat semid))) st)
      in set_sem (nat semid) (fold uncount_wait ops (g_sets st1 (nat semid))) st1)"

definition sem_vals :: "sem_state \<Rightarrow> nat \<Rightarrow> u16 table" where
  "sem_vals st i = ss_vals (g_sets st i)"

lemma sem_wait_inv: "sem_inv st \<Longrightarrow> sem_runs (fst (snd w)) \<Longrightarrow> sem_inv (sem_wait semid ops w st)"
  unfolding sem_wait_def Let_def by (rule sem_inv_counts(2), rule sem_runs_inv, assumption, rule sem_inv_counts(1))

lemma sem_vals_counts [simp]:
  "sem_vals (set_sem i (fold count_wait ops (g_sets st i)) st) = sem_vals st"
  "sem_vals (set_sem i (fold uncount_wait ops (g_sets st i)) st) = sem_vals st"
  by (auto simp: sem_vals_def set_sem_def count_wait_same)

lemma semop_loop_effect:
  assumes "sem_inv st" "\<forall>w\<in>set ws. sem_runs (fst (snd w))" "semop_loop x semid ops timed ws st = (r, st')"
  shows "\<exists>k\<le>length ws. let st0 = fold (sem_wait semid ops) (take k ws) st in sem_inv st0 \<and>
    (if r = Done (Inr ()) then semop_try x semid ops st0 = (Some (Inr ()), st') else sem_vals st' = sem_vals st0)"
  using assms
proof (induction ws arbitrary: st)
  case Nil
  obtain r0 st0 where tried: "semop_try x semid ops st = (r0, st0)" by fastforce
  show ?case
    using Nil tried by (cases r0; cases rule: semop_try_cases [OF tried]) (auto simp: Let_def)
next
  case (Cons w ws)
  obtain p env ex where w: "w = (p, env, ex)" by (cases w) auto
  obtain r0 st0 where tried: "semop_try x semid ops st = (r0, st0)" by fastforce
  show ?case
  proof (cases r0)
    case (Some r1)
    then have "r = Done r1 \<and> st' = st0" using Cons.prems(3) tried w by simp
    then show ?thesis
      using Cons.prems(1) tried Some by (intro exI [of _ 0]; cases rule: semop_try_cases [OF tried]) (auto simp: Let_def)
  next
    case None
    have same: "st0 = st" using None by (cases rule: semop_try_cases [OF tried]) auto
    let ?st1 = "env (set_sem (nat semid) (fold count_wait ops (g_sets st (nat semid))) st)"
    let ?st2 = "sem_wait semid ops w st"
    have inv2: "sem_inv ?st2" using Cons.prems(1,2) by (intro sem_wait_inv) auto
    have vals2: "sem_vals ?st2 = sem_vals ?st1" by (simp add: sem_wait_def Let_def w)
    show ?thesis
    proof (cases "\<not> sem_id_valid x semid ?st1 \<or> p \<or> timed \<and> ex")
      case True
      then have "r \<noteq> Done (Inr ()) \<and> sem_vals st' = sem_vals ?st2"
        using Cons.prems(3) tried None same vals2 by (auto simp: w Let_def sem_wait_def split: if_splits)
      then show ?thesis using inv2 by (intro exI [of _ 1]) simp
    next
      case False
      then have "semop_loop x semid ops timed ws ?st2 = (r, st')"
        using Cons.prems(3) tried None same by (auto simp: w Let_def sem_wait_def split: if_splits)
      then obtain k where "k \<le> length ws" "let st0 = fold (sem_wait semid ops) (take k ws) ?st2 in sem_inv st0 \<and>
        (if r = Done (Inr ()) then semop_try x semid ops st0 = (Some (Inr ()), st') else sem_vals st' = sem_vals st0)"
        using Cons.IH [OF inv2] Cons.prems(2) by auto
      then show ?thesis by (intro exI [of _ "Suc k"]) simp
    qed
  qed
qed

lemma semop_try_values:
  assumes "sem_inv st" "semop_try x semid ops st = (Some (Inr ()), st')"
    "i < SEMMNI" "ss_used (g_sets st i)" "n < ss_nsems (g_sets st i)"
  shows "int (unat (sem_vals st' i n)) = int (unat (sem_vals st i n)) + (if i = nat semid then net_op ops n else 0)"
  using assms(2)
proof (cases rule: semop_try_cases)
  case applied
  note v = sem_id_valid_D [OF applied(1)]
  show ?thesis
  proof (rule sem_try_ops_applied [OF assms(1) v [THEN conjunct1] v [THEN conjunct2] applied(3)])
    fix nxt
    assume "\<And>n. n < ss_nsems (g_sets st (nat semid)) \<Longrightarrow>
        nxt n = int (unat (ss_vals (g_sets st (nat semid)) n)) + net_op ops n
        \<and> ss_vals (g_sets st' (nat semid)) n = word_of_int (nxt n)
        \<and> int (unat (ss_vals (g_sets st' (nat semid)) n)) = nxt n"
      and "\<And>i. i \<noteq> nat semid \<Longrightarrow> g_sets st' i = g_sets st i"
    then show ?thesis using assms(5) by (cases "i = nat semid") (metis sem_vals_def, simp add: sem_vals_def)
  qed
qed simp

text \<open>
  C16. An array of semaphore operations applies as a whole or not at all.
  Whatever the other tasks do while the caller sleeps, there is a number of
  sleeps k such that a successful \<^const>\<open>sysv_semop\<close> moves every value of the
  set by exactly the sum of the operations on it, from what the k-th sleep left
  behind, and changes no value of another set; and a call that failed, was
  interrupted, timed out or is still asleep has changed no value at all.
\<close>

theorem semop_all_or_nothing:
  assumes "sem_reachable st" "\<forall>w\<in>set ws. sem_runs (fst (snd w))" "sysv_semop x semid ops timed ws st = (r, st')"
  shows "\<exists>k\<le>length ws. let st0 = fold (sem_wait semid ops) (take k ws) st in
    \<forall>i n. i < SEMMNI \<longrightarrow> ss_used (g_sets st0 i) \<longrightarrow> n < ss_nsems (g_sets st0 i) \<longrightarrow>
      int (unat (sem_vals st' i n)) =
        int (unat (sem_vals st0 i n)) + (if r = Done (Inr ()) \<and> i = nat semid then net_op ops n else 0)"
proof (cases "ops = [] \<or> length ops > SEMMSL")
  case True
  then have "r \<noteq> Done (Inr ()) \<and> st' = st" using assms(3) by (auto simp: sysv_semop_def)
  then show ?thesis by (intro exI [of _ 0]) simp
next
  case False
  then have "semop_loop x semid ops timed ws st = (r, st')" using assms(3) by (simp add: sysv_semop_def)
  then obtain k where k: "k \<le> length ws" "let st0 = fold (sem_wait semid ops) (take k ws) st in sem_inv st0 \<and>
      (if r = Done (Inr ()) then semop_try x semid ops st0 = (Some (Inr ()), st') else sem_vals st' = sem_vals st0)"
    using semop_loop_effect [OF sem_reachable_inv [OF assms(1)] assms(2)] by blast
  then show ?thesis
    using semop_try_values by (intro exI [of _ k]) (auto simp: Let_def split: if_splits)
qed

text \<open>
  C17. The value of a semaphore never leaves the range 0 to SEMVMX. In every
  state the calls of the module reach from boot, with exits of tasks and their
  undo entries included, a value that GETVAL or GETALL reports is at most SEMVMX.
\<close>

theorem sem_values_bounded:
  assumes "sem_reachable st"
    "sysv_semctl_getval x semid semnum st = Inr v \<or> (sysv_semctl_getall x semid count st = Inr vs \<and> v \<in> set vs)"
  shows "int (unat v) \<le> SEMVMX"
proof -
  have "int (unat (ss_vals (g_sets st (nat semid)) n)) \<le> SEMVMX"
    if "sem_id_valid x semid st" "n < ss_nsems (g_sets st (nat semid))" for n
    using sem_reachable_inv [OF assms(1)] sem_id_valid_D [OF that(1)] that(2) by (simp add: sem_inv_def in_range_def)
  then show ?thesis
    using assms(2)
    by (auto simp: sysv_semctl_getval_def sem_peek_def sysv_semctl_getall_def Let_def split: if_splits)
qed

text \<open>
  C18. SEM_UNDO gives back what a task took, for a task that owes the set nothing:
  if an array of operations that all carry SEM_UNDO succeeds at once, without a
  sleep, with as many free entries in the undo table as there are operations,
  and the task then exits in the same IPC namespace before the set is touched
  again, every value of the set is what it was before.
\<close>

theorem sem_undo_round_trip:
  assumes "sem_reachable st" "sysv_semop x semid ops timed [] st = (Done (Inr ()), st')"
    "\<And>b. b \<in> set ops \<Longrightarrow> sb_flg b AND SEM_UNDO \<noteq> 0" "length ops \<le> undo_room (g_undo st)"
    "\<And>n. undo_owed (unat (x_pid x)) (nat semid) n (g_undo st) = 0" "n < ss_nsems (g_sets st (nat semid))"
  shows "sem_vals (fst (sysv_sem_task_cleanup x (unat (x_pid x)) st')) (nat semid) n = sem_vals st (nat semid) n"
proof -
  let ?i = "nat semid" and ?p = "unat (x_pid x)"
  have inv: "sem_inv st" by (rule sem_reachable_inv [OF assms(1)])
  have tried: "semop_try x semid ops st = (Some (Inr ()), st')"
    using assms(2) by (auto simp: sysv_semop_def split: if_splits prod.splits option.splits)
  have inv': "sem_inv st'" by (rule semop_try_inv [OF inv tried])
  from tried obtain valid: "sem_id_valid x semid st" and ok: "sem_try_ops x ?i ops st = (Some (Inr ()), st')"
    by (cases rule: semop_try_cases) auto
  note v = sem_id_valid_D [OF valid]
  obtain nxt where a: "in_range (ss_nsems (g_sets st ?i)) nxt"
    "nxt n = int (unat (ss_vals (g_sets st ?i) n)) + net_op ops n" "ss_vals (g_sets st' ?i) n = word_of_int (nxt n)"
    "ss_nsems (g_sets st' ?i) = ss_nsems (g_sets st ?i)" "ss_used (g_sets st' ?i)"
    "ss_ns (g_sets st' ?i) = ss_ns (g_sets st ?i)" "g_undo st' = fold (record_op ?p ?i) ops (g_undo st)"
    by (rule sem_try_ops_applied [OF inv v [THEN conjunct1] v [THEN conjunct2] ok])
       (rule that, assumption, (use assms(6) in blast)+)
  have r: "0 \<le> nxt n" "nxt n \<le> SEMVMX" using a(1) assms(6) by (auto simp: in_range_def)
  have b: "int (unat (ss_vals (g_sets st ?i) n)) \<le> SEMVMX"
    using inv v assms(6) by (simp add: sem_inv_def in_range_def)
  have valid': "sem_id_valid x (int ?i) st'" using valid a(5,6) by (simp add: sem_id_valid_def)
  have u: "undo_uniq (g_undo st)" "undo_uniq (g_undo st')" using inv inv' by (simp_all add: sem_inv_def)
  have owed: "undo_owed ?p ?i n (g_undo st') = of_int (int (unat (ss_vals (g_sets st ?i) n)) - nxt n)"
    unfolding a(7) using record_ops_owed [OF u(1) assms(4,3)] assms(5) a(2) by simp
  have "int (unat (ss_vals (g_sets st' ?i) n)) \<le> SEMVMX"
    using uint_value [OF a(1) assms(6)] r a(3) by simp
  then show ?thesis
    using cleanup_values [OF u(2) valid'] a(3,4) assms(6) owed undo_apply_back [OF _ b r]
    by (simp add: sem_vals_def)
qed

section \<open>An example\<close>

definition example_sems :: sem_state where
  "example_sems =
     snd (sysv_semctl_setval example_ctx 0 0 5 (snd (sysv_semget example_ctx 0 2 0x1B6 sem_boot)))"

definition example_ops :: "sysv_sembuf list" where
  "example_ops = [\<lparr>sb_num = 0, sb_op = - 2, sb_flg = SEM_UNDO\<rparr>, \<lparr>sb_num = 1, sb_op = 3, sb_flg = SEM_UNDO\<rparr>]"

lemma example_sems_reachable: "sem_reachable example_sems"
proof -
  let ?s = "snd (sysv_semget example_ctx 0 2 0x1B6 sem_boot)"
  have "sem_step sem_boot ?s" by (rule sem_step_get)
  moreover have "sem_step ?s example_sems" unfolding example_sems_def by (rule sem_step_setval)
  ultimately show ?thesis unfolding sem_reachable_def by (meson rtranclp.rtrancl_into_rtrancl rtranclp.rtrancl_refl)
qed

lemma example_semget:
  "sysv_semget example_ctx 0 2 0x1B6 sem_boot =
     (Inr 0, (set_sem 0 (new_sem example_ctx 0 2 0x1B6 0) sem_boot)\<lparr>g_sem_seq := 1\<rparr>)"
proof -
  have "first_slot (\<lambda>i. \<not> ss_used (g_sets sem_boot i)) SEMMNI = Some 0"
    by (simp add: first_slot_Some_iff sem_boot_def sem_slot_zero_def SEMMNI_def)
  then show ?thesis by (simp add: sysv_semget_def SEMMSL_def Let_def sem_boot_def)
qed

lemma example_sem_set:
  "ss_used (g_sets example_sems 0)" "ss_ns (g_sets example_sems 0) = 0" "ss_nsems (g_sets example_sems 0) = 2"
  "sem_vals example_sems 0 = (\<lambda>_. 0)(0 := 5)" "g_undo example_sems = (\<lambda>_. sem_undo_zero)"
  unfolding example_sems_def example_semget snd_conv
  by (simp_all add: sysv_semctl_setval_def SEMVMX_def sem_id_valid_def SEMMNI_def
      set_sem_def new_sem_def sem_slot_zero_def example_ctx_def sem_access_def ipc_check_perm_def Let_def sem_boot_def
      undo_clear_def sem_undo_zero_def sem_vals_def)

lemma example_sem_access: "sem_id_valid example_ctx 0 example_sems" "sem_access example_ctx i a example_sems"
  by (simp_all add: sem_id_valid_def SEMMNI_def example_sem_set sem_access_def ipc_check_perm_def example_ctx_def)

lemma example_semop: "fst (sysv_semop example_ctx 0 example_ops False [] example_sems) = Done (Inr ())"
proof -
  have v: "ss_vals (g_sets example_sems 0) = (\<lambda>_. 0)(0 := 5)" using example_sem_set(4) by (simp add: sem_vals_def)
  have "\<exists>nxt. try_loop 2 example_ops (\<lambda>i. int (unat (ss_vals (g_sets example_sems 0) i))) = Applied nxt"
    by (simp add: example_ops_def v SEMVMX_def)
  then show ?thesis
    by (auto simp: sysv_semop_def semop_try_def example_sem_access sem_try_ops_def example_sem_set Let_def SEMMSL_def
        simp: example_ops_def [THEN arg_cong [where f = length]] example_ops_def [THEN arg_cong [where f = "\<lambda>x. x = []"]])
qed

lemma example_net_op: "net_op example_ops 0 = - 2" "net_op example_ops (Suc 0) = 3"
  by (simp_all add: example_ops_def)

theorem semop_all_or_nothing_witness:
  "int (unat (sem_vals (snd (sysv_semop example_ctx 0 example_ops False [] example_sems)) 0 0)) = 3
   \<and> int (unat (sem_vals (snd (sysv_semop example_ctx 0 example_ops False [] example_sems)) 0 1)) = 3"
proof -
  let ?r = "sysv_semop example_ctx 0 example_ops False [] example_sems"
  have r: "?r = (Done (Inr ()), snd ?r)" using example_semop by (simp add: prod_eq_iff)
  have "\<forall>i n. i < SEMMNI \<longrightarrow> ss_used (g_sets example_sems i) \<longrightarrow> n < ss_nsems (g_sets example_sems i) \<longrightarrow>
      int (unat (sem_vals (snd ?r) i n)) = int (unat (sem_vals example_sems i n)) + (if i = 0 then net_op example_ops n else 0)"
    using semop_all_or_nothing [OF example_sems_reachable _ r] by simp
  from this [rule_format, of 0 0] this [rule_format, of 0 1] show ?thesis
    by (simp add: SEMMNI_def example_sem_set example_net_op)
qed

theorem sem_values_bounded_witness:
  "sysv_semctl_getval example_ctx 0 0 example_sems = Inr 5 \<and> int (unat (5 :: u16)) \<le> SEMVMX"
proof -
  have "sysv_semctl_getval example_ctx 0 0 example_sems = Inr 5"
    using example_sem_set(4) by (simp add: sysv_semctl_getval_def sem_peek_def example_sem_access example_sem_set sem_vals_def)
  then show ?thesis using sem_values_bounded [OF example_sems_reachable, of example_ctx 0 0 5] by blast
qed

theorem sem_undo_round_trip_witness:
  "sem_vals (fst (sysv_sem_task_cleanup example_ctx 1
      (snd (sysv_semop example_ctx 0 example_ops False [] example_sems)))) 0 0 = 5"
proof -
  let ?r = "sysv_semop example_ctx 0 example_ops False [] example_sems"
  have r: "?r = (Done (Inr ()), snd ?r)" using example_semop by (simp add: prod_eq_iff)
  have undo: "b \<in> set example_ops \<Longrightarrow> sb_flg b AND SEM_UNDO \<noteq> 0" for b
    by (auto simp: example_ops_def SEM_UNDO_def)
  have room: "length example_ops \<le> undo_room (g_undo example_sems)"
    by (simp add: example_ops_def example_sem_set undo_room_def sem_undo_zero_def SEM_UNDO_MAX_def)
  have owed: "undo_owed (unat (x_pid example_ctx)) (nat 0) n (g_undo example_sems) = 0" for n
    by (simp add: undo_owed_def example_sem_set sem_undo_zero_def undo_is_def)
  show ?thesis
    using sem_undo_round_trip [OF example_sems_reachable r undo room owed, of 0] example_sem_set
    by (simp add: example_ctx_def)
qed

end
