(* ===== verification/FileLock.thy ===== *)
theory FileLock
  imports Prelude
begin

text \<open>
  POSIX, open-file-description and flock locks,
  \<^verbatim>\<open>kernel/fs/filelock.c\<close>: one table of lock records for the whole
  system. Pointers that the code only compares (inodes, open file
  descriptions) are natural numbers, with 0 for null; the lists of numbers in
  the results are the channels passed to \<open>scheduler_wake_all\<close>, in order.
  What the code reads of the descriptor table is an argument: the record
  \<open>lock_handle\<close> holds the address of a handle, the inode of the node
  it names (0 if it names none), the size of that inode, and its offset.
  The tasks that sleep in F_SETLKW and the wake-ups they get are the system of
  \<open>wait_step\<close>.
\<close>

definition MAX_FILE_LOCKS :: nat where "MAX_FILE_LOCKS = 256"

definition F_RDLCK :: int where "F_RDLCK = 0"
definition F_WRLCK :: int where "F_WRLCK = 1"
definition F_UNLCK :: int where "F_UNLCK = 2"
definition F_GETLK :: int where "F_GETLK = 5"
definition F_SETLK :: int where "F_SETLK = 6"
definition F_SETLKW :: int where "F_SETLKW = 7"
definition F_OFD_GETLK :: int where "F_OFD_GETLK = 36"
definition F_OFD_SETLK :: int where "F_OFD_SETLK = 37"
definition F_OFD_SETLKW :: int where "F_OFD_SETLKW = 38"
definition LOCK_SH :: u32 where "LOCK_SH = 1"
definition LOCK_EX :: u32 where "LOCK_EX = 2"
definition LOCK_NB :: u32 where "LOCK_NB = 4"
definition LOCK_UN :: u32 where "LOCK_UN = 8"
definition B1NIX_SEEK_SET :: int where "B1NIX_SEEK_SET = 0"
definition B1NIX_SEEK_CUR :: int where "B1NIX_SEEK_CUR = 1"
definition B1NIX_SEEK_END :: int where "B1NIX_SEEK_END = 2"

lemmas lock_consts = F_RDLCK_def F_WRLCK_def F_UNLCK_def F_GETLK_def F_SETLK_def F_SETLKW_def

record flock =
  l_type :: int
  l_whence :: int
  l_start :: u64
  l_len :: u64
  l_pid :: int

record file_lock =
  fl_inode :: nat
  fl_pid :: int
  fl_ofd :: nat
  fl_type :: int
  fl_start :: u64
  fl_len :: u64
  fl_active :: bool

record lock_state =
  file_locks :: "file_lock table"
  filelock_initialized :: bool

record lock_handle =
  lh_addr :: nat
  lh_inode :: nat
  lh_size :: u64
  lh_offset :: u64

section \<open>Records\<close>

definition lock_is_mine :: "file_lock \<Rightarrow> int \<Rightarrow> nat \<Rightarrow> bool" where
  "lock_is_mine l my_pid my_ofd =
     (if my_ofd \<noteq> 0 then fl_ofd l = my_ofd else fl_ofd l = 0 \<and> fl_pid l = my_pid)"

definition file_lock_zero :: file_lock where
  "file_lock_zero = \<lparr>fl_inode = 0, fl_pid = 0, fl_ofd = 0, fl_type = 0, fl_start = 0, fl_len = 0, fl_active = False\<rparr>"

definition filelock_init :: "lock_state \<Rightarrow> lock_state" where
  "filelock_init st = st\<lparr>file_locks := (\<lambda>_. file_lock_zero), filelock_initialized := True\<rparr>"

definition alloc_lock :: "file_lock table \<Rightarrow> (nat \<times> file_lock table) option" where
  "alloc_lock t =
     (case first_slot (\<lambda>i. \<not> fl_active (t i)) MAX_FILE_LOCKS of
        None \<Rightarrow> None
      | Some i \<Rightarrow> Some (i, t(i := file_lock_zero\<lparr>fl_active := True\<rparr>)))"

definition free_lock :: "nat \<Rightarrow> file_lock table \<Rightarrow> file_lock table" where
  "free_lock i t = t(i := (t i)\<lparr>fl_active := False\<rparr>)"

definition lock_end :: "u64 \<Rightarrow> u64 \<Rightarrow> u64" where
  "lock_end start len = (if len \<noteq> 0 then start + len - 1 else - 1)"

definition lock_overlaps :: "u64 \<Rightarrow> u64 \<Rightarrow> u64 \<Rightarrow> u64 \<Rightarrow> bool" where
  "lock_overlaps start1 len1 start2 len2 \<longleftrightarrow>
     start1 \<le> lock_end start2 len2 \<and> start2 \<le> lock_end start1 len1"

definition lock_conflicts :: "file_lock \<Rightarrow> int \<Rightarrow> bool" where
  "lock_conflicts existing lock_type \<longleftrightarrow> \<not> (fl_type existing = F_RDLCK \<and> lock_type = F_RDLCK)"

section \<open>Merging\<close>

definition can_merge :: "u64 \<Rightarrow> u64 \<Rightarrow> u64 \<Rightarrow> u64 \<Rightarrow> bool" where
  "can_merge start1 len1 start2 len2 =
     (let end1 = lock_end start1 len1; end2 = lock_end start2 len2 in
      if end1 = - 1 then (if start2 < start1 then end2 = - 1 \<or> end2 + 1 \<ge> start1 else True)
      else if end2 = - 1 then (if start1 < start2 then end1 + 1 \<ge> start2 else True)
      else start1 \<le> end2 + 1 \<and> start2 \<le> end1 + 1)"

definition own_lock :: "nat \<Rightarrow> int \<Rightarrow> nat \<Rightarrow> file_lock \<Rightarrow> bool" where
  "own_lock inode pid ofd l \<longleftrightarrow> fl_active l \<and> fl_inode l = inode \<and> lock_is_mine l pid ofd"

definition mergeable :: "nat \<Rightarrow> int \<Rightarrow> nat \<Rightarrow> file_lock table \<Rightarrow> nat \<Rightarrow> nat \<Rightarrow> bool" where
  "mergeable inode pid ofd t i j \<longleftrightarrow>
     i < j \<and> own_lock inode pid ofd (t j) \<and> fl_type (t i) = fl_type (t j)
     \<and> can_merge (fl_start (t i)) (fl_len (t i)) (fl_start (t j)) (fl_len (t j))"

definition merge_pair :: "nat \<Rightarrow> int \<Rightarrow> nat \<Rightarrow> file_lock table \<Rightarrow> (nat \<times> nat) option" where
  "merge_pair inode pid ofd t =
     (case first_slot (\<lambda>i. own_lock inode pid ofd (t i)
                           \<and> first_slot (mergeable inode pid ofd t i) MAX_FILE_LOCKS \<noteq> None) MAX_FILE_LOCKS of
        None \<Rightarrow> None
      | Some i \<Rightarrow>
          (case first_slot (mergeable inode pid ofd t i) MAX_FILE_LOCKS of
             None \<Rightarrow> None
           | Some j \<Rightarrow> Some (i, j)))"

definition merge_locks :: "file_lock \<Rightarrow> file_lock \<Rightarrow> file_lock" where
  "merge_locks l1 l2 =
     (let start1 = fl_start l1; end1 = lock_end start1 (fl_len l1);
          start2 = fl_start l2; end2 = lock_end start2 (fl_len l2);
          new_start = (if start1 < start2 then start1 else start2);
          new_end = (if end1 = - 1 \<or> end2 = - 1 then - 1 else if end1 > end2 then end1 else end2)
      in l1\<lparr>fl_start := new_start, fl_len := (if new_end = - 1 then 0 else new_end - new_start + 1)\<rparr>)"

definition active_locks :: "file_lock table \<Rightarrow> nat" where
  "active_locks t = (\<Sum>i<MAX_FILE_LOCKS. if fl_active (t i) then 1 else 0)"

lemma free_lock_active:
  assumes "i < MAX_FILE_LOCKS" "fl_active (t i)"
  shows "active_locks (free_lock i t) < active_locks t"
  using sum_table_upd [of i MAX_FILE_LOCKS "\<lambda>l. if fl_active l then 1 else 0" t "(t i)\<lparr>fl_active := False\<rparr>"] assms
  by (simp add: active_locks_def free_lock_def)

lemma merge_pair_SomeD:
  assumes "merge_pair inode pid ofd t = Some (i, j)"
  shows "i < MAX_FILE_LOCKS" "own_lock inode pid ofd (t i)" "j < MAX_FILE_LOCKS" "mergeable inode pid ofd t i j"
  using assms by (auto simp: merge_pair_def split: option.splits dest: first_slot_SomeD(1,2))

lemma merge_measure:
  assumes "merge_pair inode pid ofd t = Some (i, j)"
  shows "active_locks (free_lock j (t(i := merge_locks (t i) (t j)))) < active_locks t"
proof -
  note d = merge_pair_SomeD [OF assms]
  have ij: "i \<noteq> j" and act: "fl_active (t i)" "fl_active (t j)"
    using d(2,4) by (auto simp: mergeable_def own_lock_def)
  let ?t = "t(i := merge_locks (t i) (t j))"
  have "active_locks ?t = active_locks t"
    unfolding active_locks_def using act by (intro sum.cong) (auto simp: merge_locks_def Let_def)
  then show ?thesis using free_lock_active [of j ?t] d(3) act(2) ij by simp
qed

function merge_adjacent_locks :: "nat \<Rightarrow> int \<Rightarrow> nat \<Rightarrow> file_lock table \<Rightarrow> file_lock table" where
  "merge_adjacent_locks inode pid ofd t =
     (case merge_pair inode pid ofd t of
        None \<Rightarrow> t
      | Some (i, j) \<Rightarrow> merge_adjacent_locks inode pid ofd (free_lock j (t(i := merge_locks (t i) (t j)))))"
  by pat_completeness auto

termination merge_adjacent_locks
  by (relation "measure (\<lambda>(inode, pid, ofd, t). active_locks t)") (auto simp: merge_measure)

declare merge_adjacent_locks.simps [simp del]

section \<open>Setting, clearing and testing a range\<close>

definition lock_hit :: "nat \<Rightarrow> int \<Rightarrow> nat \<Rightarrow> u64 \<Rightarrow> u64 \<Rightarrow> int \<Rightarrow> file_lock \<Rightarrow> bool" where
  "lock_hit inode my_pid my_ofd start len lty l \<longleftrightarrow>
     fl_active l \<and> fl_inode l = inode \<and> \<not> lock_is_mine l my_pid my_ofd
     \<and> lock_overlaps (fl_start l) (fl_len l) start len \<and> lock_conflicts l lty"

definition filelock_conflict_exists :: "nat \<Rightarrow> int \<Rightarrow> nat \<Rightarrow> u64 \<Rightarrow> u64 \<Rightarrow> int \<Rightarrow> file_lock table \<Rightarrow> bool" where
  "filelock_conflict_exists inode my_pid my_ofd start len lty t =
     (first_slot (\<lambda>i. lock_hit inode my_pid my_ofd start len lty (t i)) MAX_FILE_LOCKS \<noteq> None)"

definition straddles :: "nat \<Rightarrow> int \<Rightarrow> nat \<Rightarrow> u64 \<Rightarrow> u64 \<Rightarrow> file_lock \<Rightarrow> bool" where
  "straddles inode my_pid my_ofd start len l \<longleftrightarrow>
     own_lock inode my_pid my_ofd l \<and> fl_start l < start \<and> lock_end (fl_start l) (fl_len l) > lock_end start len"

text \<open>The test for free slots before anything is changed.\<close>

definition lock_room :: "nat \<Rightarrow> int \<Rightarrow> nat \<Rightarrow> u64 \<Rightarrow> u64 \<Rightarrow> int \<Rightarrow> file_lock table \<Rightarrow> bool" where
  "lock_room inode my_pid my_ofd start len lty t =
     (let free_slots = length (filter (\<lambda>i. \<not> fl_active (t i)) [0..<MAX_FILE_LOCKS]);
          needs_split = (first_slot (\<lambda>i. straddles inode my_pid my_ofd start len (t i)) MAX_FILE_LOCKS \<noteq> None)
      in if lty = F_UNLCK then \<not> (needs_split \<and> free_slots < 1)
         else \<not> (needs_split \<and> free_slots < 2) \<and> \<not> (\<not> needs_split \<and> free_slots < 1))"

text \<open>One round of the loop that takes the range out of the caller's own locks; \<^term>\<open>None\<close> is out of slots.\<close>

definition trim_lock :: "nat \<Rightarrow> int \<Rightarrow> nat \<Rightarrow> u64 \<Rightarrow> u64 \<Rightarrow> nat \<Rightarrow> file_lock table \<Rightarrow> file_lock table option" where
  "trim_lock inode my_pid my_ofd start len i t =
     (let l = t i; end' = lock_end start len; L_start = fl_start l; L_end = lock_end L_start (fl_len l) in
      if \<not> (own_lock inode my_pid my_ofd l \<and> lock_overlaps L_start (fl_len l) start len) then Some t
      else if L_start < start \<and> L_end > end' then
        (case alloc_lock t of
           None \<Rightarrow> None
         | Some (j, t1) \<Rightarrow>
             Some (t1(j := (t1 j)\<lparr>fl_inode := inode, fl_pid := my_pid, fl_ofd := my_ofd, fl_type := fl_type l,
                                fl_start := end' + 1, fl_len := (if L_end = - 1 then 0 else L_end - (end' + 1) + 1)\<rparr>,
                      i := l\<lparr>fl_len := start - L_start\<rparr>)))
      else if L_start < start \<and> L_end \<le> end' then Some (t(i := l\<lparr>fl_len := start - L_start\<rparr>))
      else if L_start \<ge> start \<and> L_end > end' then
        Some (t(i := l\<lparr>fl_start := end' + 1, fl_len := (if L_end = - 1 then 0 else L_end - (end' + 1) + 1)\<rparr>))
      else Some (free_lock i t))"

fun trim_locks :: "nat \<Rightarrow> int \<Rightarrow> nat \<Rightarrow> u64 \<Rightarrow> u64 \<Rightarrow> nat list \<Rightarrow> file_lock table \<Rightarrow> bool \<times> file_lock table" where
  "trim_locks inode my_pid my_ofd start len [] t = (True, t)"
| "trim_locks inode my_pid my_ofd start len (i # is) t =
     (case trim_lock inode my_pid my_ofd start len i t of
        None \<Rightarrow> (False, t)
      | Some t' \<Rightarrow> trim_locks inode my_pid my_ofd start len is t')"

definition apply_lock :: "nat \<Rightarrow> int \<Rightarrow> nat \<Rightarrow> u64 \<Rightarrow> u64 \<Rightarrow> int \<Rightarrow> file_lock table \<Rightarrow> unit result \<times> file_lock table" where
  "apply_lock inode my_pid my_ofd start len lty t =
     (if \<not> lock_room inode my_pid my_ofd start len lty t then (Inl ENOMEM, t)
      else case trim_locks inode my_pid my_ofd start len [0..<MAX_FILE_LOCKS] t of
        (False, t1) \<Rightarrow> (Inl ENOMEM, t1)
      | (True, t1) \<Rightarrow>
          if lty = F_UNLCK then (Inr (), t1)
          else (case alloc_lock t1 of
                  None \<Rightarrow> (Inl ENOMEM, t1)
                | Some (j, t2) \<Rightarrow>
                    (Inr (), merge_adjacent_locks inode my_pid my_ofd
                       (t2(j := (t2 j)\<lparr>fl_inode := inode, fl_pid := my_pid, fl_ofd := my_ofd, fl_type := lty,
                                     fl_start := start, fl_len := len\<rparr>)))))"

text \<open>One pass of a locking call: it waits while another owner holds a conflicting lock.\<close>

definition setlk_try ::
    "nat \<Rightarrow> int \<Rightarrow> nat \<Rightarrow> u64 \<Rightarrow> flock \<Rightarrow> lock_state \<Rightarrow> (flock \<times> nat list) result option \<times> lock_state" where
  "setlk_try inode my_pid my_ofd start fl st =
     (if l_type fl \<noteq> F_UNLCK
         \<and> filelock_conflict_exists inode my_pid my_ofd start (l_len fl) (l_type fl) (file_locks st)
      then (None, st)
      else case apply_lock inode my_pid my_ofd start (l_len fl) (l_type fl) (file_locks st) of
        (r, t) \<Rightarrow> (Some (map_sum id (\<lambda>_. (fl, [inode])) r), st\<lparr>file_locks := t\<rparr>))"

text \<open>The loop of F_GETLK over the table, and the answer it writes.\<close>

fun getlk_scan :: "nat \<Rightarrow> int \<Rightarrow> nat \<Rightarrow> u64 \<Rightarrow> flock \<Rightarrow> file_lock table \<Rightarrow> nat list \<Rightarrow> file_lock option" where
  "getlk_scan inode my_pid my_ofd start fl t [] = None"
| "getlk_scan inode my_pid my_ofd start fl t (i # is) =
     (if fl_active (t i) \<and> fl_inode (t i) = inode \<and> \<not> lock_is_mine (t i) my_pid my_ofd then
        if lock_overlaps (fl_start (t i)) (fl_len (t i)) start (l_len fl) then
          if lock_conflicts (t i) (l_type fl) then Some (t i)
          else getlk_scan inode my_pid my_ofd start fl t is
        else getlk_scan inode my_pid my_ofd start fl t is
      else getlk_scan inode my_pid my_ofd start fl t is)"

definition getlk :: "nat \<Rightarrow> int \<Rightarrow> nat \<Rightarrow> u64 \<Rightarrow> flock \<Rightarrow> file_lock table \<Rightarrow> flock" where
  "getlk inode my_pid my_ofd start fl t =
     (case getlk_scan inode my_pid my_ofd start fl t [0..<MAX_FILE_LOCKS] of
        Some conflicting \<Rightarrow>
          fl\<lparr>l_type := fl_type conflicting, l_start := fl_start conflicting, l_len := fl_len conflicting,
             l_pid := (if fl_ofd conflicting \<noteq> 0 then - 1 else fl_pid conflicting), l_whence := B1NIX_SEEK_SET\<rparr>
      | None \<Rightarrow> fl\<lparr>l_type := F_UNLCK\<rparr>)"

definition lock_start :: "lock_handle \<Rightarrow> flock \<Rightarrow> u64" where
  "lock_start h fl =
     (if l_whence fl = B1NIX_SEEK_CUR then lh_offset h + l_start fl
      else if l_whence fl = B1NIX_SEEK_END then (if lh_inode h \<noteq> 0 then lh_size h else 0) + l_start fl
      else l_start fl)"

definition lock_scope :: "lock_handle \<Rightarrow> nat" where
  "lock_scope h = (if lh_inode h \<noteq> 0 then lh_inode h else lh_addr h)"

text \<open>
  \<open>owner\<close> is \<open>filelock_owner()\<close>, the thread group of the caller, and
  \<open>fd_get\<close> is \<open>scheduler_fd_get\<close> on its descriptor table.
\<close>

definition filelock_do ::
    "int \<Rightarrow> (int \<Rightarrow> lock_handle option) \<Rightarrow> int \<Rightarrow> int \<Rightarrow> flock \<Rightarrow> nat \<Rightarrow> lock_state sleep list \<Rightarrow> lock_state
     \<Rightarrow> (flock \<times> nat list) outcome \<times> lock_state" where
  "filelock_do owner fd_get fd cmd fl ofd ws st =
     (if \<not> filelock_initialized st \<or> fd < 0 then (Done (Inl EINVAL), st)
      else case fd_get fd of
        None \<Rightarrow> (Done (Inl EBADF), st)
      | Some h \<Rightarrow>
          if cmd = F_GETLK
          then (Done (Inr (getlk (lock_scope h) owner ofd (lock_start h fl) fl (file_locks st), [])), st)
          else blocking (setlk_try (lock_scope h) owner ofd (lock_start h fl) fl)
                 (if cmd = F_SETLK then Some EAGAIN else None) ERESTARTSYS ws st)"

definition filelock_set_lock ::
    "int \<Rightarrow> (int \<Rightarrow> lock_handle option) \<Rightarrow> int \<Rightarrow> int \<Rightarrow> flock \<Rightarrow> lock_state sleep list \<Rightarrow> lock_state
     \<Rightarrow> (flock \<times> nat list) outcome \<times> lock_state" where
  "filelock_set_lock owner fd_get fd cmd fl ws st = filelock_do owner fd_get fd cmd fl 0 ws st"

definition filelock_set_lock_ofd ::
    "int \<Rightarrow> (int \<Rightarrow> lock_handle option) \<Rightarrow> int \<Rightarrow> int \<Rightarrow> flock \<Rightarrow> lock_state sleep list \<Rightarrow> lock_state
     \<Rightarrow> (flock \<times> nat list) outcome \<times> lock_state" where
  "filelock_set_lock_ofd owner fd_get fd cmd fl ws st =
     (case fd_get fd of
        None \<Rightarrow> (Done (Inl EBADF), st)
      | Some h \<Rightarrow>
          (case (if cmd = F_OFD_GETLK then Some F_GETLK else if cmd = F_OFD_SETLK then Some F_SETLK
                 else if cmd = F_OFD_SETLKW then Some F_SETLKW else None) of
             None \<Rightarrow> (Done (Inl EINVAL), st)
           | Some base \<Rightarrow>
               if l_pid fl \<noteq> 0 then (Done (Inl EINVAL), st)
               else filelock_do owner fd_get fd base fl (lh_addr h) ws st))"

section \<open>Releasing\<close>

definition release_ofd_slot :: "nat \<Rightarrow> nat \<Rightarrow> file_lock table \<times> nat list \<Rightarrow> file_lock table \<times> nat list" where
  "release_ofd_slot ofd i tw =
     (let t = fst tw; l = t i in
      if fl_active l \<and> fl_ofd l = ofd
      then (free_lock i t,
            if fl_inode l \<noteq> 0 \<and> (snd tw = [] \<or> last (snd tw) \<noteq> fl_inode l) then snd tw @ [fl_inode l] else snd tw)
      else tw)"

definition filelock_release_all_by_ofd :: "nat \<Rightarrow> lock_state \<Rightarrow> nat list \<times> lock_state" where
  "filelock_release_all_by_ofd ofd st =
     (if \<not> filelock_initialized st \<or> ofd = 0 then ([], st)
      else case fold (release_ofd_slot ofd) [0..<MAX_FILE_LOCKS] (file_locks st, []) of
        (t, woken) \<Rightarrow> (woken, st\<lparr>file_locks := t\<rparr>))"

definition filelock_release_all_by_pid_inode :: "int \<Rightarrow> nat \<Rightarrow> lock_state \<Rightarrow> nat list \<times> lock_state" where
  "filelock_release_all_by_pid_inode pid inode st =
     (if \<not> filelock_initialized st \<or> inode = 0 then ([], st)
      else let t = file_locks st;
               drop = (\<lambda>l. fl_active l \<and> fl_inode l = inode \<and> fl_pid l = pid);
               t' = (\<lambda>i. if i < MAX_FILE_LOCKS \<and> drop (t i) then (t i)\<lparr>fl_active := False\<rparr> else t i)
        in (if list_ex (\<lambda>i. drop (t i)) [0..<MAX_FILE_LOCKS] then [inode] else [], st\<lparr>file_locks := t'\<rparr>))"

text \<open>\<open>node_inode\<close> is the inode of \<open>vfs_find_node_by_fd\<close>, if it finds a node.\<close>

definition filelock_unlock :: "int \<Rightarrow> (int \<Rightarrow> nat option) \<Rightarrow> int \<Rightarrow> lock_state \<Rightarrow> nat list result \<times> lock_state" where
  "filelock_unlock owner node_inode fd st =
     (if \<not> filelock_initialized st \<or> fd < 0 then (Inl EINVAL, st)
      else case node_inode fd of
        None \<Rightarrow> (Inl EBADF, st)
      | Some inode \<Rightarrow>
          (case filelock_release_all_by_pid_inode owner inode st of (woken, st') \<Rightarrow> (Inr woken, st')))"

definition filelock_check_lock ::
    "int \<Rightarrow> (int \<Rightarrow> nat option) \<Rightarrow> int \<Rightarrow> int \<Rightarrow> u64 \<Rightarrow> u64 \<Rightarrow> lock_state \<Rightarrow> int option" where
  "filelock_check_lock owner node_inode fd lock_type start len st =
     (if \<not> filelock_initialized st \<or> fd < 0 then None
      else case node_inode fd of
        None \<Rightarrow> None
      | Some inode \<Rightarrow>
          map_option (\<lambda>i. fl_pid (file_locks st i))
            (first_slot (\<lambda>i. let l = file_locks st i in
               fl_active l \<and> fl_inode l = inode \<and> fl_pid l \<noteq> owner
               \<and> lock_overlaps (fl_start l) (fl_len l) start len \<and> lock_conflicts l lock_type) MAX_FILE_LOCKS))"

definition filelock_flock ::
    "int \<Rightarrow> (int \<Rightarrow> lock_handle option) \<Rightarrow> int \<Rightarrow> u32 \<Rightarrow> lock_state sleep list \<Rightarrow> lock_state
     \<Rightarrow> (flock \<times> nat list) outcome \<times> lock_state" where
  "filelock_flock owner fd_get fd operation ws st =
     (if \<not> filelock_initialized st \<or> fd < 0 then (Done (Inl EINVAL), st)
      else let kind = operation AND NOT LOCK_NB;
               ty = (if kind = LOCK_SH then Some F_RDLCK else if kind = LOCK_EX then Some F_WRLCK
                     else if kind = LOCK_UN then Some F_UNLCK else None) in
        case ty of
          None \<Rightarrow> (Done (Inl EINVAL), st)
        | Some ty \<Rightarrow>
            filelock_set_lock owner fd_get fd (if operation AND LOCK_NB \<noteq> 0 then F_SETLK else F_SETLKW)
              \<lparr>l_type = ty, l_whence = 0, l_start = 0, l_len = 0, l_pid = owner\<rparr> ws st)"


section \<open>Ranges\<close>

definition range_ok :: "u64 \<Rightarrow> u64 \<Rightarrow> bool" where
  "range_ok start len \<longleftrightarrow> start \<le> lock_end start len"

definition lock_range :: "file_lock \<Rightarrow> u64 set" where
  "lock_range l = {fl_start l..lock_end (fl_start l) (fl_len l)}"

text \<open>A range is in order exactly when its end does not wrap around.\<close>

lemma range_ok_iff: "range_ok start len \<longleftrightarrow> len = 0 \<or> unat start + unat len \<le> 2 ^ 64"
proof (cases "len = 0")
  case False
  then have len: "0 < unat len" by (simp add: unat_gt_0)
  show ?thesis
  proof (cases "unat start + unat len \<le> 2 ^ 64")
    case True
    have "unat (start + (len - 1)) = unat start + (unat len - 1)"
    proof -
      have "unat start + unat (len - 1) < 2 ^ 64" using True len False by (simp add: unat_minus_one)
      then show ?thesis using False by (simp add: unat_word_ariths unat_minus_one)
    qed
    then show ?thesis using True False by (simp add: range_ok_def lock_end_def word_le_nat_alt add_diff_eq)
  next
    case nle: False
    have "unat len < 2 ^ 64" "unat start < 2 ^ 64"
      using unsigned_less [of len, where ?'a = nat] unsigned_less [of start, where ?'a = nat] by simp_all
    then have "unat (start + (len - 1)) = unat start + (unat len - 1) - 2 ^ 64"
      using nle False len by (simp add: unat_word_ariths unat_minus_one mod_if)
    then show ?thesis
      using nle False len \<open>unat len < 2 ^ 64\<close> by (simp add: range_ok_def lock_end_def word_le_nat_alt add_diff_eq)
  qed
qed (simp add: range_ok_def lock_end_def)

lemma overlaps_iff:
  assumes "range_ok s1 l1" "range_ok s2 l2"
  shows "lock_overlaps s1 l1 s2 l2 \<longleftrightarrow> {s1..lock_end s1 l1} \<inter> {s2..lock_end s2 l2} \<noteq> {}"
proof
  assume "lock_overlaps s1 l1 s2 l2"
  then have "max s1 s2 \<in> {s1..lock_end s1 l1} \<inter> {s2..lock_end s2 l2}"
    using assms by (auto simp: lock_overlaps_def range_ok_def max_def)
  then show "{s1..lock_end s1 l1} \<inter> {s2..lock_end s2 l2} \<noteq> {}" by blast
qed (auto simp: lock_overlaps_def)

lemma word_le_pred: "(0 :: u64) < a \<Longrightarrow> x \<le> a - 1 \<longleftrightarrow> x < a"
  by (simp add: word_le_nat_alt word_less_nat_alt unat_minus_one unat_gt_0 [symmetric]) arith

lemma word_succ_le: "(a :: u64) < c \<Longrightarrow> a + 1 \<le> x \<longleftrightarrow> a < x"
proof -
  assume "a < c"
  then have "unat a + 1 < 2 ^ 64"
    using unsigned_less [of c, where ?'a = nat] by (simp add: word_less_nat_alt)
  then have "unat (a + 1) = unat a + 1" by (simp add: unat_word_ariths)
  then show ?thesis by (simp add: word_le_nat_alt word_less_nat_alt) arith
qed

text \<open>What is left below and above a range that was cut out.\<close>

lemma lock_end_below: "a < s \<Longrightarrow> lock_end a (s - a) = s - 1"
  by (auto simp: lock_end_def)

lemma lock_end_above: "e < b \<Longrightarrow> lock_end (e + 1) (if b = - 1 then 0 else b - (e + 1) + 1) = b"
  by (auto simp: lock_end_def)

lemma range_below:
  assumes "a < s"
  shows "range_ok a (s - a)" "{a..lock_end a (s - a)} = {a..<s}"
proof -
  have "0 < s" using assms by (metis word_gt_0 word_not_simps(1))
  then have le: "x \<le> s - 1 \<longleftrightarrow> x < s" for x by (rule word_le_pred)
  show "range_ok a (s - a)" using assms le by (simp add: range_ok_def lock_end_below)
  show "{a..lock_end a (s - a)} = {a..<s}"
    unfolding lock_end_below [OF assms] using le by (simp add: set_eq_iff)
qed

lemma range_above:
  assumes "e < b" "m = (if b = - 1 then 0 else b - (e + 1) + 1)"
  shows "range_ok (e + 1) m" "{e + 1..lock_end (e + 1) m} = {e<..b}"
proof -
  have e: "lock_end (e + 1) m = b" unfolding assms(2) by (rule lock_end_above [OF assms(1)])
  show "range_ok (e + 1) m" using word_succ_le [OF assms(1)] assms(1) by (simp add: range_ok_def e)
  show "{e + 1..lock_end (e + 1) m} = {e<..b}"
    unfolding e using word_succ_le [OF assms(1)] by (simp add: set_eq_iff)
qed

lemma unat_succ: "(e :: u64) \<noteq> - 1 \<Longrightarrow> unat (e + 1) = unat e + 1"
proof -
  assume "e \<noteq> - 1"
  then have "e < - 1" using word_n1_ge [of e] by (simp add: order.not_eq_order_implies_strict)
  then have "unat e + 1 < 2 ^ 64"
    using unsigned_less [of "- 1 :: u64", where ?'a = nat] unfolding word_less_nat_alt by simp
  then show ?thesis by (simp add: unat_word_ariths)
qed

lemma can_merge_touch:
  assumes "range_ok a1 m1" "range_ok a2 m2" "can_merge a1 m1 a2 m2"
  shows "unat a1 \<le> unat (lock_end a2 m2) + 1" "unat a2 \<le> unat (lock_end a1 m1) + 1"
proof -
  have top: "unat x \<le> unat (- 1 :: u64)" for x :: u64 using word_n1_ge [of x] by (simp only: word_le_nat_alt)
  define e1 e2 where e: "e1 = lock_end a1 m1" "e2 = lock_end a2 m2"
  have ok: "unat a1 \<le> unat e1" "unat a2 \<le> unat e2" using assms(1,2) by (simp_all only: range_ok_def e word_le_nat_alt)
  have merge: "if e1 = - 1 then (if a2 < a1 then e2 = - 1 \<or> e2 + 1 \<ge> a1 else True)
      else if e2 = - 1 then (if a1 < a2 then e1 + 1 \<ge> a2 else True) else a1 \<le> e2 + 1 \<and> a2 \<le> e1 + 1"
    using assms(3) unfolding can_merge_def Let_def e .
  consider "e1 = - 1" "e2 = - 1" | "e1 = - 1" "e2 \<noteq> - 1" | "e1 \<noteq> - 1" "e2 = - 1" | "e1 \<noteq> - 1" "e2 \<noteq> - 1" by blast
  then have "unat a1 \<le> unat e2 + 1 \<and> unat a2 \<le> unat e1 + 1"
  proof cases
    case 1
    then show ?thesis using top [of a1] top [of a2] by (simp only:) simp
  next
    case 2
    then show ?thesis
      using merge ok top [of a2] unat_succ [OF 2(2)] by (auto simp: word_le_nat_alt word_less_nat_alt split: if_splits)
  next
    case 3
    then show ?thesis
      using merge ok top [of a1] unat_succ [OF 3(1)] by (auto simp: word_le_nat_alt word_less_nat_alt split: if_splits)
  next
    case 4
    then show ?thesis
      using merge unat_succ [OF 4(1)] unat_succ [OF 4(2)] by (simp add: word_le_nat_alt)
  qed
  then show "unat a1 \<le> unat (lock_end a2 m2) + 1" "unat a2 \<le> unat (lock_end a1 m1) + 1" by (simp_all add: e)
qed

lemma lock_end_between:
  assumes "a \<le> e"
  shows "lock_end a (if e = - 1 then 0 else e - a + 1) = e"
proof -
  have "e - a + 1 \<noteq> 0" if "e \<noteq> - 1"
  proof
    assume "e - a + 1 = 0"
    then have "a = e + 1" by (simp add: algebra_simps eq_diff_eq)
    then show False using assms unat_succ [OF that] by (simp add: word_le_nat_alt)
  qed
  then show ?thesis by (auto simp: lock_end_def)
qed

lemma merge_range:
  assumes "range_ok (fl_start l1) (fl_len l1)" "range_ok (fl_start l2) (fl_len l2)"
    "can_merge (fl_start l1) (fl_len l1) (fl_start l2) (fl_len l2)"
  shows "range_ok (fl_start (merge_locks l1 l2)) (fl_len (merge_locks l1 l2))
    \<and> lock_range (merge_locks l1 l2) = lock_range l1 \<union> lock_range l2"
proof -
  define a1 a2 where d: "a1 = fl_start l1" "a2 = fl_start l2"
  define e1 e2 where d': "e1 = lock_end a1 (fl_len l1)" "e2 = lock_end a2 (fl_len l2)"
  define a e where ae: "a = min a1 a2" "e = max e1 e2"
  have ok: "a1 \<le> e1" "a2 \<le> e2" using assms(1,2) by (simp_all add: range_ok_def d d')
  then have le: "a \<le> e" by (auto simp: ae min_def max_def)
  have ne: "(if e1 = - 1 \<or> e2 = - 1 then - 1 else if e1 > e2 then e1 else e2) = e"
    by (auto simp: ae max_def not_le dest: order.antisym [OF word_n1_ge])
  have sa: "(if a1 < a2 then a1 else a2) = a" by (auto simp: ae min_def)
  have s: "fl_start (merge_locks l1 l2) = a" and "fl_len (merge_locks l1 l2) = (if e = - 1 then 0 else e - a + 1)"
    unfolding merge_locks_def Let_def d [symmetric] d' [symmetric] ne sa by simp_all
  then have last: "lock_end a (fl_len (merge_locks l1 l2)) = e"
    using lock_end_between [OF le] by (simp only:)
  have "{a..e} = {a1..e1} \<union> {a2..e2}"
    using can_merge_touch [OF assms] ok
    unfolding d [symmetric] d' [symmetric] by (auto simp: ae min_def max_def word_le_nat_alt)
  then show ?thesis
    using le by (simp only: range_ok_def lock_range_def last s d [symmetric] d' [symmetric] simp_thms)
qed
section \<open>The bytes an owner holds\<close>

datatype owner = Process int | Description nat

definition lock_owner :: "file_lock \<Rightarrow> owner" where
  "lock_owner l = (if fl_ofd l \<noteq> 0 then Description (fl_ofd l) else Process (fl_pid l))"

definition req_owner :: "int \<Rightarrow> nat \<Rightarrow> owner" where
  "req_owner pid ofd = (if ofd \<noteq> 0 then Description ofd else Process pid)"

definition holds_byte :: "file_lock \<Rightarrow> nat \<Rightarrow> owner \<Rightarrow> u64 \<Rightarrow> int \<Rightarrow> bool" where
  "holds_byte l n w b ty \<longleftrightarrow> fl_active l \<and> fl_inode l = n \<and> lock_owner l = w \<and> b \<in> lock_range l \<and> fl_type l = ty"

definition held :: "file_lock table \<Rightarrow> nat \<Rightarrow> owner \<Rightarrow> u64 \<Rightarrow> int \<Rightarrow> bool" where
  "held t n w b ty \<longleftrightarrow> (\<exists>i<MAX_FILE_LOCKS. holds_byte (t i) n w b ty)"

definition locks_ok :: "file_lock table \<Rightarrow> bool" where
  "locks_ok t \<longleftrightarrow>
     (\<forall>i<MAX_FILE_LOCKS. fl_active (t i) \<longrightarrow> range_ok (fl_start (t i)) (fl_len (t i)) \<and> fl_type (t i) \<noteq> F_UNLCK)
     \<and> (\<forall>i<MAX_FILE_LOCKS. \<forall>j<MAX_FILE_LOCKS. \<forall>n w b ty ty'. holds_byte (t i) n w b ty \<longrightarrow> holds_byte (t j) n w b ty' \<longrightarrow> i = j)"

definition locks_exclude :: "file_lock table \<Rightarrow> bool" where
  "locks_exclude t \<longleftrightarrow> (\<forall>n w w' b ty ty'. held t n w b ty \<longrightarrow> held t n w' b ty' \<longrightarrow> w \<noteq> w' \<longrightarrow> ty = F_RDLCK \<and> ty' = F_RDLCK)"

lemma mine_iff: "lock_is_mine l pid ofd \<longleftrightarrow> lock_owner l = req_owner pid ofd"
  by (auto simp: lock_is_mine_def lock_owner_def req_owner_def)

lemma own_iff: "own_lock n pid ofd l \<longleftrightarrow> fl_active l \<and> fl_inode l = n \<and> lock_owner l = req_owner pid ofd"
  by (simp add: own_lock_def mine_iff)

lemma held_upd:
  "i < MAX_FILE_LOCKS \<Longrightarrow> held (t(i := l)) n w b ty \<longleftrightarrow>
     holds_byte l n w b ty \<or> (\<exists>j<MAX_FILE_LOCKS. j \<noteq> i \<and> holds_byte (t j) n w b ty)"
  by (auto simp: held_def)

lemma held_split:
  "i < MAX_FILE_LOCKS \<Longrightarrow> held t n w b ty \<longleftrightarrow>
     holds_byte (t i) n w b ty \<or> (\<exists>j<MAX_FILE_LOCKS. j \<noteq> i \<and> holds_byte (t j) n w b ty)"
  by (auto simp: held_def)

lemma inactive_holds [simp]: "\<not> fl_active l \<Longrightarrow> \<not> holds_byte l n w b ty"
  by (simp add: holds_byte_def)

lemma locks_okD:
  assumes "locks_ok t" "i < MAX_FILE_LOCKS"
  shows "fl_active (t i) \<Longrightarrow> range_ok (fl_start (t i)) (fl_len (t i))" "fl_active (t i) \<Longrightarrow> fl_type (t i) \<noteq> F_UNLCK"
    "j < MAX_FILE_LOCKS \<Longrightarrow> holds_byte (t i) n w b ty \<Longrightarrow> holds_byte (t j) n w b ty' \<Longrightarrow> i = j"
  using assms unfolding locks_ok_def by blast+

text \<open>Replacing a record by one that holds bytes no other record of its owner holds.\<close>

lemma locks_ok_upd:
  assumes "locks_ok t" "fl_active l \<Longrightarrow> range_ok (fl_start l) (fl_len l) \<and> fl_type l \<noteq> F_UNLCK"
    "\<And>j n w b ty ty'. j < MAX_FILE_LOCKS \<Longrightarrow> j \<noteq> i \<Longrightarrow> holds_byte l n w b ty \<Longrightarrow> \<not> holds_byte (t j) n w b ty'"
  shows "locks_ok (t(i := l))"
  unfolding locks_ok_def
proof (intro conjI allI impI)
  fix j assume "j < MAX_FILE_LOCKS" "fl_active ((t(i := l)) j)"
  then show "range_ok (fl_start ((t(i := l)) j)) (fl_len ((t(i := l)) j))" "fl_type ((t(i := l)) j) \<noteq> F_UNLCK"
    using assms(1,2) locks_okD(1,2) [OF assms(1), of j] by (auto split: if_splits)
next
  fix j k n w b ty ty'
  assume j: "j < MAX_FILE_LOCKS" "k < MAX_FILE_LOCKS"
    and h: "holds_byte ((t(i := l)) j) n w b ty" "holds_byte ((t(i := l)) k) n w b ty'"
  show "j = k"
  proof (rule ccontr)
    assume "j \<noteq> k"
    then show False
      using h assms(3) [of j n w b ty' ty] assms(3) [of k n w b ty ty'] locks_okD(3) [OF assms(1) j(1) j(2), of n w b ty ty'] j
      by (auto split: if_splits)
  qed
qed
section \<open>Cutting a range out of the caller's locks\<close>

definition clear_of :: "nat \<Rightarrow> owner \<Rightarrow> u64 set \<Rightarrow> file_lock \<Rightarrow> bool" where
  "clear_of n w R l \<longleftrightarrow> (\<forall>b\<in>R. \<forall>ty. \<not> holds_byte l n w b ty)"

text \<open>The two parts of an own lock that a cut leaves.\<close>

lemma low_part:
  assumes "own_lock n pid ofd l" "fl_start l < start" "start \<le> lock_end (fl_start l) (fl_len l)"
    "l' = l\<lparr>fl_len := start - fl_start l\<rparr>"
  shows "range_ok (fl_start l') (fl_len l')" "holds_byte l' m v b ty \<longleftrightarrow> holds_byte l m v b ty \<and> b < start"
  using range_below [OF assms(2)] assms(1,3)
  by (auto simp: assms(4) holds_byte_def own_iff lock_owner_def lock_range_def)

lemma high_part:
  assumes "own_lock n pid ofd l" "own_lock n pid ofd l'" "fl_type l' = fl_type l"
    "fl_start l \<le> e" "e < lock_end (fl_start l) (fl_len l)" "z = lock_end (fl_start l) (fl_len l)"
    "fl_start l' = e + 1" "fl_len l' = (if z = - 1 then 0 else z - (e + 1) + 1)"
  shows "range_ok (fl_start l') (fl_len l')" "holds_byte l' m v b ty \<longleftrightarrow> holds_byte l m v b ty \<and> e < b"
proof -
  have ez: "e < z" using assms(5,6) by simp
  note above = range_above [OF ez refl, folded assms(7,8)]
  show "range_ok (fl_start l') (fl_len l')" by (rule above(1))
  have "lock_range l' = {e<..z}" "lock_range l = {fl_start l..z}"
    using above(2) assms(6) by (simp_all add: lock_range_def)
  then show "holds_byte l' m v b ty \<longleftrightarrow> holds_byte l m v b ty \<and> e < b"
    using assms(1-4) by (auto simp: holds_byte_def own_iff)
qed

lemma trim_lock_cases:
  assumes ok: "locks_ok t" and i: "i < MAX_FILE_LOCKS" and req: "range_ok start len"
    and R: "R = {start..lock_end start len}" and w: "w = req_owner pid ofd"
  obtains (keep) "trim_lock n pid ofd start len i t = Some t" "clear_of n w R (t i)"
  | (cut) l' where "trim_lock n pid ofd start len i t = Some (t(i := l'))" "own_lock n pid ofd (t i)"
      "fl_active l' \<Longrightarrow> range_ok (fl_start l') (fl_len l') \<and> fl_type l' \<noteq> F_UNLCK"
      "\<And>m v b ty. holds_byte l' m v b ty \<longleftrightarrow> holds_byte (t i) m v b ty \<and> b \<notin> R"
  | (full) "trim_lock n pid ofd start len i t = None" "straddles n pid ofd start len (t i)"
      "first_slot (\<lambda>i. \<not> fl_active (t i)) MAX_FILE_LOCKS = None"
  | (split) j l1 l2 where "trim_lock n pid ofd start len i t = Some (t(j := l2, i := l1))"
      "straddles n pid ofd start len (t i)" "j < MAX_FILE_LOCKS" "\<not> fl_active (t j)" "fl_active l1" "fl_active l2"
      "range_ok (fl_start l1) (fl_len l1) \<and> fl_type l1 \<noteq> F_UNLCK" "range_ok (fl_start l2) (fl_len l2) \<and> fl_type l2 \<noteq> F_UNLCK"
      "\<And>m v b ty. holds_byte l1 m v b ty \<longleftrightarrow> holds_byte (t i) m v b ty \<and> b < start"
      "\<And>m v b ty. holds_byte l2 m v b ty \<longleftrightarrow> holds_byte (t i) m v b ty \<and> lock_end start len < b"
proof -
  let ?l = "t i" and ?e = "lock_end start len" and ?z = "lock_end (fl_start (t i)) (fl_len (t i))"
  let ?lo = "?l\<lparr>fl_len := start - fl_start ?l\<rparr>" and ?hi = "?l\<lparr>fl_start := ?e + 1, fl_len := (if ?z = - 1 then 0 else ?z - (?e + 1) + 1)\<rparr>"
  have in_l: "holds_byte ?l m v b ty \<Longrightarrow> fl_start ?l \<le> b \<and> b \<le> ?z" for m v b ty
    by (simp add: holds_byte_def lock_range_def)
  consider (out) "\<not> (own_lock n pid ofd ?l \<and> lock_overlaps (fl_start ?l) (fl_len ?l) start len)"
    | (inn) "own_lock n pid ofd ?l" "fl_start ?l \<le> ?e" "start \<le> ?z"
    by (auto simp: lock_overlaps_def)
  then show ?thesis
  proof cases
    case out
    have "lock_range ?l \<inter> R = {}" if "own_lock n pid ofd ?l"
      using out that overlaps_iff [OF locks_okD(1) [OF ok i] req] by (auto simp: own_iff R lock_range_def)
    then have "clear_of n w R ?l" by (auto simp: clear_of_def holds_byte_def own_iff w)
    then show ?thesis using keep out by (simp add: trim_lock_def Let_def)
  next
    case inn
    have ty: "fl_type ?l \<noteq> F_UNLCK" "fl_active ?l" using locks_okD(2) [OF ok i] inn(1) by (auto simp: own_iff)
    have hi_own: "own_lock n pid ofd ?hi" using inn(1) by (simp add: own_lock_def lock_is_mine_def)
    have trim: "trim_lock n pid ofd start len i t = (if fl_start ?l < start \<and> ?z > ?e then
        (case alloc_lock t of None \<Rightarrow> None | Some (j, t1) \<Rightarrow> Some (t1(j := (t1 j)\<lparr>fl_inode := n, fl_pid := pid, fl_ofd := ofd,
            fl_type := fl_type ?l, fl_start := ?e + 1, fl_len := (if ?z = - 1 then 0 else ?z - (?e + 1) + 1)\<rparr>, i := ?lo)))
        else if fl_start ?l < start then Some (t(i := ?lo)) else if ?z > ?e then Some (t(i := ?hi)) else Some (free_lock i t))"
      unfolding trim_lock_def Let_def lock_overlaps_def
      by (cases "fl_start ?l < start"; cases "?z > ?e"; simp only: inn(1) inn(2,3) [THEN leD]
          linorder_not_less [symmetric] simp_thms if_True if_False)
    consider "fl_start ?l < start" "?e < ?z" | "fl_start ?l < start" "?z \<le> ?e" | "start \<le> fl_start ?l" "?e < ?z"
      | "start \<le> fl_start ?l" "?z \<le> ?e" by fastforce
    then show ?thesis
    proof cases
      case 1
      then have s: "straddles n pid ofd start len ?l" using inn by (simp add: straddles_def)
      show ?thesis
      proof (cases "first_slot (\<lambda>i. \<not> fl_active (t i)) MAX_FILE_LOCKS")
        case None
        then show ?thesis using full s 1 by (simp add: trim alloc_lock_def)
      next
        case (Some j)
        let ?new = "(file_lock_zero\<lparr>fl_active := True\<rparr>)\<lparr>fl_inode := n, fl_pid := pid, fl_ofd := ofd,
          fl_type := fl_type ?l, fl_start := ?e + 1, fl_len := (if ?z = - 1 then 0 else ?z - (?e + 1) + 1)\<rparr>"
        have new: "own_lock n pid ofd ?new" by (simp add: own_iff lock_owner_def req_owner_def)
        show ?thesis
          by (rule split [of j ?new ?lo])
             (use s 1 ty Some first_slot_SomeD(1,2) [OF Some] low_part [OF inn(1) 1(1) inn(3) refl]
                high_part [OF inn(1) new _ inn(2) 1(2) refl] in \<open>simp_all add: trim alloc_lock_def\<close>)
      qed
    next
      case 2
      have "holds_byte ?l m v b ty \<Longrightarrow> b \<le> ?e" for m v b ty using in_l 2(2) by (meson order_trans)
      then show ?thesis
        by (intro cut [of ?lo]) (use inn 2 ty low_part [OF inn(1) 2(1) inn(3) refl] in \<open>auto simp: trim R\<close>)
    next
      case 3
      have "holds_byte ?l m v b ty \<Longrightarrow> start \<le> b" for m v b ty using in_l 3(1) by (meson order_trans)
      then show ?thesis
        by (intro cut [of ?hi]) (use inn 3 ty high_part [OF inn(1) hi_own _ inn(2) 3(2) refl] in \<open>auto simp: trim R\<close>)
    next
      case 4
      have "holds_byte ?l m v b ty \<Longrightarrow> start \<le> b \<and> b \<le> ?e" for m v b ty using in_l 4 by (meson order_trans)
      then show ?thesis
        by (intro cut [of "?l\<lparr>fl_active := False\<rparr>"]) (use inn 4 in \<open>auto simp: trim R free_lock_def\<close>)
    qed
  qed
qed
text \<open>What one round keeps: nobody gains a byte, and only the caller loses bytes of the range.\<close>

definition trimmed :: "nat \<Rightarrow> owner \<Rightarrow> u64 set \<Rightarrow> file_lock table \<Rightarrow> file_lock table \<Rightarrow> bool" where
  "trimmed n w R t t' \<longleftrightarrow>
     (\<forall>m v b ty. held t' m v b ty \<longrightarrow> held t m v b ty)
     \<and> (\<forall>m v b ty. held t m v b ty \<longrightarrow> \<not> (m = n \<and> v = w \<and> b \<in> R) \<longrightarrow> held t' m v b ty)
     \<and> (\<forall>j<MAX_FILE_LOCKS. clear_of n w R (t j) \<longrightarrow> clear_of n w R (t' j))"

lemma trimmed_refl: "trimmed n w R t t"
  by (simp add: trimmed_def)

lemma trimmed_trans: "trimmed n w R t t' \<Longrightarrow> trimmed n w R t' t'' \<Longrightarrow> trimmed n w R t t''"
  unfolding trimmed_def by blast

lemma straddles_hits:
  assumes "straddles n pid ofd start len l" "range_ok start len"
  shows "holds_byte l n (req_owner pid ofd) start (fl_type l)"
  using assms by (auto simp: straddles_def own_iff holds_byte_def lock_range_def range_ok_def)

lemma straddles_not_clear:
  assumes "straddles n pid ofd start len l" "range_ok start len"
  shows "\<not> clear_of n (req_owner pid ofd) {start..lock_end start len} l"
  using straddles_hits [OF assms] assms(2) by (auto simp: clear_of_def range_ok_def)

lemma locks_ok_less:
  assumes "locks_ok t" "i < MAX_FILE_LOCKS" "fl_active l \<Longrightarrow> range_ok (fl_start l) (fl_len l) \<and> fl_type l \<noteq> F_UNLCK"
    "\<And>n w b ty. holds_byte l n w b ty \<Longrightarrow> holds_byte (t i) n w b ty"
  shows "locks_ok (t(i := l))"
  using assms(1,3) locks_okD(3) [OF assms(1) _ assms(2)] assms(4) by (intro locks_ok_upd) blast+

lemma held_two:
  assumes "i < MAX_FILE_LOCKS" "j < MAX_FILE_LOCKS" "i \<noteq> j" "\<not> fl_active (t j)"
  shows "held (t(j := l2, i := l1)) m v b ty \<longleftrightarrow>
      holds_byte l1 m v b ty \<or> holds_byte l2 m v b ty \<or> (\<exists>k<MAX_FILE_LOCKS. k \<noteq> i \<and> k \<noteq> j \<and> holds_byte (t k) m v b ty)"
    "held t m v b ty \<longleftrightarrow> holds_byte (t i) m v b ty \<or> (\<exists>k<MAX_FILE_LOCKS. k \<noteq> i \<and> k \<noteq> j \<and> holds_byte (t k) m v b ty)"
  using assms inactive_holds [OF assms(4)] unfolding held_def by (auto simp: fun_upd_def)

lemma trim_lock_step:
  assumes "locks_ok t" "i < MAX_FILE_LOCKS" "range_ok start len" "trim_lock n pid ofd start len i t = Some t'"
    and R: "R = {start..lock_end start len}" and w: "w = req_owner pid ofd"
  shows "locks_ok t'" "trimmed n w R t t'" "clear_of n w R (t' i)"
proof -
  have "locks_ok t' \<and> trimmed n w R t t' \<and> clear_of n w R (t' i)"
    using assms(1-3) R w
  proof (cases rule: trim_lock_cases [where n = n])
    case keep
    then show ?thesis using assms(1,4) trimmed_refl by auto
  next
    case (cut l')
    have t': "t' = t(i := l')" using cut(1) assms(4) by simp
    have own: "holds_byte (t i) m v b ty \<Longrightarrow> m = n \<and> v = w" for m v b ty
      using cut(2) by (auto simp: holds_byte_def own_iff w)
    have "locks_ok t'" unfolding t' using assms(1,2) cut(3,4) by (intro locks_ok_less) auto
    moreover have "trimmed n w R t t'"
      unfolding trimmed_def t' held_upd [OF assms(2)] held_split [OF assms(2), of t]
      using cut(4) own by (auto simp: clear_of_def)
    ultimately show ?thesis using cut(4) by (simp add: t' clear_of_def)
  next
    case (split j l1 l2)
    have t': "t' = t(j := l2, i := l1)" using split(1) assms(4) by simp
    have ij: "i \<noteq> j" using split(2,4) by (auto simp: straddles_def own_iff)
    have own: "holds_byte (t i) m v b ty \<Longrightarrow> m = n \<and> v = w" for m v b ty
      using split(2) by (auto simp: holds_byte_def own_iff straddles_def w)
    have se: "start \<le> lock_end start len" using assms(3) by (simp add: range_ok_def)
    have t'2: "t' = (t(i := l1))(j := l2)" using ij by (simp add: t' fun_upd_twist)
    have "locks_ok (t(i := l1))" using assms(1,2) split(7,9) by (intro locks_ok_less) auto
    then have "locks_ok t'"
      unfolding t'2
    proof (rule locks_ok_upd)
      fix k m v b ty ty' assume k: "k < MAX_FILE_LOCKS" "k \<noteq> j" "holds_byte l2 m v b ty"
      then show "\<not> holds_byte ((t(i := l1)) k) m v b ty'"
        using split(9,10) se locks_okD(3) [OF assms(1,2) k(1), of m v b ty ty'] by (cases "k = i") auto
    qed (use split(8) in simp)
    moreover have "trimmed n w R t t'"
    proof -
      have "holds_byte l1 m v b ty \<or> holds_byte l2 m v b ty \<longleftrightarrow> holds_byte (t i) m v b ty \<and> b \<notin> R" for m v b ty
        unfolding split(9,10) by (auto simp: R not_le)
      then have h: "holds_byte l1 m v b ty \<or> holds_byte l2 m v b ty \<or> K \<longleftrightarrow> holds_byte (t i) m v b ty \<and> b \<notin> R \<or> K" for m v b ty K
        by blast
      have "clear_of n w R (t' k)" if "clear_of n w R (t k)" for k
        using that split(9,10) se by (cases "k = i"; cases "k = j") (auto simp: clear_of_def R t')
      then show ?thesis
        unfolding trimmed_def held_two(1) [where i = i and j = j and t = t and ?l1.0 = l1 and ?l2.0 = l2,
            OF assms(2) split(3) ij split(4), folded t'] held_two(2) [of i j t, OF assms(2) split(3) ij split(4)] h using own by (intro conjI allI impI) (blast, metis, blast)
    qed
    moreover have "clear_of n w R (t' i)" using split(9) by (auto simp: t' clear_of_def R)
    ultimately show ?thesis by blast
  qed (use assms(4) in simp)
  then show "locks_ok t'" "trimmed n w R t t'" "clear_of n w R (t' i)" by auto
qed

lemma trim_locks_done:
  assumes "locks_ok t" "\<forall>i\<in>set is. i < MAX_FILE_LOCKS" "range_ok start len" "trim_locks n pid ofd start len is t = (True, t')"
    and R: "R = {start..lock_end start len}" and w: "w = req_owner pid ofd"
  shows "locks_ok t' \<and> trimmed n w R t t' \<and> (\<forall>i\<in>set is. clear_of n w R (t' i))"
  using assms(1,2,4)
proof (induction "is" arbitrary: t)
  case Nil
  then show ?case by (simp add: trimmed_refl)
next
  case (Cons i "is")
  obtain t1 where t1: "trim_lock n pid ofd start len i t = Some t1" "trim_locks n pid ofd start len is t1 = (True, t')"
    using Cons.prems(3) by (auto split: option.splits)
  have i: "i < MAX_FILE_LOCKS" using Cons.prems(2) by simp
  note s = trim_lock_step [OF Cons.prems(1) i assms(3) t1(1) R w]
  have "locks_ok t' \<and> trimmed n w R t1 t' \<and> (\<forall>i\<in>set is. clear_of n w R (t' i))"
    using Cons.IH [OF s(1) _ t1(2)] Cons.prems(2) by simp
  moreover from this have "clear_of n w R (t' i)" using s(3) i by (simp add: trimmed_def)
  ultimately show ?case using trimmed_trans [OF s(2)] by simp
qed
section \<open>The reserved slots are enough\<close>

definition free_slots :: "file_lock table \<Rightarrow> nat" where
  "free_slots t = (\<Sum>i<MAX_FILE_LOCKS. if fl_active (t i) then 0 else 1)"

definition splits :: "nat \<Rightarrow> int \<Rightarrow> nat \<Rightarrow> u64 \<Rightarrow> u64 \<Rightarrow> file_lock table \<Rightarrow> bool" where
  "splits n pid ofd start len t \<longleftrightarrow> (\<exists>i<MAX_FILE_LOCKS. straddles n pid ofd start len (t i))"

lemma free_slots_upd:
  assumes "i < MAX_FILE_LOCKS"
  shows "free_slots (t(i := l)) + (if fl_active (t i) then 0 else 1) = free_slots t + (if fl_active l then 0 else 1)"
  unfolding free_slots_def
  by (rule sum_table_upd [where f = "\<lambda>l. if fl_active l then 0 else 1", OF assms])

lemma free_slots_pos: "0 < free_slots t \<Longrightarrow> \<exists>i. first_slot (\<lambda>i. \<not> fl_active (t i)) MAX_FILE_LOCKS = Some i"
  by (rule ccontr) (auto simp: free_slots_def first_slot_None_iff)

lemma free_slots_count: "length (filter (\<lambda>i. \<not> fl_active (t i)) [0..<m]) = (\<Sum>i<m. if fl_active (t i) then 0 else 1)"
  by (induction m) auto

lemma lock_room_iff:
  "lock_room n pid ofd start len lty t \<longleftrightarrow>
     (if lty = F_UNLCK then 0 else 1) + (if splits n pid ofd start len t then 1 else 0) \<le> free_slots t"
proof -
  have "first_slot (\<lambda>i. straddles n pid ofd start len (t i)) MAX_FILE_LOCKS \<noteq> None \<longleftrightarrow> splits n pid ofd start len t"
    by (auto simp: splits_def first_slot_None_iff)
  then show ?thesis
    unfolding lock_room_def Let_def by (auto simp: free_slots_count free_slots_def [symmetric])
qed

lemma trim_lock_room:
  assumes "locks_ok t" "i < MAX_FILE_LOCKS" "range_ok start len"
    "c + (if splits n pid ofd start len t then 1 else 0) \<le> free_slots t"
  obtains t' where "trim_lock n pid ofd start len i t = Some t'"
    "c + (if splits n pid ofd start len t' then 1 else 0) \<le> free_slots t'"
proof -
  let ?R = "{start..lock_end start len}" and ?w = "req_owner pid ofd"
  have not_str: "clear_of n ?w ?R l \<Longrightarrow> \<not> straddles n pid ofd start len l" for l
    using straddles_not_clear assms(3) by blast
  show ?thesis
    using assms(1-3) refl refl
  proof (cases rule: trim_lock_cases [of t i start len ?R ?w pid ofd n])
    case keep
    then show ?thesis using that assms(4) by blast
  next
    case (cut l')
    have "clear_of n ?w ?R l'" using cut(4) by (simp add: clear_of_def)
    then have "splits n pid ofd start len (t(i := l')) \<Longrightarrow> splits n pid ofd start len t"
      using not_str by (auto simp: splits_def split: if_splits)
    moreover have "free_slots t \<le> free_slots (t(i := l'))"
      using free_slots_upd [OF assms(2), of t l'] cut(2) by (auto simp: own_iff split: if_splits)
    ultimately have "c + (if splits n pid ofd start len (t(i := l')) then 1 else 0) \<le> free_slots (t(i := l'))"
      using assms(4) by (auto split: if_splits)
    then show ?thesis by (rule that [OF cut(1)])
  next
    case full
    then have "splits n pid ofd start len t" using assms(2) by (auto simp: splits_def)
    then show ?thesis using assms(4) free_slots_pos [of t] full(3) by auto
  next
    case (split j l1 l2)
    have ij: "i \<noteq> j" using split(2,4) by (auto simp: straddles_def own_iff)
    have se: "start \<le> lock_end start len" using assms(3) by (simp add: range_ok_def)
    have "\<not> straddles n pid ofd start len (t k)" if "k < MAX_FILE_LOCKS" "k \<noteq> i" for k
      using straddles_hits [OF _ assms(3), of n pid ofd "t k"] straddles_hits [OF split(2) assms(3)]
        locks_okD(3) [OF assms(1,2) that(1)] that by blast
    moreover have "clear_of n ?w ?R l1" "clear_of n ?w ?R l2" using split(9,10) se by (auto simp: clear_of_def)
    ultimately have none: "\<not> splits n pid ofd start len (t(j := l2, i := l1))"
      using not_str by (auto simp: splits_def split: if_splits)
    have "free_slots (t(j := l2, i := l1)) + 1 = free_slots t"
      using free_slots_upd [OF assms(2), of "t(j := l2)" l1] free_slots_upd [OF split(3), of t l2] split(2,4,5,6) ij
      by (simp add: straddles_def own_iff)
    moreover have "splits n pid ofd start len t" using split(2) assms(2) by (auto simp: splits_def)
    ultimately show ?thesis using that [OF split(1)] assms(4) none by simp
  qed
qed

lemma trim_locks_room:
  assumes "locks_ok t" "\<forall>i\<in>set is. i < MAX_FILE_LOCKS" "range_ok start len"
    "c + (if splits n pid ofd start len t then 1 else 0) \<le> free_slots t"
  shows "\<exists>t'. trim_locks n pid ofd start len is t = (True, t') \<and> c \<le> free_slots t'"
  using assms(1,2,4)
proof (induction "is" arbitrary: t)
  case (Cons i "is")
  obtain t1 where t1: "trim_lock n pid ofd start len i t = Some t1"
    "c + (if splits n pid ofd start len t1 then 1 else 0) \<le> free_slots t1"
    using trim_lock_room [OF Cons.prems(1) _ assms(3) Cons.prems(3)] Cons.prems(2) by auto
  have "locks_ok t1" using trim_lock_step(1) [OF Cons.prems(1) _ assms(3) t1(1) refl refl] Cons.prems(2) by simp
  then show ?case using Cons.IH [OF _ _ t1(2)] Cons.prems(2) t1(1) by simp
qed auto
section \<open>A lock operation on the bytes\<close>

lemma merge_step:
  assumes "locks_ok t" "merge_pair n pid ofd t = Some (i, j)"
    "t' = free_lock j (t(i := merge_locks (t i) (t j)))"
  shows "locks_ok t'" "held t' = held t"
proof -
  note d = merge_pair_SomeD [OF assms(2)]
  have ij: "i \<noteq> j" and act: "fl_active (t i)" "fl_active (t j)" "fl_inode (t i) = fl_inode (t j)"
    "lock_owner (t i) = lock_owner (t j)" "fl_type (t i) = fl_type (t j)"
    using d(2,4) by (auto simp: mergeable_def own_iff)
  let ?l = "merge_locks (t i) (t j)"
  have "range_ok (fl_start ?l) (fl_len ?l) \<and> lock_range ?l = lock_range (t i) \<union> lock_range (t j)"
    using merge_range locks_okD(1) [OF assms(1) d(1) act(1)] locks_okD(1) [OF assms(1) d(3) act(2)] d(4)
    by (simp add: mergeable_def)
  moreover have keep: "fl_active ?l" "fl_inode ?l = fl_inode (t i)" "lock_owner ?l = lock_owner (t i)" "fl_type ?l = fl_type (t i)"
    using act(1) by (simp_all add: merge_locks_def Let_def lock_owner_def)
  ultimately have l: "range_ok (fl_start ?l) (fl_len ?l)"
    "holds_byte ?l m v b ty \<longleftrightarrow> holds_byte (t i) m v b ty \<or> holds_byte (t j) m v b ty" for m v b ty
    unfolding holds_byte_def using act by auto
  let ?t = "free_lock j t"
  have t': "t' = ?t(i := ?l)" using ij by (simp add: assms(3) free_lock_def fun_upd_twist)
  have free: "holds_byte (?t k) m v b ty \<longleftrightarrow> k \<noteq> j \<and> holds_byte (t k) m v b ty" for k m v b ty by (simp add: free_lock_def)
  have ok: "locks_ok ?t" unfolding free_lock_def by (rule locks_ok_less [OF assms(1) d(3)]) auto
  show "locks_ok t'"
    unfolding t'
  proof (rule locks_ok_upd [OF ok])
    fix k m v b ty ty' assume k: "k < MAX_FILE_LOCKS" "k \<noteq> i" "holds_byte ?l m v b ty"
    then show "\<not> holds_byte (?t k) m v b ty'"
      using locks_okD(3) [OF assms(1) d(1) k(1)] locks_okD(3) [OF assms(1) d(3) k(1)] unfolding free l(2) by blast
  qed (use l(1) keep locks_okD(2) [OF assms(1) d(1) act(1)] in simp)
  have "held t' m v b ty \<longleftrightarrow> held t m v b ty" for m v b ty
    unfolding t' held_upd [OF d(1)] l(2) held_split [OF d(1), of t] free using d(3) ij by blast
  then show "held t' = held t" by (simp add: fun_eq_iff)
qed

lemma merge_adjacent_locks_held:
  "locks_ok t \<Longrightarrow> locks_ok (merge_adjacent_locks n pid ofd t) \<and> held (merge_adjacent_locks n pid ofd t) = held t"
proof (induction n pid ofd t rule: merge_adjacent_locks.induct)
  case (1 n pid ofd t)
  show ?case
  proof (cases "merge_pair n pid ofd t")
    case None
    then show ?thesis using "1.prems" by (simp add: merge_adjacent_locks.simps [of n pid ofd t])
  next
    case (Some ij)
    obtain i j where ij: "ij = (i, j)" by force
    note step = merge_step [OF "1.prems" Some [unfolded ij] refl]
    show ?thesis
      using "1.IH" [OF Some ij [symmetric] step(1)] step(2) Some ij by (simp add: merge_adjacent_locks.simps [of n pid ofd t])
  qed
qed

lemma apply_lock_spec:
  assumes "locks_ok t" "range_ok start len"
  shows "if lock_room n pid ofd start len lty t
    then \<exists>t'. apply_lock n pid ofd start len lty t = (Inr (), t') \<and> locks_ok t' \<and>
      (\<forall>m v b ty. held t' m v b ty \<longleftrightarrow>
         (if m = n \<and> v = req_owner pid ofd \<and> b \<in> {start..lock_end start len} then lty \<noteq> F_UNLCK \<and> ty = lty else held t m v b ty))
    else apply_lock n pid ofd start len lty t = (Inl ENOMEM, t)"
proof (cases "lock_room n pid ofd start len lty t")
  case room: True
  let ?R = "{start..lock_end start len}" and ?w = "req_owner pid ofd"
  have idx: "\<forall>i\<in>set [0..<MAX_FILE_LOCKS]. i < MAX_FILE_LOCKS" by simp
  obtain t1 where t1: "trim_locks n pid ofd start len [0..<MAX_FILE_LOCKS] t = (True, t1)"
    "(if lty = F_UNLCK then 0 else 1) \<le> free_slots t1"
    using trim_locks_room [OF assms(1) idx assms(2)] room [unfolded lock_room_iff] by blast
  from trim_locks_done [OF assms(1) idx assms(2) t1(1) refl refl]
  have ok1: "locks_ok t1" and tr: "trimmed n ?w ?R t t1" and cl: "\<And>i. i < MAX_FILE_LOCKS \<Longrightarrow> clear_of n ?w ?R (t1 i)" by auto
  have held1: "held t1 m v b ty \<longleftrightarrow> \<not> (m = n \<and> v = ?w \<and> b \<in> ?R) \<and> held t m v b ty" for m v b ty
    using tr cl unfolding trimmed_def held_def clear_of_def by blast
  show ?thesis
  proof (cases "lty = F_UNLCK")
    case True
    then show ?thesis using room t1(1) ok1 held1 by (auto simp: apply_lock_def)
  next
    case False
    obtain j where j: "first_slot (\<lambda>i. \<not> fl_active (t1 i)) MAX_FILE_LOCKS = Some j"
      using free_slots_pos [of t1] t1(2) False by auto
    define l where "l = (file_lock_zero\<lparr>fl_active := True\<rparr>)\<lparr>fl_inode := n, fl_pid := pid, fl_ofd := ofd,
      fl_type := lty, fl_start := start, fl_len := len\<rparr>"
    have l: "holds_byte l m v b ty \<longleftrightarrow> m = n \<and> v = ?w \<and> b \<in> ?R \<and> ty = lty" for m v b ty
      by (auto simp: l_def holds_byte_def lock_owner_def req_owner_def lock_range_def)
    have "locks_ok (t1(j := l))"
      using cl assms(2) False l by (intro locks_ok_upd [OF ok1]) (auto simp: clear_of_def l_def)
    moreover have "held (t1(j := l)) m v b ty \<longleftrightarrow> m = n \<and> v = ?w \<and> b \<in> ?R \<and> ty = lty \<or> held t1 m v b ty" for m v b ty
      using first_slot_SomeD(1,2) [OF j]
      unfolding held_upd [OF first_slot_SomeD(1) [OF j]] held_split [OF first_slot_SomeD(1) [OF j], of t1] l by auto
    moreover have "apply_lock n pid ofd start len lty t = (Inr (), merge_adjacent_locks n pid ofd (t1(j := l)))"
      using room t1(1) False j by (simp add: apply_lock_def alloc_lock_def l_def)
    ultimately show ?thesis
      using room False held1 merge_adjacent_locks_held [of "t1(j := l)" n pid ofd] by auto
  qed
qed (simp add: apply_lock_def)
section \<open>Reachable tables\<close>

definition lock_inv :: "lock_state \<Rightarrow> bool" where
  "lock_inv st \<longleftrightarrow> locks_ok (file_locks st) \<and> locks_exclude (file_locks st)"

definition set_bytes ::
    "nat \<Rightarrow> owner \<Rightarrow> u64 set \<Rightarrow> int \<Rightarrow> (nat \<Rightarrow> owner \<Rightarrow> u64 \<Rightarrow> int \<Rightarrow> bool) \<Rightarrow> nat \<Rightarrow> owner \<Rightarrow> u64 \<Rightarrow> int \<Rightarrow> bool" where
  "set_bytes n w R lty h = (\<lambda>m v b ty. if m = n \<and> v = w \<and> b \<in> R then lty \<noteq> F_UNLCK \<and> ty = lty else h m v b ty)"

lemma conflict_iff:
  assumes "locks_ok t" "range_ok start len"
  shows "filelock_conflict_exists n pid ofd start len lty t \<longleftrightarrow>
    (\<exists>w b ty. w \<noteq> req_owner pid ofd \<and> b \<in> {start..lock_end start len} \<and> held t n w b ty \<and> \<not> (ty = F_RDLCK \<and> lty = F_RDLCK))"
    (is "?C \<longleftrightarrow> ?H")
proof
  assume ?C
  then obtain i where i: "i < MAX_FILE_LOCKS" "lock_hit n pid ofd start len lty (t i)"
    by (auto simp: filelock_conflict_exists_def dest: first_slot_SomeD(1,2))
  then have act: "fl_active (t i)" by (simp add: lock_hit_def)
  have "lock_range (t i) \<inter> {start..lock_end start len} \<noteq> {}"
    unfolding lock_range_def overlaps_iff [OF locks_okD(1) [OF assms(1) i(1) act] assms(2), symmetric]
    using i(2) by (simp add: lock_hit_def)
  then obtain b where "b \<in> lock_range (t i)" "b \<in> {start..lock_end start len}" by blast
  then have "held t n (lock_owner (t i)) b (fl_type (t i))"
    using i act by (auto simp: held_def holds_byte_def lock_hit_def)
  then show ?H using \<open>b \<in> {start..lock_end start len}\<close> i(2) by (auto simp: lock_hit_def mine_iff lock_conflicts_def)
next
  assume ?H
  then obtain w b ty i where h: "w \<noteq> req_owner pid ofd" "b \<in> {start..lock_end start len}" "i < MAX_FILE_LOCKS"
    "holds_byte (t i) n w b ty" "\<not> (ty = F_RDLCK \<and> lty = F_RDLCK)"
    by (auto simp: held_def)
  then have "lock_overlaps (fl_start (t i)) (fl_len (t i)) start len"
    using overlaps_iff [OF locks_okD(1) [OF assms(1) h(3)] assms(2)] by (auto simp: holds_byte_def lock_range_def)
  then have "lock_hit n pid ofd start len lty (t i)"
    using h by (auto simp: lock_hit_def holds_byte_def mine_iff lock_conflicts_def)
  then show ?C using first_slot_ex [OF h(3)] by (auto simp: filelock_conflict_exists_def)
qed

lemma setlk_try_cases:
  assumes "lock_inv st" "range_ok start (l_len fl)"
  obtains (wait) "setlk_try n pid ofd start fl st = (None, st)" "l_type fl \<noteq> F_UNLCK"
      "filelock_conflict_exists n pid ofd start (l_len fl) (l_type fl) (file_locks st)"
  | (nomem) "setlk_try n pid ofd start fl st = (Some (Inl ENOMEM), st)"
      "\<not> lock_room n pid ofd start (l_len fl) (l_type fl) (file_locks st)"
  | (granted) t' where "setlk_try n pid ofd start fl st = (Some (Inr (fl, [n])), st\<lparr>file_locks := t'\<rparr>)"
      "lock_inv (st\<lparr>file_locks := t'\<rparr>)"
      "held t' = set_bytes n (req_owner pid ofd) {start..lock_end start (l_len fl)} (l_type fl) (held (file_locks st))"
      "l_type fl = F_UNLCK \<or> \<not> filelock_conflict_exists n pid ofd start (l_len fl) (l_type fl) (file_locks st)"
proof (cases "l_type fl \<noteq> F_UNLCK \<and> filelock_conflict_exists n pid ofd start (l_len fl) (l_type fl) (file_locks st)")
  case True
  then show ?thesis using wait by (simp add: setlk_try_def)
next
  case free: False
  have ok: "locks_ok (file_locks st)" and ex: "locks_exclude (file_locks st)" using assms(1) by (auto simp: lock_inv_def)
  note spec = apply_lock_spec [OF ok assms(2), of n pid ofd "l_type fl"]
  show ?thesis
  proof (cases "lock_room n pid ofd start (l_len fl) (l_type fl) (file_locks st)")
    case False
    then have "apply_lock n pid ofd start (l_len fl) (l_type fl) (file_locks st) = (Inl ENOMEM, file_locks st)"
      using spec by simp
    then show ?thesis using nomem free False by (auto simp: setlk_try_def)
  next
    case True
    then obtain t' where t': "apply_lock n pid ofd start (l_len fl) (l_type fl) (file_locks st) = (Inr (), t')" "locks_ok t'"
      "held t' = set_bytes n (req_owner pid ofd) {start..lock_end start (l_len fl)} (l_type fl) (held (file_locks st))"
      using spec by (auto simp: set_bytes_def fun_eq_iff)
    have nc: "w \<noteq> req_owner pid ofd \<Longrightarrow> b \<in> {start..lock_end start (l_len fl)} \<Longrightarrow> held (file_locks st) n w b ty \<Longrightarrow>
        l_type fl \<noteq> F_UNLCK \<Longrightarrow> ty = F_RDLCK \<and> l_type fl = F_RDLCK" for w b ty
      using free unfolding conflict_iff [OF ok assms(2)] by blast
    have "locks_exclude t'"
      unfolding locks_exclude_def t'(3)
    proof (intro allI impI)
      fix m w w' b ty ty'
      assume h: "set_bytes n (req_owner pid ofd) {start..lock_end start (l_len fl)} (l_type fl) (held (file_locks st)) m w b ty"
        "set_bytes n (req_owner pid ofd) {start..lock_end start (l_len fl)} (l_type fl) (held (file_locks st)) m w' b ty'" "w \<noteq> w'"
      show "ty = F_RDLCK \<and> ty' = F_RDLCK"
        using h nc [of w b ty] nc [of w' b ty'] ex unfolding set_bytes_def locks_exclude_def
        by (cases "m = n"; cases "b \<in> {start..lock_end start (l_len fl)}") (auto split: if_splits)
    qed
    then show ?thesis using granted t' free by (auto simp: setlk_try_def lock_inv_def)
  qed
qed

lemma setlk_try_inv:
  "lock_inv st \<Longrightarrow> range_ok start (l_len fl) \<Longrightarrow> setlk_try n pid ofd start fl st = (r, st') \<Longrightarrow> lock_inv st'"
  by (cases rule: setlk_try_cases [of st start fl n pid ofd]) auto

interpretation setlkw: sleeper "setlk_try n pid ofd start fl" "\<lambda>st. range_ok start (l_len fl) \<and> lock_inv st"
  for n pid ofd start fl
proof
  fix st r st'
  assume "range_ok start (l_len fl) \<and> lock_inv st" "setlk_try n pid ofd start fl st = (r, st')"
  then show "range_ok start (l_len fl) \<and> lock_inv st'" using setlk_try_inv by blast
next
  fix st st'
  assume "setlk_try n pid ofd start fl st = (None, st')"
  then show "st' = st" by (auto simp: setlk_try_def split: if_splits prod.splits)
qed

text \<open>Dropping records keeps the invariant.\<close>

lemma lock_inv_drop:
  assumes "lock_inv st" "\<And>i. i < MAX_FILE_LOCKS \<Longrightarrow> t' i = file_locks st i \<or> \<not> fl_active (t' i)"
  shows "lock_inv (st\<lparr>file_locks := t'\<rparr>)"
proof -
  have h: "i < MAX_FILE_LOCKS \<Longrightarrow> holds_byte (t' i) n w b ty \<Longrightarrow> holds_byte (file_locks st i) n w b ty" for i n w b ty
    using assms(2) [of i] by auto
  have "i < MAX_FILE_LOCKS \<Longrightarrow> fl_active (t' i) \<Longrightarrow> t' i = file_locks st i" for i using assms(2) by blast
  then have "locks_ok t'"
    using assms(1) h unfolding lock_inv_def locks_ok_def by metis
  moreover have "held t' n w b ty \<Longrightarrow> held (file_locks st) n w b ty" for n w b ty using h by (auto simp: held_def)
  then have "locks_exclude t'" using assms(1) unfolding lock_inv_def locks_exclude_def by blast
  ultimately show ?thesis by (simp add: lock_inv_def)
qed

lemma release_pid_inv: "lock_inv st \<Longrightarrow> lock_inv (snd (filelock_release_all_by_pid_inode pid inode st))"
  unfolding filelock_release_all_by_pid_inode_def Let_def by (simp, intro impI lock_inv_drop) auto

lemma release_ofd_fold:
  assumes "fold (release_ofd_slot ofd) [0..<k] (t, []) = (t', woken)"
  shows "t' = (\<lambda>i. if i < k \<and> fl_active (t i) \<and> fl_ofd (t i) = ofd then (t i)\<lparr>fl_active := False\<rparr> else t i)
    \<and> (\<forall>i<k. fl_active (t i) \<longrightarrow> fl_ofd (t i) = ofd \<longrightarrow> fl_inode (t i) \<noteq> 0 \<longrightarrow> fl_inode (t i) \<in> set woken)"
  using assms
proof (induction k arbitrary: t' woken)
  case (Suc k)
  obtain t1 w1 where 1: "fold (release_ofd_slot ofd) [0..<k] (t, []) = (t1, w1)" by fastforce
  note ih = Suc.IH [OF 1]
  have k: "t1 k = t k" using ih by simp
  have 2: "release_ofd_slot ofd k (t1, w1) = (t', woken)" using Suc.prems 1 by simp
  have "t' = (if fl_active (t k) \<and> fl_ofd (t k) = ofd then free_lock k t1 else t1)"
    and "set w1 \<subseteq> set woken" and "fl_active (t k) \<and> fl_ofd (t k) = ofd \<and> fl_inode (t k) \<noteq> 0 \<longrightarrow> fl_inode (t k) \<in> set woken"
    using 2 k by (auto simp: release_ofd_slot_def Let_def split: if_splits dest: last_in_set)
  then show ?case using ih by (auto simp: less_Suc_eq free_lock_def fun_eq_iff)
qed simp

lemma release_ofd_inv: "lock_inv st \<Longrightarrow> lock_inv (snd (filelock_release_all_by_ofd ofd st))"
proof (cases "\<not> filelock_initialized st \<or> ofd = 0")
  case False
  assume inv: "lock_inv st"
  obtain t' woken where f: "fold (release_ofd_slot ofd) [0..<MAX_FILE_LOCKS] (file_locks st, []) = (t', woken)" by fastforce
  have "lock_inv (st\<lparr>file_locks := t'\<rparr>)" using release_ofd_fold [OF f] by (intro lock_inv_drop [OF inv]) auto
  then show ?thesis using False f by (simp add: filelock_release_all_by_ofd_def)
qed (simp add: filelock_release_all_by_ofd_def)

inductive lock_step :: "lock_state \<Rightarrow> lock_state \<Rightarrow> bool" where
  lock_step_set: "range_ok start (l_len fl) \<Longrightarrow> lock_step st (snd (setlk_try n pid ofd start fl st))"
| lock_step_pid: "lock_step st (snd (filelock_release_all_by_pid_inode pid inode st))"
| lock_step_ofd: "lock_step st (snd (filelock_release_all_by_ofd ofd st))"

inductive_cases lock_stepE: "lock_step st st'"

definition lock_reachable :: "lock_state \<Rightarrow> bool" where
  "lock_reachable st \<longleftrightarrow> (\<exists>st0. lock_step\<^sup>*\<^sup>* (filelock_init st0) st)"

definition lock_runs :: "(lock_state \<Rightarrow> lock_state) \<Rightarrow> bool" where
  "lock_runs f \<longleftrightarrow> (\<forall>st. lock_step\<^sup>*\<^sup>* st (f st))"

lemma lock_steps_inv: "lock_step\<^sup>*\<^sup>* st st' \<Longrightarrow> lock_inv st \<Longrightarrow> lock_inv st'"
proof (induction rule: rtranclp_induct)
  case (step st1 st2)
  from step(2) step.IH [OF step.prems] show ?case
    by (elim lock_stepE) (auto intro: setlk_try_inv release_pid_inv release_ofd_inv simp: prod_eq_iff)
qed

lemma lock_inv_init: "lock_inv (filelock_init st)"
  by (simp add: lock_inv_def filelock_init_def locks_ok_def locks_exclude_def held_def file_lock_zero_def)

lemma lock_reachable_inv: "lock_reachable st \<Longrightarrow> lock_inv st"
  using lock_steps_inv lock_inv_init by (auto simp: lock_reachable_def)

lemma lock_runs_inv: "lock_runs f \<Longrightarrow> lock_inv st \<Longrightarrow> lock_inv (f st)"
  using lock_steps_inv by (auto simp: lock_runs_def)

lemma setlk_do:
  assumes "lock_reachable st" "filelock_initialized st" "0 \<le> fd" "fd_get fd = Some h" "range_ok (lock_start h fl) (l_len fl)"
  shows "\<exists>st'. filelock_do pid fd_get fd F_SETLK fl ofd ws st =
    (if l_type fl \<noteq> F_UNLCK
        \<and> filelock_conflict_exists (lock_scope h) pid ofd (lock_start h fl) (l_len fl) (l_type fl) (file_locks st)
     then (Done (Inl EAGAIN), st)
     else if lock_room (lock_scope h) pid ofd (lock_start h fl) (l_len fl) (l_type fl) (file_locks st)
     then (Done (Inr (fl, [lock_scope h])), st') else (Done (Inl ENOMEM), st))"
proof -
  let ?att = "setlk_try (lock_scope h) pid ofd (lock_start h fl) fl"
  have inv: "lock_inv st" by (rule lock_reachable_inv [OF assms(1)])
  have "filelock_do pid fd_get fd F_SETLK fl ofd ws st = blocking ?att (Some EAGAIN) ERESTARTSYS ws st"
    using assms(2-4) by (simp add: filelock_do_def lock_consts)
  also have "\<dots> = (case ?att st of (Some r, st') \<Rightarrow> (Done r, st') | (None, st') \<Rightarrow> (Done (Inl EAGAIN), st'))"
    by (cases ws) (auto split: prod.splits option.splits)
  finally have run: "filelock_do pid fd_get fd F_SETLK fl ofd ws st =
    (case ?att st of (Some r, st') \<Rightarrow> (Done r, st') | (None, st') \<Rightarrow> (Done (Inl EAGAIN), st'))" .
  have spec: "?att st = (if l_type fl \<noteq> F_UNLCK
      \<and> filelock_conflict_exists (lock_scope h) pid ofd (lock_start h fl) (l_len fl) (l_type fl) (file_locks st) then (None, st)
      else if lock_room (lock_scope h) pid ofd (lock_start h fl) (l_len fl) (l_type fl) (file_locks st)
      then (Some (Inr (fl, [lock_scope h])), snd (?att st)) else (Some (Inl ENOMEM), st))"
    using apply_lock_spec [OF inv [unfolded lock_inv_def, THEN conjunct1] assms(5), of "lock_scope h" pid ofd "l_type fl"]
    by (auto simp: setlk_try_def split: if_splits)
  show ?thesis unfolding run by (subst spec) auto
qed

lemma getlk_scan_None:
  "getlk_scan n pid ofd start fl t is = None \<longleftrightarrow> (\<forall>i\<in>set is. \<not> lock_hit n pid ofd start (l_len fl) (l_type fl) (t i))"
  by (induction "is") (auto simp: lock_hit_def)

lemma getlk_scan_Some:
  "getlk_scan n pid ofd start fl t is = Some l \<Longrightarrow>
     \<exists>i\<in>set is. l = t i \<and> lock_hit n pid ofd start (l_len fl) (l_type fl) (t i)"
  by (induction "is") (auto simp: lock_hit_def split: if_splits)

lemma getlk_scan_conflict:
  "getlk_scan n pid ofd start fl t [0..<MAX_FILE_LOCKS] \<noteq> None \<longleftrightarrow>
     filelock_conflict_exists n pid ofd start (l_len fl) (l_type fl) t"
proof -
  have "getlk_scan n pid ofd start fl t [0..<MAX_FILE_LOCKS] = None \<longleftrightarrow>
      first_slot (\<lambda>i. lock_hit n pid ofd start (l_len fl) (l_type fl) (t i)) MAX_FILE_LOCKS = None"
    unfolding getlk_scan_None first_slot_None_iff by auto
  then show ?thesis by (simp add: filelock_conflict_exists_def)
qed

section \<open>Sleeping and waking\<close>

text \<open>
  A system of tasks around the table. A task whose F_SETLKW finds a conflict
  publishes that it sleeps on the channel of the file, and tests again, before
  it drops the lock of the table, so that both are one step. A call that changes
  the table wakes the channel after it has dropped the lock: the channels still
  to be woken are part of the state. A channel is the address of an inode or of
  a handle, never null. A wake-up takes every task off the channel,
  and a signal takes one task off.
\<close>

record lock_waiter =
  lw_inode :: nat
  lw_pid :: int
  lw_ofd :: nat
  lw_start :: u64
  lw_fl :: flock

record lock_system =
  ls_locks :: lock_state
  ls_waiters :: "nat \<Rightarrow> lock_waiter option"
  ls_wakes :: "nat list"

inductive wait_step :: "lock_system \<Rightarrow> lock_system \<Rightarrow> bool" where
  wait_sleep: "\<lbrakk>lw_inode w \<noteq> 0; range_ok (lw_start w) (l_len (lw_fl w));
      setlk_try (lw_inode w) (lw_pid w) (lw_ofd w) (lw_start w) (lw_fl w) (ls_locks s) = (None, st')\<rbrakk> \<Longrightarrow>
     wait_step s (s\<lparr>ls_locks := st', ls_waiters := (ls_waiters s)(t \<mapsto> w)\<rparr>)"
| wait_set: "\<lbrakk>range_ok start (l_len fl); setlk_try n pid ofd start fl (ls_locks s) = (Some r, st')\<rbrakk> \<Longrightarrow>
     wait_step s (s\<lparr>ls_locks := st', ls_wakes := ls_wakes s @ (case r of Inr (_, woken) \<Rightarrow> woken | Inl _ \<Rightarrow> [])\<rparr>)"
| wait_pid: "filelock_release_all_by_pid_inode pid inode (ls_locks s) = (woken, st') \<Longrightarrow>
     wait_step s (s\<lparr>ls_locks := st', ls_wakes := ls_wakes s @ woken\<rparr>)"
| wait_ofd: "filelock_release_all_by_ofd ofd (ls_locks s) = (woken, st') \<Longrightarrow>
     wait_step s (s\<lparr>ls_locks := st', ls_wakes := ls_wakes s @ woken\<rparr>)"
| wait_wake: "chan \<in> set (ls_wakes s) \<Longrightarrow>
     wait_step s (s\<lparr>ls_wakes := remove1 chan (ls_wakes s),
       ls_waiters := (\<lambda>t. case ls_waiters s t of Some w \<Rightarrow> if lw_inode w = chan then None else Some w | None \<Rightarrow> None)\<rparr>)"
| wait_signal: "wait_step s (s\<lparr>ls_waiters := (ls_waiters s)(t := None)\<rparr>)"

inductive_cases wait_stepE: "wait_step s s'"

definition lock_boot :: "lock_state \<Rightarrow> lock_system" where
  "lock_boot st = \<lparr>ls_locks = filelock_init st, ls_waiters = (\<lambda>_. None), ls_wakes = []\<rparr>"

definition waiter_blocked :: "lock_waiter \<Rightarrow> lock_state \<Rightarrow> bool" where
  "waiter_blocked w st \<longleftrightarrow> range_ok (lw_start w) (l_len (lw_fl w))
     \<and> filelock_conflict_exists (lw_inode w) (lw_pid w) (lw_ofd w) (lw_start w) (l_len (lw_fl w)) (l_type (lw_fl w))
         (file_locks st)"

definition waiters_inv :: "lock_system \<Rightarrow> bool" where
  "waiters_inv s \<longleftrightarrow> lock_inv (ls_locks s)
     \<and> (\<forall>t w. ls_waiters s t = Some w \<longrightarrow>
          lw_inode w \<noteq> 0 \<and> (waiter_blocked w (ls_locks s) \<or> lw_inode w \<in> set (ls_wakes s)))"

lemma waiter_blocked_kept:
  assumes "waiter_blocked w st" "lock_inv st" "lock_inv st'"
    "\<And>v b ty. held (file_locks st) (lw_inode w) v b ty \<Longrightarrow> held (file_locks st') (lw_inode w) v b ty"
  shows "waiter_blocked w st'"
proof -
  have ok: "locks_ok (file_locks st)" "locks_ok (file_locks st')" using assms(2,3) by (auto simp: lock_inv_def)
  have r: "range_ok (lw_start w) (l_len (lw_fl w))" using assms(1) by (simp add: waiter_blocked_def)
  show ?thesis
    using assms(1,4) unfolding waiter_blocked_def conflict_iff [OF ok(1) r] conflict_iff [OF ok(2) r] by blast
qed

lemma waiters_inv_change:
  assumes "waiters_inv s" "lock_inv st'"
    "\<And>n v b ty. n \<notin> set woken \<Longrightarrow> n \<noteq> 0 \<Longrightarrow> held (file_locks (ls_locks s)) n v b ty \<Longrightarrow> held (file_locks st') n v b ty"
  shows "waiters_inv (s\<lparr>ls_locks := st', ls_wakes := ls_wakes s @ woken\<rparr>)"
proof -
  have "waiter_blocked w st' \<or> lw_inode w \<in> set (ls_wakes s @ woken)" if "ls_waiters s t = Some w" for t w
  proof (cases "lw_inode w \<in> set woken")
    case False
    have s: "lock_inv (ls_locks s)" "lw_inode w \<noteq> 0" "waiter_blocked w (ls_locks s) \<or> lw_inode w \<in> set (ls_wakes s)"
      using assms(1) that by (auto simp: waiters_inv_def)
    then show ?thesis
      using waiter_blocked_kept [OF _ s(1) assms(2) assms(3) [OF False s(2)]] by auto
  qed simp
  then show ?thesis using assms(1,2) by (auto simp: waiters_inv_def)
qed

lemma held_dropped:
  assumes "held t n v b ty" "\<And>i. i < MAX_FILE_LOCKS \<Longrightarrow> t' i = t i \<or> fl_inode (t i) \<noteq> n \<or> \<not> fl_active (t i)"
  shows "held t' n v b ty"
proof -
  obtain i where i: "i < MAX_FILE_LOCKS" "holds_byte (t i) n v b ty" using assms(1) by (auto simp: held_def)
  then have "t' i = t i" using assms(2) [of i] by (auto simp: holds_byte_def)
  then show ?thesis using i by (auto simp: held_def)
qed

lemma wait_step_inv: "wait_step s s' \<Longrightarrow> waiters_inv s \<Longrightarrow> waiters_inv s'"
proof (induction rule: wait_step.induct)
  case (wait_sleep w s st' t)
  have inv: "lock_inv (ls_locks s)" using wait_sleep.prems by (simp add: waiters_inv_def)
  have "st' = ls_locks s \<and> waiter_blocked w st'"
    using inv wait_sleep.hyps(2)
    by (cases rule: setlk_try_cases [where n = "lw_inode w" and pid = "lw_pid w" and ofd = "lw_ofd w"])
       (use wait_sleep.hyps in \<open>auto simp: waiter_blocked_def\<close>)
  then show ?case using wait_sleep by (auto simp: waiters_inv_def)
next
  case (wait_set start fl n pid ofd s r st')
  have inv: "lock_inv (ls_locks s)" using wait_set.prems by (simp add: waiters_inv_def)
  show ?case
    using inv wait_set.hyps(1)
  proof (cases rule: setlk_try_cases [where n = n and pid = pid and ofd = ofd])
    case (granted t')
    then show ?thesis
      using wait_set by (auto simp: set_bytes_def intro!: waiters_inv_change)
  qed (use wait_set in auto)
next
  case (wait_pid pid inode s woken st')
  have "held (file_locks st') n v b ty" if "n \<notin> set woken" "held (file_locks (ls_locks s)) n v b ty" for n v b ty
    by (rule held_dropped [OF that(2)])
       (use that(1) wait_pid.hyps in \<open>auto simp: filelock_release_all_by_pid_inode_def Let_def list_ex_iff split: if_splits\<close>)
  moreover have "lock_inv st'"
    using release_pid_inv [of "ls_locks s" pid inode] wait_pid by (simp add: waiters_inv_def)
  ultimately show ?case using waiters_inv_change [OF wait_pid.prems] by blast
next
  case (wait_ofd ofd s woken st')
  obtain t2 w2 where f: "fold (release_ofd_slot ofd) [0..<MAX_FILE_LOCKS] (file_locks (ls_locks s), []) = (t2, w2)"
    by fastforce
  have "held (file_locks st') n v b ty" if "n \<notin> set woken" "n \<noteq> 0" "held (file_locks (ls_locks s)) n v b ty" for n v b ty
    by (rule held_dropped [OF that(3)])
       (use that(1,2) wait_ofd.hyps f release_ofd_fold [OF f] in
         \<open>auto simp: filelock_release_all_by_ofd_def split: if_splits\<close>)
  moreover have "lock_inv st'"
    using release_ofd_inv [of "ls_locks s" ofd] wait_ofd by (simp add: waiters_inv_def)
  ultimately show ?case using waiters_inv_change [OF wait_ofd.prems] by blast
next
  case (wait_wake chan s)
  then show ?case by (auto simp: waiters_inv_def split: option.splits if_splits)
next
  case (wait_signal s t)
  then show ?case by (auto simp: waiters_inv_def)
qed

section \<open>What the lock calls promise\<close>

text \<open>
  C19. Two owners never hold conflicting locks, as long as no request has a
  range whose end wraps around the 64-bit offset: in every table such lock calls
  and releases reach from initialisation, two different owners, be they processes
  or open file descriptions, hold the same byte of a file at the same time only
  if both locks are read locks.
\<close>

theorem filelock_exclusion:
  assumes "lock_reachable st" "held (file_locks st) n w b ty" "held (file_locks st) n w' b ty'" "w \<noteq> w'"
  shows "ty = F_RDLCK \<and> ty' = F_RDLCK"
  using lock_reachable_inv [OF assms(1)] assms(2-4) unfolding lock_inv_def locks_exclude_def by blast

text \<open>
  C20. A lock call changes exactly the bytes it names. When fcntl sets or clears a
  lock, after any number of sleeps, the bytes of the range belong to the caller
  with the new type (or to nobody, for F_UNLCK), and every other byte, of the
  caller or of anybody else, is held as before: splitting, shrinking and
  merging of records never show.
\<close>

theorem filelock_refines_bytes:
  assumes "lock_reachable st" "\<forall>w\<in>set ws. lock_runs (snd w)" "fd_get fd = Some h" "cmd \<noteq> F_GETLK"
    "range_ok (lock_start h fl) (l_len fl)"
    "filelock_do pid fd_get fd cmd fl ofd ws st = (Done (Inr v), st')"
  shows "\<exists>k\<le>length ws. held (file_locks st') =
    set_bytes (lock_scope h) (req_owner pid ofd) {lock_start h fl..lock_end (lock_start h fl) (l_len fl)} (l_type fl)
      (held (file_locks (slept (take k ws) st)))"
proof -
  have run: "blocking (setlk_try (lock_scope h) pid ofd (lock_start h fl) fl)
      (if cmd = F_SETLK then Some EAGAIN else None) ERESTARTSYS ws st = (Done (Inr v), st')"
    using assms(3,4,6) by (simp add: filelock_do_def split: if_splits)
  have envs: "\<And>w s. w \<in> set ws \<Longrightarrow> range_ok (lock_start h fl) (l_len fl) \<and> lock_inv s \<Longrightarrow>
      range_ok (lock_start h fl) (l_len fl) \<and> lock_inv (snd w s)"
    using assms(2) lock_runs_inv by blast
  obtain k where k: "k \<le> length ws" "lock_inv (slept (take k ws) st)"
    "setlk_try (lock_scope h) pid ofd (lock_start h fl) fl (slept (take k ws) st) = (Some (Inr v), st')"
    using setlkw.blocking_returned [OF _ envs run] assms(5) lock_reachable_inv [OF assms(1)] by blast
  from k(2) assms(5) have "held (file_locks st') =
    set_bytes (lock_scope h) (req_owner pid ofd) {lock_start h fl..lock_end (lock_start h fl) (l_len fl)} (l_type fl)
      (held (file_locks (slept (take k ws) st)))"
    by (cases rule: setlk_try_cases [where n = "lock_scope h" and pid = pid and ofd = ofd]) (use k(3) in auto)
  then show ?thesis using k(1) by blast
qed


text \<open>
  C22. F_GETLK tells what F_SETLK would do. For a read or write lock on a range
  that does not wrap around, F_GETLK changes nothing and answers F_UNLCK exactly
  when F_SETLK of the same request by the same caller would not fail with EAGAIN;
  otherwise it describes a lock that another owner holds, that shares a byte with
  the range and that is not a read lock asked about for reading.
\<close>

theorem filelock_getlk_agrees:
  assumes "lock_reachable st" "filelock_initialized st" "0 \<le> fd" "fd_get fd = Some h"
    "range_ok (lock_start h fl) (l_len fl)" "l_type fl \<in> {F_RDLCK, F_WRLCK}"
    "filelock_do pid fd_get fd F_GETLK fl ofd ws st = (Done (Inr (fl', woken)), st')"
  shows "st' = st \<and> (if fst (filelock_do pid fd_get fd F_SETLK fl ofd ws st) = Done (Inl EAGAIN)
    then l_type fl' \<noteq> F_UNLCK \<and> (\<exists>w b. w \<noteq> req_owner pid ofd \<and> held (file_locks st) (lock_scope h) w b (l_type fl')
      \<and> \<not> (l_type fl' = F_RDLCK \<and> l_type fl = F_RDLCK)
      \<and> b \<in> {lock_start h fl..lock_end (lock_start h fl) (l_len fl)} \<inter> {l_start fl'..lock_end (l_start fl') (l_len fl')})
    else fl' = fl\<lparr>l_type := F_UNLCK\<rparr>)"
proof -
  let ?n = "lock_scope h" and ?s = "lock_start h fl" and ?t = "file_locks st"
  let ?scan = "getlk_scan ?n pid ofd ?s fl ?t [0..<MAX_FILE_LOCKS]"
  have ok: "locks_ok ?t" using lock_reachable_inv [OF assms(1)] by (simp add: lock_inv_def)
  have r: "st' = st" "fl' = getlk ?n pid ofd ?s fl ?t" using assms(2-4,7) by (auto simp: filelock_do_def)
  have "l_type fl \<noteq> F_UNLCK" using assms(6) by (auto simp: lock_consts)
  then have again: "fst (filelock_do pid fd_get fd F_SETLK fl ofd ws st) = Done (Inl EAGAIN) \<longleftrightarrow> ?scan \<noteq> None"
    unfolding getlk_scan_conflict using setlk_do [of st fd fd_get h fl pid ofd ws, OF assms(1-5)] by (auto split: if_splits)
  show ?thesis
  proof (cases ?scan)
    case None
    then show ?thesis using r again by (simp add: getlk_def)
  next
    case (Some l)
    then obtain i where i: "i < MAX_FILE_LOCKS" "l = ?t i" "lock_hit ?n pid ofd ?s (l_len fl) (l_type fl) l"
      using getlk_scan_Some [OF Some] by auto
    then have hit: "fl_active l" "fl_inode l = ?n" "\<not> lock_is_mine l pid ofd"
      "lock_overlaps (fl_start l) (fl_len l) ?s (l_len fl)" "lock_conflicts l (l_type fl)"
      by (auto simp: lock_hit_def)
    note l = locks_okD(1,2) [OF ok i(1) hit(1) [unfolded i(2)], folded i(2)]
    obtain b where b: "b \<in> {?s..lock_end ?s (l_len fl)} \<inter> lock_range l"
      using hit(4) [unfolded overlaps_iff [OF l(1) assms(5)]] unfolding lock_range_def by blast
    have "held ?t ?n (lock_owner l) b (fl_type l)"
      using i(1,2) hit(1,2) b by (auto simp: held_def holds_byte_def)
    moreover have "lock_owner l \<noteq> req_owner pid ofd" using hit(3) by (simp add: mine_iff)
    moreover have "l_type fl' = fl_type l" "l_start fl' = fl_start l" "l_len fl' = fl_len l"
      using r(2) Some by (simp_all add: getlk_def)
    moreover have "\<not> (fl_type l = F_RDLCK \<and> l_type fl = F_RDLCK)" using hit(5) by (simp add: lock_conflicts_def)
    ultimately show ?thesis
      using r(1) b l(2) Some again unfolding lock_range_def by auto
  qed
qed

text \<open>
  C23. No wake-up is lost. In every system of tasks that is reached from the empty
  table by lock calls (with ranges that do not wrap around), releases, wake-ups and
  signals, a task that is asleep in F_SETLKW, on a channel that nobody is about to
  wake, has something to wait for: another owner holds a byte of its range with a
  lock that conflicts with the one it wants.
\<close>

theorem filelock_no_lost_wakeup:
  assumes "wait_step\<^sup>*\<^sup>* (lock_boot st) s" "ls_waiters s t = Some w" "lw_inode w \<notin> set (ls_wakes s)"
  shows "\<exists>v b ty. v \<noteq> req_owner (lw_pid w) (lw_ofd w) \<and> held (file_locks (ls_locks s)) (lw_inode w) v b ty
    \<and> b \<in> {lw_start w..lock_end (lw_start w) (l_len (lw_fl w))} \<and> \<not> (ty = F_RDLCK \<and> l_type (lw_fl w) = F_RDLCK)"
proof -
  have "waiters_inv (lock_boot st)" by (simp add: waiters_inv_def lock_boot_def lock_inv_init)
  with assms(1) have "waiters_inv s" by (induction rule: rtranclp_induct) (auto intro: wait_step_inv)
  then have ok: "locks_ok (file_locks (ls_locks s))" and w: "waiter_blocked w (ls_locks s)"
    using assms(2,3) by (auto simp: waiters_inv_def lock_inv_def)
  have r: "range_ok (lw_start w) (l_len (lw_fl w))" using w by (simp add: waiter_blocked_def)
  from w show ?thesis unfolding waiter_blocked_def conflict_iff [OF ok r] by blast
qed


text \<open>
  What the statement leaves out: an OFD lock that the closing process holds on the
  file through another description goes too, because the release by process and
  file does not look at the description.
\<close>

lemma close_drops_other_ofd:
  assumes "filelock_initialized st" "lh_addr h \<noteq> 0" "i < MAX_FILE_LOCKS"
    "fl_active (file_locks st i)" "fl_inode (file_locks st i) = lock_scope h" "fl_pid (file_locks st i) = pid"
  shows "\<not> fl_active (file_locks (snd (filelock_release_all_by_pid_inode pid (lock_scope h) st)) i)"
  using assms by (auto simp: filelock_release_all_by_pid_inode_def Let_def lock_scope_def)

section \<open>An example\<close>

text \<open>The first lock of an owner on a file takes the first free slot.\<close>

lemma trim_locks_none:
  "\<forall>i\<in>set is. \<not> own_lock n pid ofd (t i) \<Longrightarrow> trim_locks n pid ofd start len is t = (True, t)"
  by (induction "is") (auto simp: trim_lock_def Let_def)

lemma apply_lock_first:
  assumes "\<And>i. i < MAX_FILE_LOCKS \<Longrightarrow> \<not> own_lock n pid ofd (t i)" "lty \<noteq> F_UNLCK"
    "first_slot (\<lambda>i. \<not> fl_active (t i)) MAX_FILE_LOCKS = Some j"
  shows "apply_lock n pid ofd start len lty t = (Inr (), t(j := \<lparr>fl_inode = n, fl_pid = pid, fl_ofd = ofd, fl_type = lty,
    fl_start = start, fl_len = len, fl_active = True\<rparr>))" (is "_ = (_, t(j := ?l))")
proof -
  note j = first_slot_SomeD(1,2) [OF assms(3)]
  have "0 < free_slots t" using free_slots_upd [OF j(1), of t "(t j)\<lparr>fl_active := True\<rparr>"] j(2) by simp
  moreover have "\<not> splits n pid ofd start len t" using assms(1) by (auto simp: splits_def straddles_def)
  ultimately have "lock_room n pid ofd start len lty t" using assms(2) by (simp add: lock_room_iff)
  moreover have "merge_pair n pid ofd (t(j := ?l)) = None"
    using assms(1) by (auto simp: merge_pair_def mergeable_def first_slot_None_iff split: option.splits dest!: first_slot_SomeD(1,2))
  ultimately show ?thesis
    using assms trim_locks_none [of "[0..<MAX_FILE_LOCKS]" n pid ofd t start len] j(1)
    by (simp add: apply_lock_def alloc_lock_def file_lock_zero_def merge_adjacent_locks.simps)
qed

definition example_handle :: "int \<Rightarrow> lock_handle option" where
  "example_handle fd = (if fd = 3 then Some \<lparr>lh_addr = 9, lh_inode = 5, lh_size = 0, lh_offset = 0\<rparr> else None)"

definition example_req :: "int \<Rightarrow> u64 \<Rightarrow> flock" where
  "example_req ty s = \<lparr>l_type = ty, l_whence = B1NIX_SEEK_SET, l_start = s, l_len = 10, l_pid = 0\<rparr>"

definition example_rec :: "int \<Rightarrow> u64 \<Rightarrow> file_lock" where
  "example_rec pid s = \<lparr>fl_inode = 5, fl_pid = pid, fl_ofd = 0, fl_type = F_RDLCK, fl_start = s, fl_len = 10, fl_active = True\<rparr>"

definition example_locks0 :: lock_state where
  "example_locks0 = filelock_init \<lparr>file_locks = (\<lambda>_. file_lock_zero), filelock_initialized = False\<rparr>"

text \<open>Process 1 has locked the bytes 10 to 19 of file 5 for reading, and then process 2 the bytes 15 to 24.\<close>

definition example_locks1 :: lock_state where
  "example_locks1 = snd (setlk_try 5 1 0 10 (example_req F_RDLCK 10) example_locks0)"

definition example_locks2 :: lock_state where
  "example_locks2 = snd (setlk_try 5 2 0 15 (example_req F_RDLCK 15) example_locks1)"

lemma example_locks1_eq: "example_locks1 = example_locks0\<lparr>file_locks := (\<lambda>_. file_lock_zero)(0 := example_rec 1 10)\<rparr>"
proof -
  have "first_slot (\<lambda>i. \<not> fl_active (file_locks example_locks0 i)) MAX_FILE_LOCKS = Some 0"
    by (simp add: first_slot_Some_iff MAX_FILE_LOCKS_def example_locks0_def filelock_init_def file_lock_zero_def)
  note a = apply_lock_first [OF _ _ this, of 5 1 0 F_RDLCK 10 10]
  have "\<not> filelock_conflict_exists 5 1 0 10 10 F_RDLCK (file_locks example_locks0)"
    by (simp add: filelock_conflict_exists_def first_slot_None_iff lock_hit_def example_locks0_def filelock_init_def file_lock_zero_def)
  then show ?thesis
    using a by (simp add: example_locks1_def setlk_try_def example_req_def example_locks0_def filelock_init_def own_lock_def
        file_lock_zero_def example_rec_def lock_consts)
qed

lemma example_setlk2:
  "setlk_try 5 2 0 15 (example_req F_RDLCK 15) example_locks1 = (Some (Inr (example_req F_RDLCK 15, [5])),
     example_locks0\<lparr>file_locks := (\<lambda>_. file_lock_zero)(0 := example_rec 1 10, 1 := example_rec 2 15)\<rparr>)"
proof -
  let ?t = "(\<lambda>_. file_lock_zero)(0 := example_rec 1 10)"
  have j: "first_slot (\<lambda>i. \<not> fl_active (?t i)) MAX_FILE_LOCKS = Some 1"
    by (auto simp: first_slot_Some_iff MAX_FILE_LOCKS_def file_lock_zero_def example_rec_def)
  have a: "apply_lock 5 2 0 15 10 F_RDLCK ?t = (Inr (), ?t(1 := example_rec 2 15))"
    unfolding example_rec_def by (rule apply_lock_first [OF _ _ j [unfolded example_rec_def]])
      (simp_all add: own_lock_def lock_is_mine_def file_lock_zero_def lock_consts)
  have "\<not> filelock_conflict_exists 5 2 0 15 10 F_RDLCK ?t"
    by (simp add: filelock_conflict_exists_def first_slot_None_iff lock_hit_def file_lock_zero_def example_rec_def lock_conflicts_def)
  then show ?thesis
    using a by (simp add: example_locks1_eq setlk_try_def example_req_def)
qed

lemmas example_locks2_eq = example_locks2_def [unfolded example_setlk2 snd_conv]

lemma example_range: "range_ok 10 10" "range_ok 15 10"
  by (simp_all add: range_ok_def lock_end_def)

lemma example_locks_reachable: "lock_reachable example_locks1" "lock_reachable example_locks2"
proof -
  have 1: "lock_step example_locks0 example_locks1"
    unfolding example_locks1_def by (rule lock_step_set) (simp add: example_req_def example_range)
  have 2: "lock_step example_locks1 example_locks2"
    unfolding example_locks2_def by (rule lock_step_set) (simp add: example_req_def example_range)
  show "lock_reachable example_locks1" "lock_reachable example_locks2"
    using 1 2 unfolding lock_reachable_def example_locks0_def by (meson r_into_rtranclp rtranclp.rtrancl_into_rtrancl)+
qed

lemma example_held:
  "held (file_locks example_locks1) 5 (Process 1) 12 F_RDLCK"
  "held (file_locks example_locks2) 5 (Process 1) 17 F_RDLCK" "held (file_locks example_locks2) 5 (Process 2) 17 F_RDLCK"
  unfolding held_def example_locks1_eq example_locks2_eq
  by (rule exI [of _ 0], simp add: MAX_FILE_LOCKS_def holds_byte_def example_rec_def lock_owner_def lock_range_def lock_end_def)
     (rule exI [of _ 0], simp add: MAX_FILE_LOCKS_def holds_byte_def example_rec_def lock_owner_def lock_range_def lock_end_def,
      rule exI [of _ 1], simp add: MAX_FILE_LOCKS_def holds_byte_def example_rec_def lock_owner_def lock_range_def lock_end_def)

lemma example_conflict:
  "filelock_conflict_exists 5 2 0 15 10 F_WRLCK (file_locks example_locks1)"
proof -
  have "lock_hit 5 2 0 15 10 F_WRLCK (file_locks example_locks1 0)"
    by (simp add: example_locks1_eq lock_hit_def example_rec_def lock_is_mine_def lock_overlaps_def lock_end_def lock_conflicts_def lock_consts)
  then show ?thesis
    using first_slot_ex [of 0 MAX_FILE_LOCKS] by (auto simp: filelock_conflict_exists_def MAX_FILE_LOCKS_def)
qed

lemma example_req_fields: "l_len (example_req ty s) = 10" "l_type (example_req ty s) = ty"
  by (simp_all add: example_req_def)

lemma example_do:
  "filelock_initialized example_locks1" "example_handle 3 = Some \<lparr>lh_addr = 9, lh_inode = 5, lh_size = 0, lh_offset = 0\<rparr>"
  "lock_scope \<lparr>lh_addr = 9, lh_inode = 5, lh_size = 0, lh_offset = 0\<rparr> = 5" "lock_start h (example_req ty s) = s"
  "F_SETLK \<noteq> F_GETLK" "F_SETLKW \<noteq> F_GETLK"
  by (simp_all add: example_locks1_eq example_locks0_def filelock_init_def example_handle_def lock_scope_def lock_start_def
      example_req_def B1NIX_SEEK_SET_def B1NIX_SEEK_CUR_def B1NIX_SEEK_END_def lock_consts)

theorem filelock_exclusion_witness:
  "held (file_locks example_locks2) 5 (Process 1) 17 F_RDLCK \<and> held (file_locks example_locks2) 5 (Process 2) 17 F_RDLCK
   \<and> \<not> held (file_locks example_locks2) 5 (Process 1) 17 F_WRLCK"
  using filelock_exclusion [OF example_locks_reachable(2) _ example_held(3), of "Process 1" F_WRLCK] example_held(2,3)
  by (auto simp: lock_consts)

theorem filelock_refines_bytes_witness:
  "held (file_locks (snd (filelock_do 2 example_handle 3 F_SETLK (example_req F_RDLCK 15) 0 [] example_locks1))) 5 (Process 1) 12 F_RDLCK"
proof -
  let ?r = "filelock_do 2 example_handle 3 F_SETLK (example_req F_RDLCK 15) 0 [] example_locks1"
  have r: "?r = (Done (Inr (example_req F_RDLCK 15, [5])), snd ?r)"
    using example_setlk2 by (simp add: filelock_do_def example_do)
  show ?thesis
    using filelock_refines_bytes [OF example_locks_reachable(1) _ _ _ _ r] example_held(1)
    by (simp add: example_do example_req_fields example_range set_bytes_def req_owner_def slept_def lock_consts)
qed


theorem filelock_getlk_agrees_witness:
  "case filelock_do 2 example_handle 3 F_GETLK (example_req F_WRLCK 15) 0 [] example_locks1 of
     (Done (Inr (fl, woken)), st) \<Rightarrow> st = example_locks1 \<and> l_type fl \<noteq> F_UNLCK | _ \<Rightarrow> False"
proof -
  let ?fl = "getlk 5 2 0 15 (example_req F_WRLCK 15) (file_locks example_locks1)"
  have r: "filelock_do 2 example_handle 3 F_GETLK (example_req F_WRLCK 15) 0 [] example_locks1 = (Done (Inr (?fl, [])), example_locks1)"
    by (simp add: filelock_do_def example_do)
  have "fst (filelock_do 2 example_handle 3 F_SETLK (example_req F_WRLCK 15) 0 [] example_locks1) = Done (Inl EAGAIN)"
    using example_conflict by (simp add: filelock_do_def setlk_try_def example_do example_req_fields lock_consts)
  then show ?thesis
    unfolding r using filelock_getlk_agrees [OF example_locks_reachable(1) _ _ _ _ _ r]
    by (simp add: example_do example_req_fields example_range)
qed

text \<open>Process 2 sleeps until process 1 unlocks; the wake-up is then still to come.\<close>

definition example_waiter :: lock_waiter where
  "example_waiter = \<lparr>lw_inode = 5, lw_pid = 2, lw_ofd = 0, lw_start = 15, lw_fl = example_req F_WRLCK 15\<rparr>"

definition example_asleep :: lock_system where
  "example_asleep = \<lparr>ls_locks = example_locks1, ls_waiters = (\<lambda>_. None)(2 \<mapsto> example_waiter), ls_wakes = []\<rparr>"

lemma example_locks0_ok: "lock_inv example_locks0" "range_ok 10 (l_len (example_req F_RDLCK 10))"
  by (simp_all add: example_locks0_def lock_inv_init example_req_fields example_range)

lemma example_asleep_reachable:
  "wait_step\<^sup>*\<^sup>* (lock_boot \<lparr>file_locks = (\<lambda>_. file_lock_zero), filelock_initialized = False\<rparr>) example_asleep"
    (is "wait_step\<^sup>*\<^sup>* ?s0 _")
proof -
  let ?s1 = "?s0\<lparr>ls_locks := example_locks1, ls_wakes := [5]\<rparr>"
  let ?s2 = "?s0\<lparr>ls_locks := example_locks1\<rparr>"
  have "fst (setlk_try 5 1 0 10 (example_req F_RDLCK 10) example_locks0) = Some (Inr (example_req F_RDLCK 10, [5]))"
    using example_locks0_ok
  proof (cases rule: setlk_try_cases [where n = 5 and pid = 1 and ofd = 0])
    case wait
    then show ?thesis
      by (simp add: filelock_conflict_exists_def first_slot_None_iff lock_hit_def example_locks0_def filelock_init_def
          file_lock_zero_def)
  next
    case nomem
    then have "file_locks example_locks0 = file_locks example_locks1" by (simp add: example_locks1_def)
    then have "file_locks example_locks0 0 = file_locks example_locks1 0" by (simp only:)
    then show ?thesis
      unfolding example_locks1_eq by (simp add: example_locks0_def filelock_init_def file_lock_zero_def example_rec_def)
  qed simp
  then have "setlk_try 5 1 0 10 (example_req F_RDLCK 10) (ls_locks ?s0) = (Some (Inr (example_req F_RDLCK 10, [5])), example_locks1)"
    by (simp add: example_locks1_def lock_boot_def example_locks0_def prod_eq_iff)
  then have 1: "wait_step ?s0 ?s1"
    using wait_set [of 10 "example_req F_RDLCK 10" 5 1 0 ?s0] by (simp add: example_req_fields example_range lock_boot_def)
  have "wait_step ?s1 ?s2"
    using wait_wake [of 5 ?s1] by (simp add: lock_boot_def)
  moreover have "wait_step ?s2 (?s2\<lparr>ls_locks := example_locks1, ls_waiters := (ls_waiters ?s2)(2 \<mapsto> example_waiter)\<rparr>)"
    by (rule wait_sleep) (use example_conflict in
        \<open>simp_all add: example_waiter_def example_req_fields example_range setlk_try_def lock_boot_def lock_consts\<close>)
  ultimately show ?thesis
    using 1 by (simp add: example_asleep_def lock_boot_def)
qed

theorem filelock_no_lost_wakeup_witness:
  "ls_waiters example_asleep 2 = Some example_waiter
   \<and> (\<exists>v b ty. v \<noteq> Process 2 \<and> held (file_locks (ls_locks example_asleep)) 5 v b ty \<and> b \<in> {15..24})"
  using filelock_no_lost_wakeup [OF example_asleep_reachable, of 2 example_waiter]
  by (auto simp: example_asleep_def example_waiter_def req_owner_def example_req_fields lock_end_def)


text \<open>
  The hypothesis on the range is needed: a request whose end wraps around has an
  end below its start and meets no range that contains its start, so two owners
  can both be granted the byte.
\<close>

lemma wrapped_range_missed: "\<not> range_ok 100 (- 50)" "\<not> lock_overlaps 100 (- 50) 100 50"
  by (simp_all add: range_ok_def lock_overlaps_def lock_end_def)

end
