(* ===== verification/Pipe.thy ===== *)
theory Pipe
  imports Prelude
begin

text \<open>
  Pipes and FIFOs, \<^verbatim>\<open>kernel/fs/pipe.c\<close>: the pool of pipe slots with
  their ring buffers, reading, writing, \<open>tee(2)\<close>, polling, the creation and
  release of anonymous pipes, and the open-time rendezvous of FIFOs.

  A slot is named by its index in the pool, an inode by a number, and a handle
  is the record \<open>pipe_handle\<close> of what the code keeps in \<open>struct vfs_handle\<close>
  for a pipe end. A failed \<open>KASSERT\<close>, which panics, is the value
  \<^term>\<open>None\<close>. The size of the pool, the buffer \<open>kmalloc\<close> returns, the
  success of handle allocation and the descriptors \<open>scheduler_fd_alloc\<close>
  returns are arguments. Wake-ups are left out: the sleeps of the blocking
  calls are explicit lists.
\<close>

definition PIPE_BUFFER_SIZE :: nat where "PIPE_BUFFER_SIZE = 65536"
definition PIPE_BUFFER_CACHE :: int where "PIPE_BUFFER_CACHE = 64"
definition MAX_VFS_PIPES_CEIL :: nat where "MAX_VFS_PIPES_CEIL = 4096"
definition PIPE_FIONREAD :: u64 where "PIPE_FIONREAD = 0x541B"

datatype pipe_kind = VFS_HANDLE_PIPE_READ | VFS_HANDLE_PIPE_WRITE | VFS_HANDLE_OTHER

record vfs_pipe_slot =
  vp_used :: bool
  vp_buffer :: "u8 table option"
  vp_size :: nat
  vp_read_pos :: nat
  vp_write_pos :: nat
  vp_readers :: int
  vp_writers :: int
  vp_reader_opens :: u32
  vp_writer_opens :: u32
  vp_event_gen :: u32

record pipe_handle =
  ph_pipe :: "nat option"
  ph_kind :: pipe_kind
  ph_flags :: u32
  ph_node :: "nat option"
  ph_offset :: u64

record pipe_state =
  pipes :: "vfs_pipe_slot table"
  pipe_buffers_held :: int
  inode_fifo :: "nat \<Rightarrow> nat option"

definition set_pipe :: "nat \<Rightarrow> vfs_pipe_slot \<Rightarrow> pipe_state \<Rightarrow> pipe_state" where
  "set_pipe i p st = st\<lparr>pipes := (pipes st)(i := p)\<rparr>"

section \<open>The ring buffer\<close>

text \<open>
  A used slot always has a buffer (see \<open>pipe_slots_exact\<close>); reading a missing
  one would be a null dereference in the code and is 0 here.
\<close>

definition buf_at :: "vfs_pipe_slot \<Rightarrow> u8 table" where
  "buf_at p = (case vp_buffer p of None \<Rightarrow> (\<lambda>_. 0) | Some b \<Rightarrow> b)"

fun ring_get :: "nat \<Rightarrow> vfs_pipe_slot \<Rightarrow> u8 list \<times> vfs_pipe_slot" where
  "ring_get 0 p = ([], p)"
| "ring_get (Suc k) p =
     (let b = buf_at p (vp_read_pos p);
          (bs, p') = ring_get k (p\<lparr>vp_read_pos := (vp_read_pos p + 1) mod PIPE_BUFFER_SIZE\<rparr>)
      in (b # bs, p'))"

fun ring_put :: "u8 list \<Rightarrow> vfs_pipe_slot \<Rightarrow> vfs_pipe_slot" where
  "ring_put [] p = p"
| "ring_put (b # bs) p =
     ring_put bs (p\<lparr>vp_buffer := map_option (\<lambda>f. f(vp_write_pos p := b)) (vp_buffer p),
                   vp_write_pos := (vp_write_pos p + 1) mod PIPE_BUFFER_SIZE\<rparr>)"

definition pipe_get :: "nat \<Rightarrow> vfs_pipe_slot \<Rightarrow> u8 list \<times> vfs_pipe_slot" where
  "pipe_get n p =
     (let to_r = (if n < vp_size p then n else vp_size p); (bs, p') = ring_get to_r p
      in (bs, p'\<lparr>vp_size := vp_size p' - to_r\<rparr>))"

definition pipe_put :: "u8 list \<Rightarrow> vfs_pipe_slot \<Rightarrow> nat \<times> vfs_pipe_slot" where
  "pipe_put bs p =
     (let free_space = PIPE_BUFFER_SIZE - vp_size p;
          to_w = (if length bs < free_space then length bs else free_space);
          p' = ring_put (take to_w bs) p
      in (to_w, p'\<lparr>vp_event_gen := (if to_w \<noteq> 0 then vp_event_gen p' + 1 else vp_event_gen p'),
                   vp_size := vp_size p' + to_w\<rparr>))"

section \<open>Reading and writing\<close>

definition pipe_read_try :: "nat \<Rightarrow> nat \<Rightarrow> pipe_state \<Rightarrow> u8 list result option \<times> pipe_state" where
  "pipe_read_try i n st =
     (let p = pipes st i in
      if vp_size p = 0 then (if vp_writers p = 0 then (Some (Inr []), st) else (None, st))
      else case pipe_get n p of (bs, p') \<Rightarrow> (Some (Inr bs), set_pipe i p' st))"

definition pipe_write_try :: "nat \<Rightarrow> u8 list \<Rightarrow> pipe_state \<Rightarrow> nat result option \<times> pipe_state" where
  "pipe_write_try i bs st =
     (let p = pipes st i in
      if vp_readers p = 0 then (Some (Inl EPIPE), st)
      else if PIPE_BUFFER_SIZE - vp_size p = 0 then (None, st)
      else case pipe_put bs p of (k, p') \<Rightarrow> (Some (Inr k), set_pipe i p' st))"

definition pipe_read ::
    "pipe_handle \<Rightarrow> nat \<Rightarrow> pipe_state sleep list \<Rightarrow> pipe_state \<Rightarrow> u8 list outcome \<times> pipe_state" where
  "pipe_read h n ws st =
     (case ph_pipe h of
        None \<Rightarrow> (Done (Inl EIO), st)
      | Some i \<Rightarrow>
          if \<not> vp_used (pipes st i) then (Done (Inl EIO), st)
          else blocking (pipe_read_try i n) (if ph_flags h AND B1NIX_O_NONBLOCK \<noteq> 0 then Some EAGAIN else None)
                 ERESTARTSYS ws st)"

definition pipe_write ::
    "pipe_handle \<Rightarrow> u8 list \<Rightarrow> pipe_state sleep list \<Rightarrow> pipe_state \<Rightarrow> nat outcome \<times> pipe_state" where
  "pipe_write h bs ws st =
     (case ph_pipe h of
        None \<Rightarrow> (Done (Inl EIO), st)
      | Some i \<Rightarrow>
          if \<not> vp_used (pipes st i) then (Done (Inl EIO), st)
          else blocking (pipe_write_try i bs) (if ph_flags h AND B1NIX_O_NONBLOCK \<noteq> 0 then Some EAGAIN else None)
                 ERESTARTSYS ws st)"

text \<open>The copying loop of \<open>tee\<close>: \<open>rp\<close> runs over the source, whose own position stays.\<close>

fun tee_copy :: "nat \<Rightarrow> u8 table \<Rightarrow> nat \<Rightarrow> vfs_pipe_slot \<Rightarrow> vfs_pipe_slot" where
  "tee_copy 0 src rp dst = dst"
| "tee_copy (Suc n) src rp dst =
     tee_copy n src ((rp + 1) mod PIPE_BUFFER_SIZE)
       (dst\<lparr>vp_buffer := map_option (\<lambda>f. f(vp_write_pos dst := src rp)) (vp_buffer dst),
            vp_write_pos := (vp_write_pos dst + 1) mod PIPE_BUFFER_SIZE\<rparr>)"

definition vfs_pipe_tee ::
    "pipe_handle option \<Rightarrow> pipe_handle option \<Rightarrow> nat \<Rightarrow> pipe_state \<Rightarrow> nat result \<times> pipe_state" where
  "vfs_pipe_tee hin hout len st =
     (case (hin, hout) of
        (Some hi, Some ho) \<Rightarrow>
          if ph_kind hi \<noteq> VFS_HANDLE_PIPE_READ \<or> ph_kind ho \<noteq> VFS_HANDLE_PIPE_WRITE then (Inl EINVAL, st)
          else (case (ph_pipe hi, ph_pipe ho) of
             (Some s, Some d) \<Rightarrow>
               if \<not> vp_used (pipes st s) \<or> \<not> vp_used (pipes st d) then (Inl EIO, st)
               else if s = d then (Inl EINVAL, st)
               else if len = 0 then (Inr 0, st)
               else let src = pipes st s; dst = pipes st d in
                 if vp_readers dst = 0 then (Inl EPIPE, st)
                 else let avail = vp_size src; space = PIPE_BUFFER_SIZE - vp_size dst;
                          n = (if len > avail then avail else len); n = (if n > space then space else n) in
                   if n = 0 then ((if avail = 0 \<and> vp_writers src = 0 then Inr 0 else Inl EAGAIN), st)
                   else let dst' = tee_copy n (buf_at src) (vp_read_pos src) dst in
                     (Inr n, set_pipe d (dst'\<lparr>vp_event_gen := vp_event_gen dst' + 1, vp_size := vp_size dst' + n\<rparr>) st)
           | _ \<Rightarrow> (Inl EIO, st))
      | _ \<Rightarrow> (Inl EINVAL, st))"

definition pipe_poll :: "pipe_handle \<Rightarrow> pipe_state \<Rightarrow> u16" where
  "pipe_poll h st =
     (case ph_pipe h of
        None \<Rightarrow> B1NIX_POLLHUP
      | Some i \<Rightarrow>
          let p = pipes st i in
          if \<not> vp_used p then B1NIX_POLLHUP
          else case ph_kind h of
            VFS_HANDLE_PIPE_READ \<Rightarrow>
              (if vp_size p > 0 then B1NIX_POLLIN else 0) OR
              (if vp_writers p = 0 \<and> (ph_node h = None \<or> vp_writer_opens p \<noteq> ucast (ph_offset h))
               then B1NIX_POLLHUP else 0)
          | VFS_HANDLE_PIPE_WRITE \<Rightarrow>
              (if vp_size p < PIPE_BUFFER_SIZE then B1NIX_POLLOUT else 0) OR
              (if vp_readers p = 0 then B1NIX_POLLERR else 0)
          | VFS_HANDLE_OTHER \<Rightarrow> 0)"

definition pipe_poll_gen :: "pipe_handle option \<Rightarrow> pipe_state \<Rightarrow> u32" where
  "pipe_poll_gen h st =
     (case h of
        None \<Rightarrow> 0
      | Some h \<Rightarrow> (case ph_pipe h of None \<Rightarrow> 0 | Some i \<Rightarrow> vp_event_gen (pipes st i)))"

text \<open>\<open>copyout_ok\<close>: whether \<open>syscall_copyout\<close> succeeds; the value is what it writes.\<close>

definition pipe_ioctl :: "pipe_handle \<Rightarrow> u64 \<Rightarrow> bool \<Rightarrow> pipe_state \<Rightarrow> nat result" where
  "pipe_ioctl h request copyout_ok st =
     (if request \<noteq> PIPE_FIONREAD then Inl ENOTTY
      else let n = (case ph_pipe h of
                      None \<Rightarrow> 0 | Some i \<Rightarrow> if vp_used (pipes st i) then vp_size (pipes st i) else 0)
        in if copyout_ok then Inr n else Inl EFAULT)"

section \<open>Anonymous pipes\<close>

definition pipe_release :: "pipe_handle \<Rightarrow> pipe_state \<Rightarrow> pipe_state option" where
  "pipe_release h st =
     (case ph_pipe h of
        None \<Rightarrow> Some st
      | Some i \<Rightarrow>
          let p = pipes st i; rd = (ph_kind h = VFS_HANDLE_PIPE_READ) in
          if (if rd then vp_readers p \<le> 0 else vp_writers p \<le> 0) then None
          else let p1 = (if rd then p\<lparr>vp_readers := vp_readers p - 1\<rparr> else p\<lparr>vp_writers := vp_writers p - 1\<rparr>);
                   free_pipe = (vp_readers p1 \<le> 0 \<and> vp_writers p1 \<le> 0);
                   doomed = (free_pipe \<and> pipe_buffers_held st > PIPE_BUFFER_CACHE \<and> vp_buffer p1 \<noteq> None);
                   p2 = (if free_pipe \<and> pipe_buffers_held st > PIPE_BUFFER_CACHE then p1\<lparr>vp_buffer := None\<rparr> else p1);
                   p3 = (if free_pipe then p2\<lparr>vp_used := False\<rparr> else p2);
                   st1 = set_pipe i p3 st
            in Some (if doomed then st1\<lparr>pipe_buffers_held := pipe_buffers_held st1 - 1\<rparr> else st1))"

definition vfs_pipe_init_handle :: "nat \<Rightarrow> bool \<Rightarrow> pipe_handle \<Rightarrow> pipe_handle" where
  "vfs_pipe_init_handle pipe is_write h =
     h\<lparr>ph_pipe := Some pipe,
       ph_kind := (if is_write then VFS_HANDLE_PIPE_WRITE else VFS_HANDLE_PIPE_READ),
       ph_flags := (ph_flags h AND NOT 3) OR (if is_write then B1NIX_O_WRONLY else B1NIX_O_RDONLY)\<rparr>"

definition pipe_pool_claim :: "nat \<Rightarrow> u8 table option \<Rightarrow> pipe_state \<Rightarrow> nat option \<times> pipe_state" where
  "pipe_pool_claim cap kmalloc st =
     (case first_slot (\<lambda>i. \<not> vp_used (pipes st i)) cap of
        None \<Rightarrow> (None, st)
      | Some i \<Rightarrow>
          let p = (pipes st i)\<lparr>vp_used := True\<rparr> in
          if vp_buffer p \<noteq> None then (Some i, set_pipe i p st)
          else (case kmalloc of
                  None \<Rightarrow> (None, set_pipe i (p\<lparr>vp_used := False\<rparr>) st)
                | Some b \<Rightarrow>
                    (Some i, (set_pipe i (p\<lparr>vp_buffer := Some b\<rparr>) st)
                               \<lparr>pipe_buffers_held := pipe_buffers_held st + 1\<rparr>)))"

definition pipe_slot_reset :: "vfs_pipe_slot \<Rightarrow> vfs_pipe_slot" where
  "pipe_slot_reset p =
     \<lparr>vp_used = False, vp_buffer = vp_buffer p, vp_size = 0, vp_read_pos = 0, vp_write_pos = 0,
      vp_readers = 0, vp_writers = 0, vp_reader_opens = 0, vp_writer_opens = 0, vp_event_gen = 0\<rparr>"

definition raw_handle :: "pipe_kind \<Rightarrow> pipe_handle" where
  "raw_handle k = \<lparr>ph_pipe = None, ph_kind = k, ph_flags = 0, ph_node = None, ph_offset = 0\<rparr>"

definition unuse :: "nat \<Rightarrow> pipe_state \<Rightarrow> pipe_state" where
  "unuse i st = set_pipe i ((pipes st i)\<lparr>vp_used := False\<rparr>) st"

definition vfs_pipe ::
    "bool \<Rightarrow> nat \<Rightarrow> u8 table option \<Rightarrow> bool \<Rightarrow> bool \<Rightarrow> int \<Rightarrow> int \<Rightarrow> pipe_state
     \<Rightarrow> ((pipe_handle \<times> pipe_handle) result \<times> pipe_state) option" where
  "vfs_pipe pipefd_ok cap kmalloc rh_ok wh_ok fd0 fd1 st =
     (if \<not> pipefd_ok then Some (Inl EINVAL, st)
      else case pipe_pool_claim cap kmalloc st of
        (None, st1) \<Rightarrow> Some (Inl ENFILE, st1)
      | (Some i, st1) \<Rightarrow>
          if \<not> rh_ok \<or> \<not> wh_ok then Some (Inl EMFILE, unuse i st1)
          else let st2 = set_pipe i ((pipe_slot_reset (pipes st1 i))
                           \<lparr>vp_used := True, vp_readers := 1, vp_writers := 1\<rparr>) st1;
                   rh = vfs_pipe_init_handle i False (raw_handle VFS_HANDLE_PIPE_READ);
                   wh = vfs_pipe_init_handle i True (raw_handle VFS_HANDLE_PIPE_WRITE) in
            if fd0 < 0 \<or> fd1 < 0 then
              (case pipe_release rh st2 of
                 None \<Rightarrow> None
               | Some st3 \<Rightarrow> (case pipe_release wh st3 of None \<Rightarrow> None | Some st4 \<Rightarrow> Some (Inl EMFILE, st4)))
            else Some (Inr (rh, wh), st2))"

section \<open>FIFOs\<close>

definition wants_read :: "u32 \<Rightarrow> bool" where
  "wants_read flags \<longleftrightarrow> flags AND 3 = B1NIX_O_RDONLY \<or> flags AND 3 = B1NIX_O_RDWR"

definition wants_write :: "u32 \<Rightarrow> bool" where
  "wants_write flags \<longleftrightarrow> flags AND 3 = B1NIX_O_WRONLY \<or> flags AND 3 = B1NIX_O_RDWR"

definition fifo_detach :: "nat option \<Rightarrow> nat \<Rightarrow> bool \<Rightarrow> bool \<Rightarrow> pipe_state \<Rightarrow> pipe_state option" where
  "fifo_detach inode fifo was_reader was_writer st =
     (let p = pipes st fifo in
      if was_reader \<and> vp_readers p \<le> 0 \<or> was_writer \<and> vp_writers p \<le> 0 then None
      else let p1 = p\<lparr>vp_readers := vp_readers p - (if was_reader then 1 else 0),
                      vp_writers := vp_writers p - (if was_writer then 1 else 0)\<rparr> in
        Some (if vp_readers p1 \<le> 0 \<and> vp_writers p1 \<le> 0
              then let st1 = (case inode of
                                Some n \<Rightarrow> if inode_fifo st n = Some fifo
                                          then st\<lparr>inode_fifo := (inode_fifo st)(n := None)\<rparr> else st
                              | None \<Rightarrow> st)
                   in set_pipe fifo (p1\<lparr>vp_used := False\<rparr>) st1
              else set_pipe fifo p1 st))"

definition fifo_release :: "pipe_handle \<Rightarrow> pipe_state \<Rightarrow> pipe_state option" where
  "fifo_release h st =
     (case ph_pipe h of
        None \<Rightarrow> Some st
      | Some i \<Rightarrow> fifo_detach (ph_node h) i (wants_read (ph_flags h)) (wants_write (ph_flags h)) st)"

text \<open>
  The first half of \<open>vfs_fifo_open\<close>, up to the wake-up of the peer: the
  buffer of the inode is found or attached, and the end is counted.
\<close>

definition fifo_attach :: "nat \<Rightarrow> u32 \<Rightarrow> nat \<Rightarrow> u8 table option \<Rightarrow> pipe_state \<Rightarrow> nat result \<times> pipe_state" where
  "fifo_attach inode flags cap kmalloc st =
     (case pipe_pool_claim cap kmalloc st of
        (None, st1) \<Rightarrow> (Inl ENFILE, st1)
      | (Some spare, st1) \<Rightarrow>
          let (fifo, left, st2) =
                (case inode_fifo st1 inode of
                   Some f \<Rightarrow> (f, Some spare, st1)
                 | None \<Rightarrow>
                     (spare, None,
                      (set_pipe spare ((pipe_slot_reset (pipes st1 spare))\<lparr>vp_used := True\<rparr>) st1)
                        \<lparr>inode_fifo := (inode_fifo st1)(inode := Some spare)\<rparr>));
              drop_spare = (\<lambda>st. case left of Some s \<Rightarrow> unuse s st | None \<Rightarrow> st);
              p = pipes st2 fifo
          in if wants_write flags \<and> \<not> wants_read flags \<and> flags AND B1NIX_O_NONBLOCK \<noteq> 0 \<and> vp_readers p = 0
             then (Inl ENXIO,
                   drop_spare (if vp_readers p \<le> 0 \<and> vp_writers p \<le> 0
                               then (unuse fifo st2)\<lparr>inode_fifo := (inode_fifo st2)(inode := None)\<rparr> else st2))
             else let p1 = (if wants_read flags
                            then p\<lparr>vp_readers := vp_readers p + 1, vp_reader_opens := vp_reader_opens p + 1\<rparr> else p);
                      p2 = (if wants_write flags
                            then p1\<lparr>vp_writers := vp_writers p1 + 1, vp_writer_opens := vp_writer_opens p1 + 1\<rparr> else p1)
                  in (Inr fifo, drop_spare (set_pipe fifo p2 st2)))"

text \<open>
  The wait for the opposite end, for a list of sleeps: whether a signal is
  pending before each, and what the rest of the system does until the task
  runs again. What wakes it is not part of the list. The result is the outcome
  of the wait.
\<close>

fun fifo_wait ::
    "nat \<Rightarrow> nat \<Rightarrow> bool \<Rightarrow> bool \<Rightarrow> pipe_state sleep list \<Rightarrow> pipe_state \<Rightarrow> (unit outcome \<times> pipe_state) option" where
  "fifo_wait inode fifo rd wr [] st =
     (if (if rd then vp_writer_opens else vp_reader_opens) (pipes st fifo) \<noteq> 0 then Some (Done (Inr ()), st)
      else Some (Blocked, st))"
| "fifo_wait inode fifo rd wr ((pending, env) # ws) st =
     (if (if rd then vp_writer_opens else vp_reader_opens) (pipes st fifo) \<noteq> 0 then Some (Done (Inr ()), st)
      else if pending then
        (case fifo_detach (Some inode) fifo rd wr st of
           None \<Rightarrow> None | Some st' \<Rightarrow> Some (Done (Inl ERESTARTSYS), st'))
      else fifo_wait inode fifo rd wr ws (env st))"

text \<open>
  The second half: the handle and its descriptor. The result is the descriptor
  and the handle; \<open>O_CLOEXEC\<close> is a flag of the descriptor and is left out.
\<close>

definition fifo_finish ::
    "nat \<Rightarrow> nat \<Rightarrow> u32 \<Rightarrow> bool \<Rightarrow> int \<Rightarrow> pipe_state \<Rightarrow> ((int \<times> pipe_handle) result \<times> pipe_state) option" where
  "fifo_finish inode fifo flags h_ok fd st =
     (if \<not> h_ok then
        (case fifo_detach (Some inode) fifo (wants_read flags) (wants_write flags) st of
           None \<Rightarrow> None | Some st' \<Rightarrow> Some (Inl ENFILE, st'))
      else let h = \<lparr>ph_pipe = Some fifo,
                    ph_kind = (if wants_read flags then VFS_HANDLE_PIPE_READ else VFS_HANDLE_PIPE_WRITE),
                    ph_flags = flags, ph_node = Some inode, ph_offset = ucast (vp_writer_opens (pipes st fifo))\<rparr>
        in if fd < 0 then (case fifo_release h st of None \<Rightarrow> None | Some st' \<Rightarrow> Some (Inl EMFILE, st'))
           else Some (Inr (fd, h), st))"

definition vfs_fifo_open ::
    "nat option \<Rightarrow> u32 \<Rightarrow> nat \<Rightarrow> u8 table option \<Rightarrow> bool \<Rightarrow> int \<Rightarrow> pipe_state sleep list \<Rightarrow> pipe_state
     \<Rightarrow> ((int \<times> pipe_handle) outcome \<times> pipe_state) option" where
  "vfs_fifo_open node_inode flags cap kmalloc h_ok fd ws st =
     (case node_inode of
        None \<Rightarrow> Some (Done (Inl EINVAL), st)
      | Some inode \<Rightarrow>
          if \<not> wants_read flags \<and> \<not> wants_write flags then Some (Done (Inl EINVAL), st)
          else (case fifo_attach inode flags cap kmalloc st of
             (Inl e, st1) \<Rightarrow> Some (Done (Inl e), st1)
           | (Inr fifo, st1) \<Rightarrow>
               (case (if flags AND B1NIX_O_NONBLOCK = 0 \<and> flags AND 3 \<noteq> B1NIX_O_RDWR
                      then fifo_wait inode fifo (wants_read flags) (wants_write flags) ws st1
                      else Some (Done (Inr ()), st1)) of
                  None \<Rightarrow> None
                | Some (Blocked, st2) \<Rightarrow> Some (Blocked, st2)
                | Some (Done (Inl e), st2) \<Rightarrow> Some (Done (Inl e), st2)
                | Some (Done (Inr _), st2) \<Rightarrow>
                    (case fifo_finish inode fifo flags h_ok fd st2 of
                       None \<Rightarrow> None | Some (r, st3) \<Rightarrow> Some (Done r, st3)))))"

section \<open>The ring buffer is a queue of bytes\<close>

definition pipe_bytes :: "vfs_pipe_slot \<Rightarrow> u8 list" where
  "pipe_bytes p = map (\<lambda>k. buf_at p ((vp_read_pos p + k) mod PIPE_BUFFER_SIZE)) [0..<vp_size p]"

definition pipe_ok :: "vfs_pipe_slot \<Rightarrow> bool" where
  "pipe_ok p \<longleftrightarrow> vp_buffer p \<noteq> None \<and> vp_size p \<le> PIPE_BUFFER_SIZE \<and> vp_read_pos p < PIPE_BUFFER_SIZE
     \<and> vp_write_pos p = (vp_read_pos p + vp_size p) mod PIPE_BUFFER_SIZE"

lemma length_pipe_bytes [simp]: "length (pipe_bytes p) = vp_size p"
  by (simp add: pipe_bytes_def)

lemma ring_size_pos [simp]: "0 < PIPE_BUFFER_SIZE"
  by (simp add: PIPE_BUFFER_SIZE_def)

lemma ring_get_eq:
  assumes "vp_read_pos p < PIPE_BUFFER_SIZE"
  shows "ring_get k p = (map (\<lambda>j. buf_at p ((vp_read_pos p + j) mod PIPE_BUFFER_SIZE)) [0..<k],
    p\<lparr>vp_read_pos := (vp_read_pos p + k) mod PIPE_BUFFER_SIZE\<rparr>)"
  using assms
proof (induction k arbitrary: p)
  case (Suc k)
  let ?p = "p\<lparr>vp_read_pos := (vp_read_pos p + 1) mod PIPE_BUFFER_SIZE\<rparr>"
  have m: "((vp_read_pos p + 1) mod PIPE_BUFFER_SIZE + j) mod PIPE_BUFFER_SIZE = (vp_read_pos p + Suc j) mod PIPE_BUFFER_SIZE" for j
    by (simp add: mod_simps)
  have "[0..<Suc k] = 0 # map Suc [0..<k]" by (simp add: upt_conv_Cons map_Suc_upt del: upt_Suc)
  then show ?case
    using Suc.IH [of ?p] Suc.prems m by (simp add: buf_at_def del: upt_Suc)
qed simp

text \<open>Distances on the ring.\<close>

lemma ring_next:
  fixes s :: nat
  assumes "i < s" "w < s" "i \<noteq> w"
  shows "(i + s - w) mod s = Suc ((i + s - (w + 1) mod s) mod s)"
proof (cases "w < i")
  case True
  then have "(w + 1) mod s = w + 1" using assms by simp
  moreover have "i + s - w = (i - w) + s" "i + s - (w + 1) = (i - w - 1) + s" using True assms by simp_all
  moreover have "((i - w) + s) mod s = i - w" "((i - w - 1) + s) mod s = i - w - 1" using assms by simp_all
  ultimately have "(i + s - w) mod s = i - w" "(i + s - (w + 1) mod s) mod s = i - w - 1" by (simp_all only:)
  then show ?thesis using True by simp
next
  case False
  then have "i < w" using assms by simp
  show ?thesis
  proof (cases "w + 1 = s")
    case True
    then show ?thesis using \<open>i < w\<close> by simp
  next
    case False
    then have "(w + 1) mod s = w + 1" using assms by simp
    then show ?thesis using \<open>i < w\<close> assms False by simp
  qed
qed

lemma ring_distance:
  fixes s :: nat
  assumes "r < s" "n \<le> s" "k < s"
  shows "((r + k) mod s + s - (r + n) mod s) mod s = (k + s - n) mod s"
proof -
  have k: "(r + k) mod s = (if r + k < s then r + k else r + k - s)"
    and n: "(r + n) mod s = (if r + n < s then r + n else r + n - s)"
    using assms by (simp_all add: le_mod_geq)
  consider "r + k < s \<longleftrightarrow> r + n < s" | "r + k < s" "s \<le> r + n" | "s \<le> r + k" "r + n < s" by linarith
  then show ?thesis
  proof cases
    case 1
    then have "(r + k) mod s + s - (r + n) mod s = k + s - n" unfolding k n by auto
    then show ?thesis by (simp only:)
  next
    case 2
    then have "(r + k) mod s + s - (r + n) mod s = (k + s - n) + s" unfolding k n using assms by simp
    then show ?thesis by (simp only: mod_add_self2)
  next
    case 3
    then have "k + s - n = ((r + k) mod s + s - (r + n) mod s) + s" unfolding k n using assms by simp
    then show ?thesis by (simp only: mod_add_self2)
  qed
qed

lemma ring_put_fields [simp]:
  "vp_size (ring_put bs p) = vp_size p" "vp_read_pos (ring_put bs p) = vp_read_pos p" "vp_used (ring_put bs p) = vp_used p"
  "vp_readers (ring_put bs p) = vp_readers p" "vp_writers (ring_put bs p) = vp_writers p"
  "vp_reader_opens (ring_put bs p) = vp_reader_opens p" "vp_writer_opens (ring_put bs p) = vp_writer_opens p"
  "vp_event_gen (ring_put bs p) = vp_event_gen p" "(vp_buffer (ring_put bs p) = None) = (vp_buffer p = None)"
  by (induction bs arbitrary: p) simp_all

lemma ring_put_buffer:
  assumes "vp_buffer p \<noteq> None" "vp_write_pos p < PIPE_BUFFER_SIZE" "length bs \<le> PIPE_BUFFER_SIZE" "i < PIPE_BUFFER_SIZE"
  shows "buf_at (ring_put bs p) i =
      (let d = (i + PIPE_BUFFER_SIZE - vp_write_pos p) mod PIPE_BUFFER_SIZE in if d < length bs then bs ! d else buf_at p i)
    \<and> vp_write_pos (ring_put bs p) = (vp_write_pos p + length bs) mod PIPE_BUFFER_SIZE"
  using assms
proof (induction bs arbitrary: p)
  case (Cons b bs)
  let ?s = PIPE_BUFFER_SIZE
  let ?p = "p\<lparr>vp_buffer := map_option (\<lambda>f. f(vp_write_pos p := b)) (vp_buffer p), vp_write_pos := (vp_write_pos p + 1) mod ?s\<rparr>"
  have buf: "buf_at ?p = (buf_at p)(vp_write_pos p := b)" using Cons.prems(1) by (auto simp: buf_at_def)
  have ih: "buf_at (ring_put bs ?p) i = (let d = (i + ?s - (vp_write_pos p + 1) mod ?s) mod ?s in if d < length bs then bs ! d else buf_at ?p i)"
    "vp_write_pos (ring_put bs ?p) = ((vp_write_pos p + 1) mod ?s + length bs) mod ?s"
    using Cons.IH [of ?p] Cons.prems by simp_all
  have pos: "vp_write_pos (ring_put (b # bs) p) = (vp_write_pos p + length (b # bs)) mod ?s"
    using ih(2) by (simp add: mod_simps)
  show ?case
  proof (cases "i = vp_write_pos p")
    case True
    have "(i + ?s - (i + 1) mod ?s) mod ?s = ?s - 1"
      using Cons.prems(4) by (cases "i + 1 = ?s") simp_all
    moreover have "\<not> ?s - 1 < length bs" using Cons.prems(3) by auto
    ultimately show ?thesis using ih(1) [unfolded Let_def] buf pos True by simp
  next
    case False
    then show ?thesis
      using ih(1) buf pos ring_next [OF Cons.prems(4) Cons.prems(2) False] by (simp add: Let_def)
  qed
qed simp

lemma ring_put_bytes:
  assumes "pipe_ok p" "vp_size p + length bs \<le> PIPE_BUFFER_SIZE"
    "p' = (ring_put bs p)\<lparr>vp_event_gen := g, vp_size := vp_size p + length bs\<rparr>"
  shows "pipe_bytes p' = pipe_bytes p @ bs" "pipe_ok p'"
proof -
  let ?s = PIPE_BUFFER_SIZE and ?w = "vp_write_pos p" and ?r = "vp_read_pos p" and ?n = "vp_size p"
  have w: "?w = (?r + ?n) mod ?s" "vp_buffer p \<noteq> None" "?r < ?s" "?n \<le> ?s" "?w < ?s"
    using assms(1) by (auto simp: pipe_ok_def)
  have put: "buf_at (ring_put bs p) i = (let d = (i + ?s - ?w) mod ?s in if d < length bs then bs ! d else buf_at p i)"
    "vp_write_pos (ring_put bs p) = (?w + length bs) mod ?s" if "i < ?s" for i
    using ring_put_buffer [OF w(2,5) _ that, of bs] assms(2) by simp_all
  have buf: "buf_at p' = buf_at (ring_put bs p)" by (simp add: assms(3) buf_at_def)
  show "pipe_ok p'"
    using w put(2) [OF w(3)] assms by (simp add: pipe_ok_def mod_simps add.assoc)
  have "pipe_bytes p' ! k = (pipe_bytes p @ bs) ! k" if k: "k < ?n + length bs" for k
  proof -
    have ks: "k < ?s" using k assms(2) by simp
    have d: "((?r + k) mod ?s + ?s - ?w) mod ?s = (k + ?s - ?n) mod ?s"
      unfolding w(1) by (rule ring_distance [OF w(3,4) ks])
    have "pipe_bytes p' ! k = buf_at (ring_put bs p) ((?r + k) mod ?s)"
      using k by (simp add: pipe_bytes_def assms(3) buf [unfolded assms(3)])
    also have "\<dots> = (if (k + ?s - ?n) mod ?s < length bs then bs ! ((k + ?s - ?n) mod ?s) else buf_at p ((?r + k) mod ?s))"
      using put(1) [of "(?r + k) mod ?s"] d by (simp add: Let_def)
    also have "\<dots> = (pipe_bytes p @ bs) ! k"
    proof (cases "k < ?n")
      case True
      then have "(k + ?s - ?n) mod ?s = k + ?s - ?n" using w(4) by simp
      moreover have "\<not> k + ?s - ?n < length bs" using assms(2) by linarith
      ultimately show ?thesis using True by (simp add: nth_append pipe_bytes_def)
    next
      case False
      then have "(k + ?s - ?n) mod ?s = k - ?n" using k w(4) ks by (simp add: le_mod_geq)
      moreover have "k - ?n < length bs" using k False by linarith
      ultimately show ?thesis using False by (simp add: nth_append)
    qed
    finally show ?thesis .
  qed
  then show "pipe_bytes p' = pipe_bytes p @ bs"
    by (intro nth_equalityI) (simp_all add: assms(3))
qed

lemma pipe_put_bytes:
  assumes "pipe_ok p" "pipe_put bs p = (k, p')"
  shows "pipe_ok p'" "k = min (length bs) (PIPE_BUFFER_SIZE - vp_size p)" "pipe_bytes p' = pipe_bytes p @ take k bs"
proof -
  have k: "k = min (length bs) (PIPE_BUFFER_SIZE - vp_size p)"
    and p': "p' = (ring_put (take k bs) p)\<lparr>vp_event_gen := (if k \<noteq> 0 then vp_event_gen p + 1 else vp_event_gen p), vp_size := vp_size p + length (take k bs)\<rparr>"
    using assms(2) by (auto simp: pipe_put_def Let_def)
  have "vp_size p + length (take k bs) \<le> PIPE_BUFFER_SIZE" using assms(1) by (auto simp: k pipe_ok_def)
  then show "pipe_ok p'" "pipe_bytes p' = pipe_bytes p @ take k bs"
    using ring_put_bytes [OF assms(1) _ p'] by simp_all
  show "k = min (length bs) (PIPE_BUFFER_SIZE - vp_size p)" by (rule k)
qed

lemma pipe_get_bytes:
  assumes "pipe_ok p" "pipe_get n p = (bs, p')"
  shows "pipe_ok p'" "bs = take n (pipe_bytes p)" "pipe_bytes p' = drop n (pipe_bytes p)"
proof -
  let ?k = "min n (vp_size p)"
  have r: "bs = map (\<lambda>j. buf_at p ((vp_read_pos p + j) mod PIPE_BUFFER_SIZE)) [0..<?k]"
    "p' = p\<lparr>vp_read_pos := (vp_read_pos p + ?k) mod PIPE_BUFFER_SIZE, vp_size := vp_size p - ?k\<rparr>"
    using assms ring_get_eq [of p ?k] by (auto simp: pipe_get_def Let_def pipe_ok_def min_def split: if_splits)
  have "((vp_read_pos p + ?k) mod PIPE_BUFFER_SIZE + (vp_size p - ?k)) mod PIPE_BUFFER_SIZE
      = (vp_read_pos p + vp_size p) mod PIPE_BUFFER_SIZE"
    by (simp only: mod_add_left_eq) simp
  then show "pipe_ok p'" using assms(1) le_trans [OF diff_le_self] by (simp add: r(2) pipe_ok_def)
  show "bs = take n (pipe_bytes p)" by (rule nth_equalityI) (simp_all add: r(1) pipe_bytes_def)
  show "pipe_bytes p' = drop n (pipe_bytes p)"
    by (rule nth_equalityI) (auto simp: r(2) pipe_bytes_def buf_at_def mod_simps add.assoc min_def)
qed
section \<open>Streams of bytes\<close>

text \<open>
  The contract of a bounded byte stream: a write appends a prefix of the data, a
  read takes bytes from the front. A sequence of reads and writes then delivers
  the bytes in order, none lost and none invented.
\<close>

datatype stream_op = WriteOp "u8 list" | ReadOp nat

fun stream_run ::
    "(u8 list \<Rightarrow> 's \<Rightarrow> nat \<times> 's) \<Rightarrow> (nat \<Rightarrow> 's \<Rightarrow> u8 list \<times> 's) \<Rightarrow> stream_op list \<Rightarrow> 's \<Rightarrow> u8 list \<times> u8 list \<times> 's" where
  "stream_run put get [] s = ([], [], s)"
| "stream_run put get (WriteOp bs # ops) s =
     (case put bs s of (k, s1) \<Rightarrow> case stream_run put get ops s1 of (w, r, s2) \<Rightarrow> (take k bs @ w, r, s2))"
| "stream_run put get (ReadOp n # ops) s =
     (case get n s of (bs, s1) \<Rightarrow> case stream_run put get ops s1 of (w, r, s2) \<Rightarrow> (w, bs @ r, s2))"

locale byte_stream =
  fixes put :: "u8 list \<Rightarrow> 's \<Rightarrow> nat \<times> 's"
    and get :: "nat \<Rightarrow> 's \<Rightarrow> u8 list \<times> 's"
    and contents :: "'s \<Rightarrow> u8 list"
    and ok :: "'s \<Rightarrow> bool"
  assumes put_ok: "ok s \<Longrightarrow> put bs s = (k, s') \<Longrightarrow> ok s' \<and> contents s' = contents s @ take k bs"
    and get_ok: "ok s \<Longrightarrow> get n s = (bs, s') \<Longrightarrow> ok s' \<and> contents s = bs @ contents s'"
begin

lemma stream_conserved:
  assumes "ok s" "stream_run put get ops s = (written, read, s')"
  shows "ok s' \<and> contents s @ written = read @ contents s'"
  using assms
proof (induction ops arbitrary: s written read s')
  case (Cons x ops)
  show ?case
  proof (cases x)
    case (WriteOp bs)
    obtain k s1 where 1: "put bs s = (k, s1)" by force
    obtain w r s2 where 2: "stream_run put get ops s1 = (w, r, s2)" using prod_cases3 by blast
    show ?thesis using Cons.IH [OF _ 2] put_ok [OF Cons.prems(1) 1] Cons.prems(2) 1 2 WriteOp by auto
  next
    case (ReadOp n)
    obtain bs s1 where 1: "get n s = (bs, s1)" by force
    obtain w r s2 where 2: "stream_run put get ops s1 = (w, r, s2)" using prod_cases3 by blast
    show ?thesis using Cons.IH [OF _ 2] get_ok [OF Cons.prems(1) 1] Cons.prems(2) 1 2 ReadOp by auto
  qed
qed simp

end

text \<open>The calls on the two ends of a pipe, as one such stream.\<close>

definition stream_write :: "pipe_handle \<Rightarrow> u8 list \<Rightarrow> pipe_state \<Rightarrow> nat \<times> pipe_state" where
  "stream_write h bs st = (case pipe_write h bs [] st of (Done (Inr k), st') \<Rightarrow> (k, st') | (_, st') \<Rightarrow> (0, st'))"

definition stream_read :: "pipe_handle \<Rightarrow> nat \<Rightarrow> pipe_state \<Rightarrow> u8 list \<times> pipe_state" where
  "stream_read h n st = (case pipe_read h n [] st of (Done (Inr bs), st') \<Rightarrow> (bs, st') | (_, st') \<Rightarrow> ([], st'))"

definition end_bytes :: "pipe_handle \<Rightarrow> pipe_state \<Rightarrow> u8 list" where
  "end_bytes h st = (case ph_pipe h of None \<Rightarrow> [] | Some i \<Rightarrow> pipe_bytes (pipes st i))"

definition end_ok :: "pipe_handle \<Rightarrow> pipe_state \<Rightarrow> bool" where
  "end_ok h st = (case ph_pipe h of None \<Rightarrow> True | Some i \<Rightarrow> pipe_ok (pipes st i))"

lemma pipe_read_try_cases:
  assumes "pipe_ok (pipes st i)" "pipe_read_try i n st = (r, st')"
  obtains (empty) "st' = st" "pipe_bytes (pipes st i) = []" "r = (if vp_writers (pipes st i) = 0 then Some (Inr []) else None)"
  | (data) p' where "st' = set_pipe i p' st" "pipe_ok p'" "r = Some (Inr (take n (pipe_bytes (pipes st i))))"
      "pipe_bytes p' = drop n (pipe_bytes (pipes st i))"
proof (cases "vp_size (pipes st i) = 0")
  case True
  then show ?thesis using empty assms(2) by (auto simp: pipe_read_try_def Let_def pipe_bytes_def split: if_splits)
next
  case False
  obtain bs p' where "pipe_get n (pipes st i) = (bs, p')" by fastforce
  then show ?thesis using data pipe_get_bytes [OF assms(1)] False assms(2) by (auto simp: pipe_read_try_def)
qed

lemma pipe_write_try_cases:
  assumes "pipe_ok (pipes st i)" "pipe_write_try i bs st = (r, st')"
  obtains (none) "st' = st" "r = (if vp_readers (pipes st i) = 0 then Some (Inl EPIPE) else None)"
  | (data) k p' where "st' = set_pipe i p' st" "pipe_ok p'" "r = Some (Inr k)"
      "pipe_bytes p' = pipe_bytes (pipes st i) @ take k bs"
proof (cases "vp_readers (pipes st i) = 0 \<or> PIPE_BUFFER_SIZE - vp_size (pipes st i) = 0")
  case True
  then show ?thesis using none assms(2) by (auto simp: pipe_write_try_def Let_def split: if_splits)
next
  case False
  obtain k p' where "pipe_put bs (pipes st i) = (k, p')" by fastforce
  then show ?thesis using data pipe_put_bytes [OF assms(1)] False assms(2) by (auto simp: pipe_write_try_def)
qed

interpretation pipe_ends: byte_stream "stream_write wh" "stream_read rh" "end_bytes rh"
  "\<lambda>st. ph_pipe rh = ph_pipe wh \<and> end_ok rh st"
  for rh wh
proof
  fix st bs k st'
  assume ok: "ph_pipe rh = ph_pipe wh \<and> end_ok rh st" and w: "stream_write wh bs st = (k, st')"
  show "(ph_pipe rh = ph_pipe wh \<and> end_ok rh st') \<and> end_bytes rh st' = end_bytes rh st @ take k bs"
  proof (cases "ph_pipe wh")
    case None
    then show ?thesis using ok w by (simp add: stream_write_def pipe_write_def end_ok_def end_bytes_def)
  next
    case (Some i)
    obtain r st1 where t: "pipe_write_try i bs st = (r, st1)" by fastforce
    have p: "pipe_ok (pipes st i)" using ok Some by (auto simp: end_ok_def)
    show ?thesis
      using p t by (cases rule: pipe_write_try_cases)
        (use ok w Some t in \<open>auto simp: stream_write_def pipe_write_def end_ok_def end_bytes_def set_pipe_def split: if_splits option.splits\<close>)
  qed
next
  fix st n bs st'
  assume ok: "ph_pipe rh = ph_pipe wh \<and> end_ok rh st" and r: "stream_read rh n st = (bs, st')"
  show "(ph_pipe rh = ph_pipe wh \<and> end_ok rh st') \<and> end_bytes rh st = bs @ end_bytes rh st'"
  proof (cases "ph_pipe rh")
    case None
    then show ?thesis using ok r by (simp add: stream_read_def pipe_read_def end_ok_def end_bytes_def)
  next
    case (Some i)
    obtain q st1 where t: "pipe_read_try i n st = (q, st1)" by fastforce
    have p: "pipe_ok (pipes st i)" using ok Some by (auto simp: end_ok_def)
    show ?thesis
      using p t by (cases rule: pipe_read_try_cases)
        (use ok r Some t in \<open>auto simp: stream_read_def pipe_read_def end_ok_def end_bytes_def set_pipe_def split: if_splits option.splits\<close>)
  qed
qed
section \<open>Slots and the ends that are open on them\<close>

text \<open>
  An open end: the read or the write end of an anonymous pipe, or an opener of
  the FIFO of an inode, which reads, writes or both.
\<close>

datatype pipe_end = ReadEnd nat | WriteEnd nat | FifoEnd nat nat bool bool

primrec end_slot :: "pipe_end \<Rightarrow> nat" where
  "end_slot (ReadEnd i) = i"
| "end_slot (WriteEnd i) = i"
| "end_slot (FifoEnd n i rd wr) = i"

primrec end_reads :: "pipe_end \<Rightarrow> bool" where
  "end_reads (ReadEnd i) = True"
| "end_reads (WriteEnd i) = False"
| "end_reads (FifoEnd n i rd wr) = rd"

primrec end_writes :: "pipe_end \<Rightarrow> bool" where
  "end_writes (ReadEnd i) = False"
| "end_writes (WriteEnd i) = True"
| "end_writes (FifoEnd n i rd wr) = wr"

primrec end_inode :: "pipe_end \<Rightarrow> nat option" where
  "end_inode (ReadEnd i) = None"
| "end_inode (WriteEnd i) = None"
| "end_inode (FifoEnd n i rd wr) = Some n"

definition ends_at :: "pipe_end list \<Rightarrow> nat \<Rightarrow> pipe_end list" where
  "ends_at es i = filter (\<lambda>e. end_slot e = i) es"

definition slot_ok :: "pipe_end list \<Rightarrow> vfs_pipe_slot \<Rightarrow> bool" where
  "slot_ok l p \<longleftrightarrow> (vp_used p \<longleftrightarrow> l \<noteq> []) \<and>
     (vp_used p \<longrightarrow> pipe_ok p \<and> vp_readers p = int (length (filter end_reads l)) \<and> vp_writers p = int (length (filter end_writes l)))"

definition buffers :: "vfs_pipe_slot table \<Rightarrow> int" where
  "buffers t = (\<Sum>i<MAX_VFS_PIPES_CEIL. if vp_buffer (t i) = None then 0 else 1)"

definition ends_ok :: "(nat \<Rightarrow> nat option) \<Rightarrow> pipe_end list \<Rightarrow> bool" where
  "ends_ok f es \<longleftrightarrow>
     (\<forall>e\<in>set es. end_slot e < MAX_VFS_PIPES_CEIL \<and> (end_reads e \<or> end_writes e))
     \<and> (\<forall>e\<in>set es. \<forall>e'\<in>set es. end_slot e = end_slot e' \<longrightarrow> end_inode e = end_inode e')
     \<and> (\<forall>n i. f n = Some i \<longleftrightarrow> (\<exists>e\<in>set es. end_inode e = Some n \<and> end_slot e = i))"

definition slots_inv :: "pipe_state \<times> pipe_end list \<Rightarrow> bool" where
  "slots_inv se \<longleftrightarrow> (case se of (st, es) \<Rightarrow>
     (\<forall>i<MAX_VFS_PIPES_CEIL. slot_ok (ends_at es i) (pipes st i)) \<and> ends_ok (inode_fifo st) es
     \<and> pipe_buffers_held st = buffers (pipes st))"

lemma ends_at_simps [simp]:
  "ends_at [] i = []"
  "ends_at (e # es) i = (if end_slot e = i then e # ends_at es i else ends_at es i)"
  "e \<in> set (ends_at es i) \<longleftrightarrow> e \<in> set es \<and> end_slot e = i"
  by (auto simp: ends_at_def)

lemma ends_at_remove1: "ends_at (remove1 e es) i = (if end_slot e = i then remove1 e (ends_at es i) else ends_at es i)"
  unfolding ends_at_def filter_remove1 by (simp add: remove1_idem)

lemma length_filter_remove1:
  "e \<in> set l \<Longrightarrow> int (length (filter P (remove1 e l))) = int (length (filter P l)) - (if P e then 1 else 0)"
proof -
  assume e: "e \<in> set l"
  show ?thesis
  proof (cases "P e")
    case True
    then have "e \<in> set (filter P l)" using e by simp
    then have "0 < length (filter P l)" "length (remove1 e (filter P l)) = length (filter P l) - 1"
      using length_pos_if_in_set length_remove1 by (metis, metis)
    then have "int (length (remove1 e (filter P l))) = int (length (filter P l)) - 1" by linarith
    then show ?thesis using True by (simp add: filter_remove1)
  qed (simp add: filter_remove1 remove1_idem)
qed

lemma buffers_upd:
  "i < MAX_VFS_PIPES_CEIL \<Longrightarrow> buffers (t(i := p)) =
     buffers t - (if vp_buffer (t i) = None then 0 else 1) + (if vp_buffer p = None then 0 else 1)"
  unfolding buffers_def by (rule sum_table_upd_group [where f = "\<lambda>p. if vp_buffer p = None then 0 else 1"])

lemma slots_inv_set:
  assumes "slots_inv (st, es)" "i < MAX_VFS_PIPES_CEIL" "slot_ok (ends_at es' i) p'"
    "\<And>j. j \<noteq> i \<Longrightarrow> ends_at es' j = ends_at es j" "ends_ok f' es'"
    "st' = st\<lparr>pipes := (pipes st)(i := p'), pipe_buffers_held := h', inode_fifo := f'\<rparr>"
    "h' = pipe_buffers_held st - (if vp_buffer (pipes st i) = None then 0 else 1) + (if vp_buffer p' = None then 0 else 1)"
  shows "slots_inv (st', es')"
  using assms(1-5,7) by (auto simp: slots_inv_def assms(6) buffers_upd)

lemma slots_inv_upd:
  assumes "slots_inv (st, es)" "i < MAX_VFS_PIPES_CEIL" "slot_ok (ends_at es i) p'"
    "vp_buffer p' = None \<longleftrightarrow> vp_buffer (pipes st i) = None"
  shows "slots_inv (set_pipe i p' st, es)"
  by (rule slots_inv_set [OF assms(1-3)]) (use assms in \<open>auto simp: slots_inv_def set_pipe_def\<close>)

text \<open>Adding and removing ends.\<close>

lemma ends_okD:
  assumes "ends_ok f es"
  shows "e \<in> set es \<Longrightarrow> end_slot e < MAX_VFS_PIPES_CEIL" "e \<in> set es \<Longrightarrow> end_reads e \<or> end_writes e"
    "e \<in> set es \<Longrightarrow> e' \<in> set es \<Longrightarrow> end_slot e = end_slot e' \<Longrightarrow> end_inode e = end_inode e'"
    "f n = Some i \<longleftrightarrow> (\<exists>e\<in>set es. end_inode e = Some n \<and> end_slot e = i)"
  using assms unfolding ends_ok_def by blast+

lemma ends_ok_more:
  assumes "ends_ok f es" "set es' = insert e (set es)" "end_slot e < MAX_VFS_PIPES_CEIL" "end_reads e \<or> end_writes e"
    "\<And>e'. e' \<in> set es \<Longrightarrow> end_slot e' = end_slot e \<Longrightarrow> end_inode e' = end_inode e"
    "f' = (case end_inode e of None \<Rightarrow> f | Some n \<Rightarrow> f(n := Some (end_slot e)))"
    "\<And>n. end_inode e = Some n \<Longrightarrow> f n = None \<or> f n = Some (end_slot e)"
  shows "ends_ok f' es'"
proof -
  have f': "f' n = Some i \<longleftrightarrow> (\<exists>e'\<in>set es'. end_inode e' = Some n \<and> end_slot e' = i)" for n i
  proof (cases "end_inode e = Some n")
    case True
    then have fn: "f' n = Some (end_slot e)" and "f n = None \<or> f n = Some (end_slot e)" using assms(6,7) by auto
    then have "x \<in> set es \<Longrightarrow> end_inode x = Some n \<Longrightarrow> end_slot x = end_slot e" for x
      using ends_okD(4) [OF assms(1), of n "end_slot x"] by auto
    then show ?thesis using True assms(2) fn by auto
  next
    case False
    then have "f' n = f n" using assms(6) by (auto split: option.splits)
    then show ?thesis using False by (simp add: assms(2) ends_okD(4) [OF assms(1), of n i])
  qed
  have "\<forall>x\<in>set es'. \<forall>y\<in>set es'. end_slot x = end_slot y \<longrightarrow> end_inode x = end_inode y"
    using assms(5) ends_okD(3) [OF assms(1)] unfolding assms(2) by (metis insert_iff)
  moreover have "\<forall>x\<in>set es'. end_slot x < MAX_VFS_PIPES_CEIL \<and> (end_reads x \<or> end_writes x)"
    using assms(3,4) ends_okD(1,2) [OF assms(1)] unfolding assms(2) by (metis insert_iff)
  moreover have "\<forall>n i. f' n = Some i \<longleftrightarrow> (\<exists>e'\<in>set es'. end_inode e' = Some n \<and> end_slot e' = i)" using f' by simp
  ultimately show ?thesis unfolding ends_ok_def by (intro conjI)
qed

lemma ends_ok_less:
  assumes "ends_ok f es" "e \<in> set es"
    "f' = (case end_inode e of Some n \<Rightarrow> if ends_at (remove1 e es) (end_slot e) = [] then f(n := None) else f | None \<Rightarrow> f)"
  shows "ends_ok f' (remove1 e es)"
proof -
  have sub: "set (remove1 e es) \<subseteq> set es" by (rule set_remove1_subset)
  have keep: "x \<in> set es \<Longrightarrow> x \<noteq> e \<Longrightarrow> x \<in> set (remove1 e es)" for x by simp
  have "f' n = Some i \<longleftrightarrow> (\<exists>e'\<in>set (remove1 e es). end_inode e' = Some n \<and> end_slot e' = i)" for n i
  proof (cases "end_inode e = Some n")
    case False
    then have "f' n = f n" using assms(3) by (auto split: option.splits)
    moreover have "(\<exists>e'\<in>set (remove1 e es). end_inode e' = Some n \<and> end_slot e' = i) \<longleftrightarrow>
        (\<exists>e'\<in>set es. end_inode e' = Some n \<and> end_slot e' = i)" using sub keep False by blast
    ultimately show ?thesis using ends_okD(4) [OF assms(1), of n i] by simp
  next
    case True
    have fn: "f n = Some (end_slot e)" using ends_okD(4) [OF assms(1)] assms(2) True by blast
    have same: "x \<in> set es \<Longrightarrow> end_slot x = end_slot e \<Longrightarrow> end_inode x = Some n" for x
      using ends_okD(3) [OF assms(1) _ assms(2)] True by simp
    have slot: "x \<in> set es \<Longrightarrow> end_inode x = Some n \<Longrightarrow> end_slot x = end_slot e" for x
      using ends_okD(4) [OF assms(1), of n "end_slot x"] fn by auto
    show ?thesis
    proof (cases "ends_at (remove1 e es) (end_slot e) = []")
      case none: True
      then have "\<not> (\<exists>x\<in>set (remove1 e es). end_slot x = end_slot e)" by (auto simp: ends_at_def filter_empty_conv)
      then show ?thesis using none assms(3) True slot sub by auto
    next
      case some: False
      then obtain x where "x \<in> set (remove1 e es)" "end_slot x = end_slot e" by (auto simp: ends_at_def filter_empty_conv)
      then show ?thesis using some assms(3) True slot same sub fn by auto
    qed
  qed
  then show ?thesis using ends_okD(1-3) [OF assms(1)] subsetD [OF sub] unfolding ends_ok_def by simp
qed

lemma slots_inv_end:
  assumes "slots_inv (st, es)" "e \<in> set es"
  shows "end_slot e < MAX_VFS_PIPES_CEIL" "vp_used (pipes st (end_slot e))" "pipe_ok (pipes st (end_slot e))"
    "end_reads e \<Longrightarrow> 0 < vp_readers (pipes st (end_slot e))" "end_writes e \<Longrightarrow> 0 < vp_writers (pipes st (end_slot e))"
proof -
  show i: "end_slot e < MAX_VFS_PIPES_CEIL" using assms by (auto simp: slots_inv_def ends_ok_def)
  have l: "e \<in> set (ends_at es (end_slot e))" using assms(2) by simp
  have ok: "slot_ok (ends_at es (end_slot e)) (pipes st (end_slot e))" using assms(1) i by (simp add: slots_inv_def)
  have ne: "ends_at es (end_slot e) \<noteq> []" using l by (intro notI) (simp del: ends_at_simps(3))
  show "vp_used (pipes st (end_slot e))" "pipe_ok (pipes st (end_slot e))" using ok ne by (auto simp: slot_ok_def)
  show "end_reads e \<Longrightarrow> 0 < vp_readers (pipes st (end_slot e))" "end_writes e \<Longrightarrow> 0 < vp_writers (pipes st (end_slot e))"
    using ok ne l by (auto simp: slot_ok_def length_greater_0_conv [symmetric] filter_empty_conv simp del: length_greater_0_conv ends_at_simps)
qed
section \<open>Every call keeps the slots exact\<close>

lemma no_ends_iff:
  assumes "\<forall>x\<in>set l. end_reads x \<or> end_writes x"
  shows "int (length (filter end_reads l)) \<le> 0 \<and> int (length (filter end_writes l)) \<le> 0 \<longleftrightarrow> l = []"
  using assms by (cases l) auto

lemma slot_ok_less:
  assumes "slot_ok l p" "e \<in> set l" "\<forall>x\<in>set l. end_reads x \<or> end_writes x"
    "vp_readers p' = vp_readers p - (if end_reads e then 1 else 0)" "vp_writers p' = vp_writers p - (if end_writes e then 1 else 0)"
    "vp_used p' \<longleftrightarrow> \<not> (vp_readers p' \<le> 0 \<and> vp_writers p' \<le> 0)" "vp_used p' \<Longrightarrow> pipe_ok p'"
  shows "slot_ok (remove1 e l) p'" "vp_used p' \<longleftrightarrow> remove1 e l \<noteq> []"
proof -
  have "vp_used p" using assms(1,2) by (auto simp: slot_ok_def)
  then have c: "vp_readers p' = int (length (filter end_reads (remove1 e l)))" "vp_writers p' = int (length (filter end_writes (remove1 e l)))"
    using assms(1,4,5) length_filter_remove1 [OF assms(2)] by (simp_all add: slot_ok_def)
  have "\<forall>x\<in>set (remove1 e l). end_reads x \<or> end_writes x" using assms(3) set_remove1_subset [of e l] by blast
  then show u: "vp_used p' \<longleftrightarrow> remove1 e l \<noteq> []" using assms(6) no_ends_iff unfolding c by blast
  then show "slot_ok (remove1 e l) p'" using c assms(7) by (simp add: slot_ok_def)
qed

lemma slots_inv_ends:
  assumes "slots_inv (st, es)"
  shows "ends_ok (inode_fifo st) es" "i < MAX_VFS_PIPES_CEIL \<Longrightarrow> slot_ok (ends_at es i) (pipes st i)"
    "\<forall>x\<in>set (ends_at es i). end_reads x \<or> end_writes x"
proof -
  show ok: "ends_ok (inode_fifo st) es" and "i < MAX_VFS_PIPES_CEIL \<Longrightarrow> slot_ok (ends_at es i) (pipes st i)"
    using assms by (simp_all add: slots_inv_def)
  show "\<forall>x\<in>set (ends_at es i). end_reads x \<or> end_writes x" using ends_okD(2) [OF ok] by simp
qed

definition end_handle :: "pipe_end \<Rightarrow> pipe_handle \<Rightarrow> bool" where
  "end_handle e h \<longleftrightarrow> ph_pipe h = Some (end_slot e) \<and>
     (case e of ReadEnd i \<Rightarrow> ph_kind h = VFS_HANDLE_PIPE_READ | WriteEnd i \<Rightarrow> ph_kind h = VFS_HANDLE_PIPE_WRITE
      | FifoEnd n i rd wr \<Rightarrow> ph_node h = Some n \<and> rd = wants_read (ph_flags h) \<and> wr = wants_write (ph_flags h))"

lemma pipe_release_inv:
  assumes "slots_inv (st, es)" "e \<in> set es" "end_handle e h" "end_inode e = None"
  obtains st' where "pipe_release h st = Some st'" "slots_inv (st', remove1 e es)"
proof -
  define i where "i = end_slot e"
  let ?p = "pipes st i" and ?rd = "end_reads e"
  have h: "ph_pipe h = Some i" "(ph_kind h = VFS_HANDLE_PIPE_READ) = ?rd" "end_writes e = (\<not> ?rd)"
    using assms(3,4) by (cases e; simp add: end_handle_def i_def)+
  note e = slots_inv_end [OF assms(1,2), folded i_def]
  define p1 where "p1 = (if ?rd then ?p\<lparr>vp_readers := vp_readers ?p - 1\<rparr> else ?p\<lparr>vp_writers := vp_writers ?p - 1\<rparr>)"
  define fr where "fr \<longleftrightarrow> vp_readers p1 \<le> 0 \<and> vp_writers p1 \<le> 0"
  define big where "big \<longleftrightarrow> pipe_buffers_held st > PIPE_BUFFER_CACHE"
  define p3 where "p3 = (if fr then (if big then p1\<lparr>vp_buffer := None\<rparr> else p1)\<lparr>vp_used := False\<rparr> else p1)"
  have buf: "vp_buffer ?p \<noteq> None" using e(3) by (simp add: pipe_ok_def)
  define h' where "h' = pipe_buffers_held st - (if fr \<and> big then 1 else 0)"
  have run: "pipe_release h st = Some (st\<lparr>pipes := (pipes st)(i := p3), pipe_buffers_held := h', inode_fifo := inode_fifo st\<rparr>)"
  proof -
    have g: "\<not> (if ?rd then vp_readers ?p \<le> 0 else vp_writers ?p \<le> 0)" using e(4,5) h(3) by auto
    have b1: "vp_buffer p1 \<noteq> None" using buf by (simp add: p1_def)
    show ?thesis
      unfolding pipe_release_def h(1) option.case Let_def h(2) p1_def [symmetric] fr_def [symmetric] big_def [symmetric]
      using g b1 by (cases fr; cases big) (simp_all add: p3_def h'_def set_pipe_def)
  qed
  have ok: "pipe_ok p3" if "vp_used p3" using that e(3) by (auto simp: p3_def p1_def pipe_ok_def split: if_splits)
  have rest: "vp_readers p3 = vp_readers ?p - (if ?rd then 1 else 0)" "vp_writers p3 = vp_writers ?p - (if end_writes e then 1 else 0)"
    "vp_used p3 \<longleftrightarrow> \<not> (vp_readers p3 \<le> 0 \<and> vp_writers p3 \<le> 0)"
    using h(3) e(2) by (auto simp: p3_def p1_def fr_def)
  have l: "e \<in> set (ends_at es i)" using assms(2) by (simp add: i_def)
  note s = slot_ok_less [OF slots_inv_ends(2) [OF assms(1) e(1)] l slots_inv_ends(3) [OF assms(1)] rest ok]
  have "slots_inv (st\<lparr>pipes := (pipes st)(i := p3), pipe_buffers_held := h', inode_fifo := inode_fifo st\<rparr>, remove1 e es)"
  proof (rule slots_inv_set [OF assms(1) e(1)])
    show "slot_ok (ends_at (remove1 e es) i) p3" using s(1) by (simp add: ends_at_remove1 i_def)
    show "ends_ok (inode_fifo st) (remove1 e es)"
      by (rule ends_ok_less [OF slots_inv_ends(1) [OF assms(1)] assms(2)]) (simp add: assms(4))
    show "h' = pipe_buffers_held st - (if vp_buffer (pipes st i) = None then 0 else 1) + (if vp_buffer p3 = None then 0 else 1)"
      using buf by (auto simp: h'_def p3_def p1_def)
  qed (auto simp: ends_at_remove1 i_def)
  then show ?thesis using that run by blast
qed

lemma fifo_detach_inv:
  assumes "slots_inv (st, es)" "FifoEnd n i rd wr \<in> set es"
  obtains st' where "fifo_detach (Some n) i rd wr st = Some st'" "slots_inv (st', remove1 (FifoEnd n i rd wr) es)"
proof -
  let ?e = "FifoEnd n i rd wr" and ?p = "pipes st i"
  note e = slots_inv_end [OF assms, simplified]
  define p1 where "p1 = ?p\<lparr>vp_readers := vp_readers ?p - (if rd then 1 else 0), vp_writers := vp_writers ?p - (if wr then 1 else 0)\<rparr>"
  define fr where "fr \<longleftrightarrow> vp_readers p1 \<le> 0 \<and> vp_writers p1 \<le> 0"
  define p3 where "p3 = (if fr then p1\<lparr>vp_used := False\<rparr> else p1)"
  define f' where "f' = (if fr then (inode_fifo st)(n := None) else inode_fifo st)"
  have fn: "inode_fifo st n = Some i"
    using ends_okD(4) [OF slots_inv_ends(1) [OF assms(1)], of n i] assms(2) by force
  have run: "fifo_detach (Some n) i rd wr st = Some (st\<lparr>pipes := (pipes st)(i := p3), pipe_buffers_held := pipe_buffers_held st, inode_fifo := f'\<rparr>)"
    using e(4,5) fn
    by (auto simp: fifo_detach_def Let_def p1_def [symmetric] fr_def [symmetric] p3_def f'_def set_pipe_def)
  have rest: "vp_readers p3 = vp_readers ?p - (if end_reads ?e then 1 else 0)" "vp_writers p3 = vp_writers ?p - (if end_writes ?e then 1 else 0)"
    "vp_used p3 \<longleftrightarrow> \<not> (vp_readers p3 \<le> 0 \<and> vp_writers p3 \<le> 0)"
    using e(2) by (auto simp: p3_def p1_def fr_def)
  have ok: "pipe_ok p3" using e(3) by (auto simp: p3_def p1_def pipe_ok_def)
  have l: "?e \<in> set (ends_at es i)" using assms(2) by simp
  note s = slot_ok_less [OF slots_inv_ends(2) [OF assms(1) e(1)] l slots_inv_ends(3) [OF assms(1)] rest ok]
  have fr: "fr \<longleftrightarrow> ends_at (remove1 ?e es) i = []" using s(2) e(2) by (simp add: ends_at_remove1 p3_def p1_def split: if_splits)
  have "slots_inv (st\<lparr>pipes := (pipes st)(i := p3), pipe_buffers_held := pipe_buffers_held st, inode_fifo := f'\<rparr>, remove1 ?e es)"
  proof (rule slots_inv_set [OF assms(1) e(1)])
    show "slot_ok (ends_at (remove1 ?e es) i) p3" using s(1) by (simp add: ends_at_remove1)
    show "ends_ok f' (remove1 ?e es)"
      by (rule ends_ok_less [OF slots_inv_ends(1) [OF assms(1)] assms(2)]) (simp add: f'_def fr)
  qed (auto simp: ends_at_remove1 p3_def p1_def)
  then show ?thesis using that run by blast
qed
lemma pipe_pool_claim_cases:
  obtains (none) "pipe_pool_claim cap km st = (None, st)"
  | (slot) i p1 h1 where "pipe_pool_claim cap km st = (Some i, st\<lparr>pipes := (pipes st)(i := p1), pipe_buffers_held := h1\<rparr>)"
      "i < cap" "\<not> vp_used (pipes st i)" "vp_used p1" "vp_buffer p1 \<noteq> None"
      "h1 = pipe_buffers_held st - (if vp_buffer (pipes st i) = None then 0 else 1) + 1"
proof (cases "first_slot (\<lambda>i. \<not> vp_used (pipes st i)) cap")
  case None
  then show ?thesis using none by (simp add: pipe_pool_claim_def)
next
  case (Some i)
  note i = first_slot_SomeD(1,2) [OF Some]
  have "(pipes st i)\<lparr>vp_used := False\<rparr> = pipes st i" using i(2) by (cases "pipes st i") simp
  then have restored: "set_pipe i ((pipes st i)\<lparr>vp_used := True, vp_used := False\<rparr>) st = st" by (simp add: set_pipe_def)
  let ?p = "(pipes st i)\<lparr>vp_used := True\<rparr>"
  have run: "pipe_pool_claim cap km st = (if vp_buffer (pipes st i) \<noteq> None then (Some i, set_pipe i ?p st)
      else case km of None \<Rightarrow> (None, st)
        | Some b \<Rightarrow> (Some i, (set_pipe i (?p\<lparr>vp_buffer := Some b\<rparr>) st)\<lparr>pipe_buffers_held := pipe_buffers_held st + 1\<rparr>))"
    unfolding pipe_pool_claim_def Some option.case Let_def restored by simp
  show ?thesis
  proof (cases "vp_buffer (pipes st i)")
    case (Some b)
    then show ?thesis
      by (intro slot [of i "pipe_buffers_held st" ?p]) (simp_all add: run set_pipe_def i)
  next
    case None
    show ?thesis
    proof (cases km)
      case (Some b)
      then show ?thesis
        using None run
        by (intro slot [of i "pipe_buffers_held st + 1" "?p\<lparr>vp_buffer := Some b\<rparr>"]) (simp_all add: set_pipe_def i)
    next
      case km: None
      then show ?thesis using None none run by simp
    qed
  qed
qed

text \<open>A claimed slot, given restored or set up for the first ends.\<close>

lemma claimed_unused:
  assumes "slots_inv (st, es)" "i < MAX_VFS_PIPES_CEIL" "\<not> vp_used (pipes st i)"
  shows "ends_at es i = []"
  using slots_inv_ends(2) [OF assms(1,2)] assms(3) by (simp add: slot_ok_def)

lemma claimed_back:
  assumes "slots_inv (st, es)" "i < MAX_VFS_PIPES_CEIL" "\<not> vp_used (pipes st i)" "vp_buffer p1 \<noteq> None" "\<not> vp_used p1"
    "h1 = pipe_buffers_held st - (if vp_buffer (pipes st i) = None then 0 else 1) + 1"
  shows "slots_inv (st\<lparr>pipes := (pipes st)(i := p1), pipe_buffers_held := h1\<rparr>, es)"
  by (rule slots_inv_set [OF assms(1,2), where f' = "inode_fifo st" and p' = p1 and h' = h1])
     (use assms claimed_unused [OF assms(1-3)] slots_inv_ends(1) [OF assms(1)] in \<open>simp_all add: slot_ok_def\<close>)

lemma reset_ok:
  "vp_buffer p \<noteq> None \<Longrightarrow> pipe_ok ((pipe_slot_reset p)\<lparr>vp_used := u, vp_readers := r, vp_writers := w\<rparr>)"
  by (simp add: pipe_ok_def pipe_slot_reset_def)

lemma vfs_pipe_inv:
  assumes "slots_inv (st, es)" "cap \<le> MAX_VFS_PIPES_CEIL"
  shows "\<exists>r st'. vfs_pipe ok cap km rok wok fd0 fd1 st = Some (r, st') \<and>
    (case r of Inl e \<Rightarrow> slots_inv (st', es)
     | Inr (rh, wh) \<Rightarrow> \<exists>i. end_handle (ReadEnd i) rh \<and> end_handle (WriteEnd i) wh \<and> slots_inv (st', ReadEnd i # WriteEnd i # es))"
proof (cases rule: pipe_pool_claim_cases [of cap km st])
  case none
  then show ?thesis using assms(1) by (simp add: vfs_pipe_def)
next
  case (slot i p1 h1)
  let ?st1 = "st\<lparr>pipes := (pipes st)(i := p1), pipe_buffers_held := h1\<rparr>"
  have i: "i < MAX_VFS_PIPES_CEIL" using slot(2) assms(2) by simp
  have un: "ends_at es i = []" by (rule claimed_unused [OF assms(1) i slot(3)])
  define p2 where "p2 = (pipe_slot_reset p1)\<lparr>vp_used := True, vp_readers := 1, vp_writers := 1\<rparr>"
  have ends: "ends_ok (inode_fifo st) (ReadEnd i # WriteEnd i # es)"
  proof -
    have no: "e \<in> set es \<Longrightarrow> end_slot e \<noteq> i" for e using un by (auto simp: ends_at_def filter_empty_conv)
    have "ends_ok (inode_fifo st) (WriteEnd i # es)"
      by (rule ends_ok_more [OF slots_inv_ends(1) [OF assms(1)], where e = "WriteEnd i"]) (use no i in auto)
    moreover have "e \<in> set (WriteEnd i # es) \<Longrightarrow> end_slot e = i \<Longrightarrow> end_inode e = None" for e using no [of e] by (cases e) auto
    ultimately show ?thesis
      by (elim ends_ok_more [where e = "ReadEnd i"]) (use i in simp_all)
  qed
  have inv2: "slots_inv (?st1\<lparr>pipes := (pipes st)(i := p2)\<rparr>, ReadEnd i # WriteEnd i # es)"
    by (rule slots_inv_set [OF assms(1) i _ _ ends, of p2 _ h1])
       (use un slot reset_ok [OF slot(5), where u = True and r = 1 and w = 1] in \<open>auto simp: slot_ok_def p2_def pipe_slot_reset_def\<close>)
  define rh wh where hs: "rh = vfs_pipe_init_handle i False (raw_handle VFS_HANDLE_PIPE_READ)"
    "wh = vfs_pipe_init_handle i True (raw_handle VFS_HANDLE_PIPE_WRITE)"
  have h: "end_handle (ReadEnd i) rh" "end_handle (WriteEnd i) wh"
    by (simp_all add: hs end_handle_def vfs_pipe_init_handle_def raw_handle_def)
  obtain st3 where st3: "pipe_release rh (?st1\<lparr>pipes := (pipes st)(i := p2)\<rparr>) = Some st3" "slots_inv (st3, WriteEnd i # es)"
    using pipe_release_inv [OF inv2 _ h(1)] by auto
  obtain st4 where st4: "pipe_release wh st3 = Some st4" "slots_inv (st4, es)"
    using pipe_release_inv [OF st3(2) _ h(2)] by auto
  have restored: "slots_inv (unuse i ?st1, es)"
  proof -
    have "unuse i ?st1 = st\<lparr>pipes := (pipes st)(i := p1\<lparr>vp_used := False\<rparr>), pipe_buffers_held := h1\<rparr>"
      by (simp add: unuse_def set_pipe_def)
    then show ?thesis using claimed_back [OF assms(1) i slot(3) _ _ slot(6), of "p1\<lparr>vp_used := False\<rparr>"] slot(5) by simp
  qed
  have set2: "set_pipe i ((pipe_slot_reset (pipes ?st1 i))\<lparr>vp_used := True, vp_readers := 1, vp_writers := 1\<rparr>) ?st1
      = ?st1\<lparr>pipes := (pipes st)(i := p2)\<rparr>" by (simp add: set_pipe_def p2_def)
  show ?thesis
    unfolding vfs_pipe_def slot(1) using assms(1) restored inv2 h st3(1) st4
    by (simp only: prod.case option.case Let_def set2 hs [symmetric]) auto
qed
definition counted :: "u32 \<Rightarrow> vfs_pipe_slot \<Rightarrow> vfs_pipe_slot" where
  "counted flags p =
     (let p1 = (if wants_read flags
                then p\<lparr>vp_readers := vp_readers p + 1, vp_reader_opens := vp_reader_opens p + 1\<rparr> else p)
      in if wants_write flags
         then p1\<lparr>vp_writers := vp_writers p1 + 1, vp_writer_opens := vp_writer_opens p1 + 1\<rparr> else p1)"

lemma counted_fields [simp]:
  "vp_readers (counted flags p) = vp_readers p + (if wants_read flags then 1 else 0)"
  "vp_writers (counted flags p) = vp_writers p + (if wants_write flags then 1 else 0)"
  "vp_used (counted flags p) = vp_used p" "vp_buffer (counted flags p) = vp_buffer p" "pipe_ok (counted flags p) = pipe_ok p"
  by (simp_all add: counted_def Let_def pipe_ok_def)

lemma slot_ok_more:
  assumes "vp_used p" "pipe_ok p" "vp_readers p = int (length (filter end_reads l))" "vp_writers p = int (length (filter end_writes l))"
  shows "slot_ok (FifoEnd n i (wants_read flags) (wants_write flags) # l) (counted flags p)"
  using assms by (simp add: slot_ok_def)

lemma fifo_attach_fresh:
  assumes "slots_inv (st, es)" "cap \<le> MAX_VFS_PIPES_CEIL" "wants_read flags \<or> wants_write flags" "inode_fifo st n = None"
    "pipe_pool_claim cap km st = (Some i, st\<lparr>pipes := (pipes st)(i := p1), pipe_buffers_held := h1\<rparr>)"
    "i < cap" "\<not> vp_used (pipes st i)" "vp_buffer p1 \<noteq> None"
    "h1 = pipe_buffers_held st - (if vp_buffer (pipes st i) = None then 0 else 1) + 1"
    "fifo_attach n flags cap km st = (r, st')"
  shows "case r of Inl e \<Rightarrow> slots_inv (st', es)
    | Inr f \<Rightarrow> slots_inv (st', FifoEnd n f (wants_read flags) (wants_write flags) # es)"
proof -
  let ?e = "FifoEnd n i (wants_read flags) (wants_write flags)"
  have i: "i < MAX_VFS_PIPES_CEIL" using assms(2,6) by simp
  have un: "ends_at es i = []" by (rule claimed_unused [OF assms(1) i assms(7)])
  define q where "q = (pipe_slot_reset p1)\<lparr>vp_used := True\<rparr>"
  have q: "vp_used q" "pipe_ok q" "vp_readers q = 0" "vp_writers q = 0" "vp_buffer q \<noteq> None" "vp_buffer (q\<lparr>vp_used := False\<rparr>) \<noteq> None"
    using assms(8) by (simp_all add: q_def pipe_ok_def pipe_slot_reset_def)
  have run: "fifo_attach n flags cap km st =
     (if wants_write flags \<and> \<not> wants_read flags \<and> flags AND B1NIX_O_NONBLOCK \<noteq> 0
      then (Inl ENXIO, st\<lparr>pipes := (pipes st)(i := q\<lparr>vp_used := False\<rparr>), pipe_buffers_held := h1\<rparr>)
      else (Inr i, st\<lparr>pipes := (pipes st)(i := counted flags q), pipe_buffers_held := h1, inode_fifo := (inode_fifo st)(n := Some i)\<rparr>))"
  proof -
    have "(inode_fifo st)(n := None) = inode_fifo st" using assms(4) by auto
    then show ?thesis
      unfolding fifo_attach_def assms(5) using assms(4) q(3,4)
      by (simp add: q_def [symmetric] counted_def [symmetric] set_pipe_def unuse_def Let_def)
         (simp add: counted_def Let_def)
  qed
  have "slots_inv (st\<lparr>pipes := (pipes st)(i := q\<lparr>vp_used := False\<rparr>), pipe_buffers_held := h1\<rparr>, es)"
    by (rule claimed_back [OF assms(1) i assms(7) q(6) _ assms(9)]) simp
  moreover have "slots_inv (st\<lparr>pipes := (pipes st)(i := counted flags q), pipe_buffers_held := h1,
      inode_fifo := (inode_fifo st)(n := Some i)\<rparr>, ?e # es)"
  proof (rule slots_inv_set [OF assms(1) i])
    show "slot_ok (ends_at (?e # es) i) (counted flags q)"
      using slot_ok_more [OF q(1,2), of "[]"] q(3,4) un by simp
    have no: "e \<in> set es \<Longrightarrow> end_slot e \<noteq> i" for e using un by (auto simp: ends_at_def filter_empty_conv)
    show "ends_ok ((inode_fifo st)(n := Some i)) (?e # es)"
      by (rule ends_ok_more [OF slots_inv_ends(1) [OF assms(1)], where e = ?e]) (use no i assms(3,4) in auto)
  qed (use q(5) assms(9) in auto)
  ultimately show ?thesis using run assms(10) by (auto split: if_splits)
qed

lemma fifo_attach_found:
  assumes "slots_inv (st, es)" "cap \<le> MAX_VFS_PIPES_CEIL" "wants_read flags \<or> wants_write flags" "inode_fifo st n = Some f"
    "pipe_pool_claim cap km st = (Some i, st\<lparr>pipes := (pipes st)(i := p1), pipe_buffers_held := h1\<rparr>)"
    "i < cap" "\<not> vp_used (pipes st i)" "vp_buffer p1 \<noteq> None"
    "h1 = pipe_buffers_held st - (if vp_buffer (pipes st i) = None then 0 else 1) + 1"
    "fifo_attach n flags cap km st = (r, st')"
  shows "case r of Inl e \<Rightarrow> slots_inv (st', es)
    | Inr f \<Rightarrow> slots_inv (st', FifoEnd n f (wants_read flags) (wants_write flags) # es)"
proof -
  let ?e = "FifoEnd n f (wants_read flags) (wants_write flags)" and ?p = "pipes st f"
  have i: "i < MAX_VFS_PIPES_CEIL" using assms(2,6) by simp
  note eo = slots_inv_ends(1) [OF assms(1)]
  obtain e0 where e0: "e0 \<in> set es" "end_inode e0 = Some n" "end_slot e0 = f"
    using ends_okD(4) [OF eo, of n f] assms(4) by auto
  note f = slots_inv_end [OF assms(1) e0(1), unfolded e0(3)]
  have if': "i \<noteq> f" using f(2) assms(7) by auto
  have sl: "slot_ok (ends_at es f) ?p" by (rule slots_inv_ends(2) [OF assms(1) f(1)])
  define st1 where "st1 = st\<lparr>pipes := (pipes st)(i := p1\<lparr>vp_used := False\<rparr>), pipe_buffers_held := h1\<rparr>"
  have inv1: "slots_inv (st1, es)"
    unfolding st1_def by (rule claimed_back [OF assms(1) i assms(7) _ _ assms(9)]) (use assms(8) in simp_all)
  have st1: "pipes st1 f = ?p" "inode_fifo st1 = inode_fifo st" using if' by (simp_all add: st1_def)
  have busy: "\<not> (vp_readers ?p \<le> 0 \<and> vp_writers ?p \<le> 0)"
    using f(4,5) ends_okD(2) [OF eo e0(1)] by auto
  have run: "fifo_attach n flags cap km st =
     (if wants_write flags \<and> \<not> wants_read flags \<and> flags AND B1NIX_O_NONBLOCK \<noteq> 0 \<and> vp_readers ?p = 0
      then (Inl ENXIO, st1) else (Inr f, set_pipe f (counted flags ?p) st1))"
  proof -
    let ?c = "st\<lparr>pipes := (pipes st)(i := p1), pipe_buffers_held := h1\<rparr>"
    have c: "inode_fifo ?c n = Some f" "pipes ?c f = ?p" using assms(4) if' by simp_all
    have u: "unuse i ?c = st1" "unuse i (set_pipe f q ?c) = set_pipe f q st1" for q
      using if' by (simp_all add: unuse_def set_pipe_def st1_def fun_upd_twist)
    show ?thesis
      unfolding fifo_attach_def assms(5) prod.case option.case c Let_def u counted_def [unfolded Let_def, symmetric]
      using busy by (simp only: if_False if_True simp_thms u)
  qed
  have "slots_inv (set_pipe f (counted flags ?p) st1, ?e # es)"
  proof (rule slots_inv_set [OF inv1 f(1)])
    show "slot_ok (ends_at (?e # es) f) (counted flags ?p)"
      using slot_ok_more [OF f(2,3), of "ends_at es f" n f flags] sl f(2) by (simp add: slot_ok_def)
    show "ends_ok (inode_fifo st) (?e # es)"
    proof (rule ends_ok_more [OF eo, where e = ?e])
      show "end_inode e' = end_inode ?e" if "e' \<in> set es" "end_slot e' = end_slot ?e" for e'
        using ends_okD(3) [OF eo that(1) e0(1)] that(2) e0(2,3) by simp
      show "inode_fifo st = (case end_inode ?e of None \<Rightarrow> inode_fifo st | Some n \<Rightarrow> (inode_fifo st)(n := Some (end_slot ?e)))"
        using assms(4) by auto
    qed (use f(1) assms(3,4) in simp_all)
    show "set_pipe f (counted flags ?p) st1 =
        st1\<lparr>pipes := (pipes st1)(f := counted flags ?p), pipe_buffers_held := pipe_buffers_held st1, inode_fifo := inode_fifo st\<rparr>"
      by (simp add: set_pipe_def st1_def)
  qed (auto simp: st1)
  then show ?thesis using run inv1 assms(10) by (auto split: if_splits)
qed

lemma fifo_attach_inv:
  assumes "slots_inv (st, es)" "cap \<le> MAX_VFS_PIPES_CEIL" "wants_read flags \<or> wants_write flags"
    "fifo_attach n flags cap km st = (r, st')"
  shows "case r of Inl e \<Rightarrow> slots_inv (st', es)
    | Inr f \<Rightarrow> slots_inv (st', FifoEnd n f (wants_read flags) (wants_write flags) # es)"
proof (cases rule: pipe_pool_claim_cases [of cap km st])
  case none
  then show ?thesis using assms(1,4) by (auto simp: fifo_attach_def)
next
  case (slot i p1 h1)
  show ?thesis
  proof (cases "inode_fifo st n")
    case None
    show ?thesis by (rule fifo_attach_fresh [OF assms(1-3) None slot(1-3,5,6) assms(4)])
  next
    case (Some f)
    show ?thesis by (rule fifo_attach_found [OF assms(1-3) Some slot(1-3,5,6) assms(4)])
  qed
qed

text \<open>Transfers of data touch neither the counts nor the pool.\<close>

lemma pipe_put_fields:
  assumes "pipe_put bs p = (k, p')"
  shows "vp_used p' = vp_used p" "vp_readers p' = vp_readers p" "vp_writers p' = vp_writers p" "vp_buffer p' = None \<longleftrightarrow> vp_buffer p = None"
  using assms by (auto simp: pipe_put_def Let_def)

lemma pipe_get_fields:
  assumes "pipe_get n p = (bs, p')" "pipe_ok p"
  shows "vp_used p' = vp_used p" "vp_readers p' = vp_readers p" "vp_writers p' = vp_writers p" "vp_buffer p' = vp_buffer p"
  using assms ring_get_eq [of p] by (auto simp: pipe_get_def pipe_ok_def Let_def)

lemma data_inv:
  assumes "slots_inv (st, es)" "i < MAX_VFS_PIPES_CEIL" "vp_used (pipes st i)" "pipe_ok p'"
    "vp_used p' = vp_used (pipes st i)" "vp_readers p' = vp_readers (pipes st i)" "vp_writers p' = vp_writers (pipes st i)"
    "vp_buffer p' = None \<longleftrightarrow> vp_buffer (pipes st i) = None"
  shows "slots_inv (set_pipe i p' st, es)"
  by (rule slots_inv_upd [OF assms(1,2)]) (use slots_inv_ends(2) [OF assms(1,2)] assms(3-) in \<open>auto simp: slot_ok_def\<close>)
lemma tee_copy_eq:
  assumes "rp < PIPE_BUFFER_SIZE"
  shows "tee_copy n src rp dst = ring_put (map (\<lambda>j. src ((rp + j) mod PIPE_BUFFER_SIZE)) [0..<n]) dst"
  using assms
proof (induction n arbitrary: rp dst)
  case (Suc n)
  have m: "((rp + 1) mod PIPE_BUFFER_SIZE + j) mod PIPE_BUFFER_SIZE = (rp + Suc j) mod PIPE_BUFFER_SIZE" for j
    by (simp add: mod_simps)
  have "[0..<Suc n] = 0 # map Suc [0..<n]" by (simp add: upt_conv_Cons map_Suc_upt del: upt_Suc)
  then show ?case
    using Suc.IH [of "(rp + 1) mod PIPE_BUFFER_SIZE"] Suc.prems m by (simp del: upt_Suc add: comp_def)
qed simp

lemma tee_cases:
  assumes "pipe_ok (pipes st s)" "pipe_ok (pipes st d)" "vp_used (pipes st s)" "vp_used (pipes st d)" "s \<noteq> d"
    "ph_kind hi = VFS_HANDLE_PIPE_READ" "ph_kind ho = VFS_HANDLE_PIPE_WRITE" "ph_pipe hi = Some s" "ph_pipe ho = Some d"
    "vfs_pipe_tee (Some hi) (Some ho) len st = (r, st')"
  obtains (quiet) "st' = st" "r = (if len = 0 then Inr 0 else if vp_readers (pipes st d) = 0 then Inl EPIPE
        else if vp_size (pipes st s) = 0 \<and> vp_writers (pipes st s) = 0 then Inr 0 else Inl EAGAIN)"
      "len = 0 \<or> vp_readers (pipes st d) = 0 \<or> min len (min (vp_size (pipes st s)) (PIPE_BUFFER_SIZE - vp_size (pipes st d))) = 0"
  | (copied) k p' where "r = Inr k" "k = min len (min (vp_size (pipes st s)) (PIPE_BUFFER_SIZE - vp_size (pipes st d)))" "0 < k"
      "st' = set_pipe d p' st" "pipe_ok p'" "pipe_bytes p' = pipe_bytes (pipes st d) @ take k (pipe_bytes (pipes st s))"
      "vp_used p' = vp_used (pipes st d)" "vp_readers p' = vp_readers (pipes st d)" "vp_writers p' = vp_writers (pipes st d)"
      "vp_buffer p' = None \<longleftrightarrow> vp_buffer (pipes st d) = None"
proof -
  let ?s = "pipes st s" and ?d = "pipes st d"
  define k where "k = min len (min (vp_size ?s) (PIPE_BUFFER_SIZE - vp_size ?d))"
  have n: "(let n = if vp_size ?s < len then vp_size ?s else len in if PIPE_BUFFER_SIZE - vp_size ?d < n then PIPE_BUFFER_SIZE - vp_size ?d else n) = k"
    by (simp add: k_def min_def Let_def)
  define p' where "p' = (let q = tee_copy k (buf_at ?s) (vp_read_pos ?s) ?d in q\<lparr>vp_event_gen := vp_event_gen q + 1, vp_size := vp_size q + k\<rparr>)"
  have run: "(r, st') = (if len = 0 then (Inr 0, st) else if vp_readers ?d = 0 then (Inl EPIPE, st)
      else if k = 0 then (if vp_size ?s = 0 \<and> vp_writers ?s = 0 then Inr 0 else Inl EAGAIN, st) else (Inr k, set_pipe d p' st))"
  proof -
    have "vfs_pipe_tee (Some hi) (Some ho) len st = (if len = 0 then (Inr 0, st) else if vp_readers ?d = 0 then (Inl EPIPE, st)
      else let n = (let n = if vp_size ?s < len then vp_size ?s else len in if PIPE_BUFFER_SIZE - vp_size ?d < n then PIPE_BUFFER_SIZE - vp_size ?d else n) in
        if n = 0 then (if vp_size ?s = 0 \<and> vp_writers ?s = 0 then Inr 0 else Inl EAGAIN, st)
        else (Inr n, set_pipe d (let q = tee_copy n (buf_at ?s) (vp_read_pos ?s) ?d in q\<lparr>vp_event_gen := vp_event_gen q + 1, vp_size := vp_size q + n\<rparr>) st))"
      using assms(3-5) unfolding vfs_pipe_tee_def assms(6-9) prod.case option.case Let_def by (simp only: simp_thms if_True if_False)
    then show ?thesis unfolding n using assms(10) by (simp add: Let_def p'_def)
  qed
  show ?thesis
  proof (cases "len = 0 \<or> vp_readers ?d = 0 \<or> k = 0")
    case True
    then show ?thesis using run by (intro quiet) (auto simp: k_def [symmetric] split: if_splits)
  next
    case False
    let ?bs = "take k (pipe_bytes ?s)"
    have len: "length ?bs = k" "vp_size ?d + length ?bs \<le> PIPE_BUFFER_SIZE"
      using assms(2) by (auto simp: k_def pipe_ok_def)
    have bs: "map (\<lambda>j. buf_at ?s ((vp_read_pos ?s + j) mod PIPE_BUFFER_SIZE)) [0..<k] = ?bs"
      by (rule nth_equalityI) (auto simp: pipe_bytes_def k_def)
    have p': "p' = (ring_put ?bs ?d)\<lparr>vp_event_gen := vp_event_gen ?d + 1, vp_size := vp_size ?d + length ?bs\<rparr>"
      using tee_copy_eq [of "vp_read_pos ?s" k "buf_at ?s" ?d] assms(1) bs len(1) by (simp add: p'_def Let_def pipe_ok_def)
    have res: "r = Inr k" "st' = set_pipe d p' st" using run False by simp_all
    have fields: "vp_used p' = vp_used ?d" "vp_readers p' = vp_readers ?d" "vp_writers p' = vp_writers ?d"
      "vp_buffer p' = None \<longleftrightarrow> vp_buffer ?d = None" by (simp_all add: p')
    note bytes = ring_put_bytes [OF assms(2) len(2) p']
    show ?thesis using False by (intro copied [OF res(1) k_def _ res(2) bytes(2,1) fields]) simp
  qed
qed

inductive pipe_step :: "pipe_state \<times> pipe_end list \<Rightarrow> pipe_state \<times> pipe_end list \<Rightarrow> bool" where
  pipe_step_create: "cap \<le> MAX_VFS_PIPES_CEIL \<Longrightarrow> vfs_pipe ok cap km rok wok fd0 fd1 st = Some (Inr (rh, wh), st') \<Longrightarrow>
    ph_pipe rh = Some i \<Longrightarrow> pipe_step (st, es) (st', ReadEnd i # WriteEnd i # es)"
| pipe_step_refused: "cap \<le> MAX_VFS_PIPES_CEIL \<Longrightarrow> vfs_pipe ok cap km rok wok fd0 fd1 st = Some (Inl e, st') \<Longrightarrow>
    pipe_step (st, es) (st', es)"
| pipe_step_release: "e \<in> set es \<Longrightarrow> end_inode e = None \<Longrightarrow> end_handle e h \<Longrightarrow> pipe_release h st = Some st' \<Longrightarrow>
    pipe_step (st, es) (st', remove1 e es)"
| pipe_step_attach: "cap \<le> MAX_VFS_PIPES_CEIL \<Longrightarrow> wants_read flags \<or> wants_write flags \<Longrightarrow>
    fifo_attach n flags cap km st = (Inr f, st') \<Longrightarrow>
    pipe_step (st, es) (st', FifoEnd n f (wants_read flags) (wants_write flags) # es)"
| pipe_step_no_attach: "cap \<le> MAX_VFS_PIPES_CEIL \<Longrightarrow> wants_read flags \<or> wants_write flags \<Longrightarrow>
    fifo_attach n flags cap km st = (Inl e, st') \<Longrightarrow> pipe_step (st, es) (st', es)"
| pipe_step_detach: "FifoEnd n i rd wr \<in> set es \<Longrightarrow> fifo_detach (Some n) i rd wr st = Some st' \<Longrightarrow>
    pipe_step (st, es) (st', remove1 (FifoEnd n i rd wr) es)"
| pipe_step_read: "e \<in> set es \<Longrightarrow> pipe_step (st, es) (snd (pipe_read_try (end_slot e) n st), es)"
| pipe_step_write: "e \<in> set es \<Longrightarrow> pipe_step (st, es) (snd (pipe_write_try (end_slot e) bs st), es)"
| pipe_step_tee: "e \<in> set es \<Longrightarrow> e' \<in> set es \<Longrightarrow> ph_pipe hi = Some (end_slot e) \<Longrightarrow> ph_pipe ho = Some (end_slot e') \<Longrightarrow>
    pipe_step (st, es) (snd (vfs_pipe_tee (Some hi) (Some ho) n st), es)"

inductive_cases pipe_stepE: "pipe_step s s'"

definition pipe_boot :: pipe_state where
  "pipe_boot = \<lparr>pipes = (\<lambda>_. (pipe_slot_reset \<lparr>vp_used = False, vp_buffer = None, vp_size = 0, vp_read_pos = 0, vp_write_pos = 0,
      vp_readers = 0, vp_writers = 0, vp_reader_opens = 0, vp_writer_opens = 0, vp_event_gen = 0\<rparr>)),
     pipe_buffers_held = 0, inode_fifo = (\<lambda>_. None)\<rparr>"

definition pipe_reachable :: "pipe_state \<times> pipe_end list \<Rightarrow> bool" where
  "pipe_reachable s \<longleftrightarrow> pipe_step\<^sup>*\<^sup>* (pipe_boot, []) s"

lemma slots_inv_boot: "slots_inv (pipe_boot, [])"
  by (simp add: slots_inv_def pipe_boot_def slot_ok_def ends_ok_def buffers_def pipe_slot_reset_def)

lemma transfer_inv:
  assumes "slots_inv (st, es)" "e \<in> set es"
  shows "slots_inv (snd (pipe_read_try (end_slot e) n st), es)" "slots_inv (snd (pipe_write_try (end_slot e) bs st), es)"
proof -
  note i = slots_inv_end [OF assms]
  show "slots_inv (snd (pipe_read_try (end_slot e) n st), es)"
  proof (cases "vp_size (pipes st (end_slot e)) = 0")
    case False
    obtain bs p' where g: "pipe_get n (pipes st (end_slot e)) = (bs, p')" by fastforce
    show ?thesis
      using data_inv [OF assms(1) i(1,2) pipe_get_bytes(1) [OF i(3) g] pipe_get_fields(1-3) [OF g i(3)]] pipe_get_fields(4) [OF g i(3)] False g
      by (simp add: pipe_read_try_def Let_def)
  qed (use assms(1) in \<open>simp add: pipe_read_try_def Let_def\<close>)
  show "slots_inv (snd (pipe_write_try (end_slot e) bs st), es)"
  proof (cases "vp_readers (pipes st (end_slot e)) = 0 \<or> PIPE_BUFFER_SIZE - vp_size (pipes st (end_slot e)) = 0")
    case False
    obtain k p' where g: "pipe_put bs (pipes st (end_slot e)) = (k, p')" by fastforce
    show ?thesis
      using data_inv [OF assms(1) i(1,2) pipe_put_bytes(1) [OF i(3) g] pipe_put_fields [OF g]] False g
      by (simp add: pipe_write_try_def Let_def)
  qed (use assms(1) in \<open>auto simp: pipe_write_try_def Let_def\<close>)
qed

lemma tee_inv:
  assumes "slots_inv (st, es)" "e \<in> set es" "e' \<in> set es" "ph_pipe hi = Some (end_slot e)" "ph_pipe ho = Some (end_slot e')"
  shows "slots_inv (snd (vfs_pipe_tee (Some hi) (Some ho) n st), es)"
proof (cases "ph_kind hi = VFS_HANDLE_PIPE_READ \<and> ph_kind ho = VFS_HANDLE_PIPE_WRITE \<and> end_slot e \<noteq> end_slot e'")
  case True
  note i = slots_inv_end [OF assms(1,2)] and j = slots_inv_end [OF assms(1,3)]
  obtain r st' where run: "vfs_pipe_tee (Some hi) (Some ho) n st = (r, st')" by fastforce
  have "slots_inv (st', es)"
  proof (rule tee_cases [OF i(3) j(3) i(2) j(2) _ _ _ assms(4,5) run])
    fix k p' assume "st' = set_pipe (end_slot e') p' st" "pipe_ok p'" "vp_used p' = vp_used (pipes st (end_slot e'))"
      "vp_readers p' = vp_readers (pipes st (end_slot e'))" "vp_writers p' = vp_writers (pipes st (end_slot e'))"
      "vp_buffer p' = None \<longleftrightarrow> vp_buffer (pipes st (end_slot e')) = None"
    then show ?thesis using data_inv [OF assms(1) j(1,2)] by simp
  qed (use True assms(1) in simp_all)
  then show ?thesis by (simp add: run)
next
  case False
  then show ?thesis using assms by (auto simp: vfs_pipe_tee_def)
qed

lemma pipe_step_inv:
  assumes "pipe_step s s'" "slots_inv s"
  shows "slots_inv s'"
  using assms
proof (induction rule: pipe_step.induct)
  case (pipe_step_create cap ok km rok wok fd0 fd1 st rh wh st' i es)
  then show ?case
    using vfs_pipe_inv [OF pipe_step_create(4,1), of ok km rok wok fd0 fd1] by (auto simp: end_handle_def)
next
  case (pipe_step_refused cap ok km rok wok fd0 fd1 st e st' es)
  then show ?case
    using vfs_pipe_inv [OF pipe_step_refused(3,1), of ok km rok wok fd0 fd1] by auto
next
  case (pipe_step_release e es h st st')
  then show ?case using pipe_release_inv [OF pipe_step_release(5,1,3,2)] by (metis option.inject)
next
  case (pipe_step_attach cap flags n km st f st' es)
  then show ?case using fifo_attach_inv [OF pipe_step_attach(4,1,2,3)] by simp
next
  case (pipe_step_no_attach cap flags n km st e st' es)
  then show ?case using fifo_attach_inv [OF pipe_step_no_attach(4,1,2,3)] by simp
next
  case (pipe_step_detach n i rd wr es st st')
  then show ?case using fifo_detach_inv [OF pipe_step_detach(3,1)] by (metis option.inject)
qed (auto intro: transfer_inv tee_inv)

lemma pipe_reachable_inv: "pipe_reachable s \<Longrightarrow> slots_inv s"
  unfolding pipe_reachable_def by (induction rule: rtranclp_induct) (auto intro: slots_inv_boot pipe_step_inv)
section \<open>What pipes promise\<close>

text \<open>
  C25. A pipe delivers its bytes in order, none lost and none invented. Over any
  sequence of writes and reads on the two ends of a pipe, what the reads returned
  followed by what is still in the pipe is what was in the pipe followed by
  what the writes accepted, however the ring buffer wraps around.
\<close>

theorem pipe_stream_in_order:
  assumes "pipe_reachable (st, es)" "e \<in> set es" "ph_pipe rh = Some (end_slot e)" "ph_pipe wh = Some (end_slot e)"
    "stream_run (stream_write wh) (stream_read rh) ops st = (written, received, st')"
  shows "received @ pipe_bytes (pipes st' (end_slot e)) = pipe_bytes (pipes st (end_slot e)) @ written"
proof -
  have "pipe_ok (pipes st (end_slot e))" using slots_inv_end(3) [OF pipe_reachable_inv [OF assms(1)] assms(2)] .
  then show ?thesis
    using pipe_ends.stream_conserved [of rh wh st ops written received st'] assms(3-5) by (simp add: end_ok_def end_bytes_def)
qed

text \<open>
  C26. The pool is exact. In every reachable state a slot is in use exactly when
  an end is open on it, its reader and writer counts are the numbers of open
  ends, it has a buffer with at most 65536 bytes in it, an inode points to
  the slot of its FIFO exactly while the FIFO has openers, and the number of
  buffers held is counted. So closing an open end never fails an assertion.
\<close>

theorem pipe_slots_exact:
  assumes "pipe_reachable (st, es)"
  shows "(\<forall>i<MAX_VFS_PIPES_CEIL. (vp_used (pipes st i) \<longleftrightarrow> (\<exists>e\<in>set es. end_slot e = i)) \<and>
      (vp_used (pipes st i) \<longrightarrow> vp_buffer (pipes st i) \<noteq> None \<and> vp_size (pipes st i) \<le> PIPE_BUFFER_SIZE
        \<and> vp_readers (pipes st i) = int (length (filter (\<lambda>e. end_reads e \<and> end_slot e = i) es))
        \<and> vp_writers (pipes st i) = int (length (filter (\<lambda>e. end_writes e \<and> end_slot e = i) es))))
    \<and> (\<forall>n i. inode_fifo st n = Some i \<longleftrightarrow> (\<exists>e\<in>set es. end_inode e = Some n \<and> end_slot e = i))
    \<and> pipe_buffers_held st = buffers (pipes st)
    \<and> (\<forall>e\<in>set es. \<forall>h. end_handle e h \<longrightarrow> (if end_inode e = None then pipe_release h st else fifo_release h st) \<noteq> None)"
proof (intro conjI)
  have inv: "slots_inv (st, es)" by (rule pipe_reachable_inv [OF assms])
  show "pipe_buffers_held st = buffers (pipes st)" using inv by (simp add: slots_inv_def)
  show "\<forall>n i. inode_fifo st n = Some i \<longleftrightarrow> (\<exists>e\<in>set es. end_inode e = Some n \<and> end_slot e = i)"
    using ends_okD(4) [OF slots_inv_ends(1) [OF inv]] by blast
  have count: "length (filter (\<lambda>e. P e \<and> end_slot e = i) es) = length (filter P (ends_at es i))" for P i
    by (simp add: ends_at_def conj_commute)
  have ne: "ends_at es i \<noteq> [] \<longleftrightarrow> (\<exists>e\<in>set es. end_slot e = i)" for i by (auto simp: ends_at_def filter_empty_conv)
  show "\<forall>i<MAX_VFS_PIPES_CEIL. (vp_used (pipes st i) \<longleftrightarrow> (\<exists>e\<in>set es. end_slot e = i)) \<and>
      (vp_used (pipes st i) \<longrightarrow> vp_buffer (pipes st i) \<noteq> None \<and> vp_size (pipes st i) \<le> PIPE_BUFFER_SIZE
        \<and> vp_readers (pipes st i) = int (length (filter (\<lambda>e. end_reads e \<and> end_slot e = i) es))
        \<and> vp_writers (pipes st i) = int (length (filter (\<lambda>e. end_writes e \<and> end_slot e = i) es)))"
    unfolding count ne [symmetric] using slots_inv_ends(2) [OF inv] by (simp add: slot_ok_def pipe_ok_def)
  have "(if end_inode e = None then pipe_release h st else fifo_release h st) \<noteq> None"
    if e: "e \<in> set es" and h: "end_handle e h" for e h
  proof (cases e)
    case (FifoEnd n i rd wr)
    then show ?thesis
      using fifo_detach_inv [OF inv, of n i rd wr] e h by (auto simp: fifo_release_def end_handle_def)
  qed (use pipe_release_inv [OF inv e h] in auto)
  then show "\<forall>e\<in>set es. \<forall>h. end_handle e h \<longrightarrow> (if end_inode e = None then pipe_release h st else fifo_release h st) \<noteq> None"
    by blast
qed

text \<open>
  C27. tee copies without consuming. On two different pipes with open ends, tee
  appends to the target the first bytes of the source, as many as were asked
  for, are there and fit, and leaves the source untouched; if it copies
  nothing, both pipes are untouched, and the result tells end of file, a target
  without readers and a call to repeat apart.
\<close>

theorem vfs_pipe_tee_copies:
  assumes "pipe_reachable (st, es)" "e \<in> set es" "e' \<in> set es" "end_slot e \<noteq> end_slot e'"
    "ph_kind hi = VFS_HANDLE_PIPE_READ" "ph_kind ho = VFS_HANDLE_PIPE_WRITE"
    "ph_pipe hi = Some (end_slot e)" "ph_pipe ho = Some (end_slot e')"
    "vfs_pipe_tee (Some hi) (Some ho) len st = (r, st')"
  shows "let s = pipes st (end_slot e); d = pipes st (end_slot e');
      n = min len (min (vp_size s) (PIPE_BUFFER_SIZE - vp_size d))
    in pipes st' (end_slot e) = s \<and> pipe_bytes (pipes st' (end_slot e')) = pipe_bytes d @ (if r = Inr n then take n (pipe_bytes s) else [])
      \<and> (r = Inr n \<or> r = Inl EPIPE \<and> vp_readers d = 0 \<or> r = Inl EAGAIN \<and> n = 0)"
proof -
  have inv: "slots_inv (st, es)" by (rule pipe_reachable_inv [OF assms(1)])
  note i = slots_inv_end [OF inv assms(2)] and j = slots_inv_end [OF inv assms(3)]
  show ?thesis
  proof (rule tee_cases [OF i(3) j(3) i(2) j(2) assms(4-9)])
    fix k p'
    assume "r = Inr k" "k = min len (min (vp_size (pipes st (end_slot e))) (PIPE_BUFFER_SIZE - vp_size (pipes st (end_slot e'))))"
      "st' = set_pipe (end_slot e') p' st" "pipe_bytes p' = pipe_bytes (pipes st (end_slot e')) @ take k (pipe_bytes (pipes st (end_slot e)))"
    then show ?thesis using assms(4) by (simp add: Let_def set_pipe_def)
  next
    assume "st' = st" "r = (if len = 0 then Inr 0 else if vp_readers (pipes st (end_slot e')) = 0 then Inl EPIPE
        else if vp_size (pipes st (end_slot e)) = 0 \<and> vp_writers (pipes st (end_slot e)) = 0 then Inr 0 else Inl EAGAIN)"
      "len = 0 \<or> vp_readers (pipes st (end_slot e')) = 0 \<or> min len (min (vp_size (pipes st (end_slot e))) (PIPE_BUFFER_SIZE - vp_size (pipes st (end_slot e')))) = 0"
    then show ?thesis by (auto simp: Let_def split: if_splits)
  qed
qed

text \<open>
  C28. poll tells whether a call would block. For an end of an anonymous pipe,
  poll reports an event exactly when a non-blocking read (on the read end) or
  write (on the write end) does not return EAGAIN.
\<close>

theorem pipe_poll_agrees:
  assumes "pipe_reachable (st, es)" "e \<in> set es" "end_inode e = None" "end_handle e h" "ph_node h = None"
    "ph_flags h AND B1NIX_O_NONBLOCK \<noteq> 0"
  shows "pipe_poll h st \<noteq> 0 \<longleftrightarrow>
    (if end_reads e then fst (pipe_read h n [] st) \<noteq> Done (Inl EAGAIN) else fst (pipe_write h bs [] st) \<noteq> Done (Inl EAGAIN))"
proof -
  let ?p = "pipes st (end_slot e)"
  note i = slots_inv_end [OF pipe_reachable_inv [OF assms(1)] assms(2)]
  have size: "vp_size ?p \<le> PIPE_BUFFER_SIZE" using i(3) by (simp add: pipe_ok_def)
  have h: "ph_pipe h = Some (end_slot e)" using assms(4) by (simp add: end_handle_def)
  show ?thesis
  proof (cases "end_reads e")
    case True
    then have k: "ph_kind h = VFS_HANDLE_PIPE_READ" using assms(3,4) by (cases e) (auto simp: end_handle_def)
    have "pipe_poll h st \<noteq> 0 \<longleftrightarrow> vp_size ?p \<noteq> 0 \<or> vp_writers ?p = 0"
      using h i(2) k assms(5) by (simp add: pipe_poll_def Let_def B1NIX_POLLIN_def B1NIX_POLLHUP_def)
    moreover have "fst (pipe_read h n [] st) \<noteq> Done (Inl EAGAIN) \<longleftrightarrow> vp_size ?p \<noteq> 0 \<or> vp_writers ?p = 0"
      using h i(2) assms(6) by (simp add: pipe_read_def pipe_read_try_def Let_def split: prod.splits)
    ultimately show ?thesis using True by simp
  next
    case False
    then have k: "ph_kind h = VFS_HANDLE_PIPE_WRITE" using assms(3,4) by (cases e) (auto simp: end_handle_def)
    have "pipe_poll h st \<noteq> 0 \<longleftrightarrow> vp_size ?p \<noteq> PIPE_BUFFER_SIZE \<or> vp_readers ?p = 0"
      using h i(2) k size by (simp add: pipe_poll_def Let_def B1NIX_POLLOUT_def B1NIX_POLLERR_def)
    moreover have "fst (pipe_write h bs [] st) \<noteq> Done (Inl EAGAIN) \<longleftrightarrow> vp_size ?p \<noteq> PIPE_BUFFER_SIZE \<or> vp_readers ?p = 0"
      using h i(2) assms(6) size by (auto simp: pipe_write_def pipe_write_try_def Let_def split: prod.splits if_splits)
    ultimately show ?thesis using False by simp
  qed
qed

section \<open>An example\<close>

definition zero_pipe :: vfs_pipe_slot where
  "zero_pipe = \<lparr>vp_used = False, vp_buffer = None, vp_size = 0, vp_read_pos = 0, vp_write_pos = 0,
      vp_readers = 0, vp_writers = 0, vp_reader_opens = 0, vp_writer_opens = 0, vp_event_gen = 0\<rparr>"

definition fresh_pipe :: vfs_pipe_slot where
  "fresh_pipe = zero_pipe\<lparr>vp_used := True, vp_buffer := Some (\<lambda>_. 0), vp_readers := 1, vp_writers := 1\<rparr>"

definition example_pipe1 :: pipe_state where
  "example_pipe1 = pipe_boot\<lparr>pipes := (\<lambda>_. zero_pipe)(0 := fresh_pipe), pipe_buffers_held := 1\<rparr>"

definition example_pipe2 :: pipe_state where
  "example_pipe2 = pipe_boot\<lparr>pipes := (\<lambda>_. zero_pipe)(0 := fresh_pipe, 1 := fresh_pipe), pipe_buffers_held := 2\<rparr>"

definition example_rh :: "nat \<Rightarrow> pipe_handle" where
  "example_rh i = vfs_pipe_init_handle i False (raw_handle VFS_HANDLE_PIPE_READ)"

definition example_wh :: "nat \<Rightarrow> pipe_handle" where
  "example_wh i = vfs_pipe_init_handle i True (raw_handle VFS_HANDLE_PIPE_WRITE)"

lemma pipe_boot_pipes: "pipes pipe_boot = (\<lambda>_. zero_pipe)" "pipe_buffers_held pipe_boot = 0" "inode_fifo pipe_boot = (\<lambda>_. None)"
  by (simp_all add: pipe_boot_def zero_pipe_def pipe_slot_reset_def)

lemma example_create1:
  "vfs_pipe True 16 (Some (\<lambda>_. 0)) True True 3 4 pipe_boot = Some (Inr (example_rh 0, example_wh 0), example_pipe1)"
proof -
  have "first_slot (\<lambda>i. \<not> vp_used (pipes pipe_boot i)) 16 = Some 0"
    by (simp add: first_slot_Some_iff pipe_boot_pipes zero_pipe_def)
  then show ?thesis
    by (simp add: vfs_pipe_def pipe_pool_claim_def Let_def pipe_boot_pipes set_pipe_def example_pipe1_def example_rh_def example_wh_def
        pipe_slot_reset_def) (simp add: fresh_pipe_def zero_pipe_def)
qed

lemma example_create2:
  "vfs_pipe True 16 (Some (\<lambda>_. 0)) True True 5 6 example_pipe1 = Some (Inr (example_rh 1, example_wh 1), example_pipe2)"
proof -
  have "first_slot (\<lambda>i. \<not> vp_used (pipes example_pipe1 i)) 16 = Some 1"
    by (simp add: first_slot_Some_iff example_pipe1_def fresh_pipe_def zero_pipe_def)
  moreover have "vp_buffer (pipes example_pipe1 1) = None" by (simp add: example_pipe1_def zero_pipe_def)
  ultimately show ?thesis
    by (simp add: vfs_pipe_def pipe_pool_claim_def Let_def set_pipe_def example_rh_def example_wh_def pipe_slot_reset_def)
       (simp add: example_pipe1_def example_pipe2_def fresh_pipe_def zero_pipe_def)
qed

lemma example_handles:
  "ph_pipe (example_rh i) = Some i" "ph_pipe (example_wh i) = Some i" "ph_kind (example_rh i) = VFS_HANDLE_PIPE_READ"
  "ph_kind (example_wh i) = VFS_HANDLE_PIPE_WRITE" "ph_node (example_rh i) = None" "end_handle (ReadEnd i) (example_rh i)"
  by (simp_all add: example_rh_def example_wh_def vfs_pipe_init_handle_def raw_handle_def end_handle_def)

definition example_ends :: "pipe_end list" where
  "example_ends = [ReadEnd 1, WriteEnd 1, ReadEnd 0, WriteEnd 0]"

lemma example_pipes_reachable: "pipe_reachable (example_pipe2, example_ends)"
proof -
  have "pipe_step (pipe_boot, []) (example_pipe1, [ReadEnd 0, WriteEnd 0])"
    by (rule pipe_step_create [OF _ example_create1]) (simp_all add: MAX_VFS_PIPES_CEIL_def example_handles)
  moreover have "pipe_step (example_pipe1, [ReadEnd 0, WriteEnd 0]) (example_pipe2, example_ends)"
    unfolding example_ends_def
    by (rule pipe_step_create [OF _ example_create2]) (simp_all add: MAX_VFS_PIPES_CEIL_def example_handles)
  ultimately show ?thesis unfolding pipe_reachable_def by (meson r_into_rtranclp rtranclp.rtrancl_into_rtrancl)
qed

theorem pipe_stream_in_order_witness:
  "case stream_run (stream_write (example_wh 0)) (stream_read (example_rh 0)) [WriteOp [7, 8, 9], ReadOp 2] example_pipe2 of
     (written, received, st) \<Rightarrow> received @ pipe_bytes (pipes st 0) = written"
proof -
  obtain w r st where run: "stream_run (stream_write (example_wh 0)) (stream_read (example_rh 0)) [WriteOp [7, 8, 9], ReadOp 2] example_pipe2
      = (w, r, st)" using prod_cases3 by blast
  have "pipe_bytes (pipes example_pipe2 0) = []" by (simp add: pipe_bytes_def example_pipe2_def fresh_pipe_def zero_pipe_def)
  then show ?thesis
    unfolding run
    using pipe_stream_in_order [OF example_pipes_reachable, of "ReadEnd 0" "example_rh 0" "example_wh 0", OF _ _ _ run]
    by (simp add: example_ends_def example_handles)
qed

theorem pipe_slots_exact_witness:
  "vp_readers (pipes example_pipe2 1) = 1 \<and> pipe_release (example_rh 1) example_pipe2 \<noteq> None"
proof -
  note x = pipe_slots_exact [OF example_pipes_reachable]
  have "vp_used (pipes example_pipe2 1)" by (simp add: example_pipe2_def fresh_pipe_def)
  then have "vp_readers (pipes example_pipe2 1) = int (length (filter (\<lambda>e. end_reads e \<and> end_slot e = 1) example_ends))"
    using x [THEN conjunct1, rule_format, of 1] by (simp add: MAX_VFS_PIPES_CEIL_def)
  moreover have "pipe_release (example_rh 1) example_pipe2 \<noteq> None"
    using x [THEN conjunct2, THEN conjunct2, THEN conjunct2, rule_format, of "ReadEnd 1" "example_rh 1"]
    by (simp add: example_ends_def example_handles)
  ultimately show ?thesis by (simp add: example_ends_def)
qed

theorem vfs_pipe_tee_copies_witness:
  "pipes (snd (vfs_pipe_tee (Some (example_rh 0)) (Some (example_wh 1)) 10 example_pipe2)) 0 = fresh_pipe"
proof -
  have r: "vfs_pipe_tee (Some (example_rh 0)) (Some (example_wh 1)) 10 example_pipe2 =
      (fst (vfs_pipe_tee (Some (example_rh 0)) (Some (example_wh 1)) 10 example_pipe2),
       snd (vfs_pipe_tee (Some (example_rh 0)) (Some (example_wh 1)) 10 example_pipe2))" by simp
  show ?thesis
    using vfs_pipe_tee_copies [OF example_pipes_reachable, of "ReadEnd 0" "WriteEnd 1", OF _ _ _ _ _ _ _ r]
    by (simp add: example_ends_def example_handles Let_def) (simp add: example_pipe2_def)
qed

theorem pipe_poll_agrees_witness:
  "pipe_poll ((example_rh 0)\<lparr>ph_flags := B1NIX_O_NONBLOCK\<rparr>) example_pipe2 = 0
   \<and> fst (pipe_read ((example_rh 0)\<lparr>ph_flags := B1NIX_O_NONBLOCK\<rparr>) 5 [] example_pipe2) = Done (Inl EAGAIN)"
proof -
  let ?h = "(example_rh 0)\<lparr>ph_flags := B1NIX_O_NONBLOCK\<rparr>"
  have "pipe_poll ?h example_pipe2 = 0"
    by (simp add: pipe_poll_def Let_def example_handles) (simp add: example_pipe2_def fresh_pipe_def zero_pipe_def)
  then show ?thesis
    using pipe_poll_agrees [OF example_pipes_reachable, of "ReadEnd 0" ?h 5 "[]"]
    by (simp add: example_ends_def example_handles) (simp add: end_handle_def example_handles B1NIX_O_NONBLOCK_def)
qed

text \<open>
  A FIFO opened for reading and writing is a read end for \<open>pipe_poll\<close>: it
  never reports that it can be written.
\<close>

lemma fifo_rdwr_no_pollout:
  assumes "fifo_finish n f flags True fd st = Some (Inr (fd', h), st')" "flags AND 3 = B1NIX_O_RDWR"
  shows "pipe_poll h st'' AND B1NIX_POLLOUT = 0"
proof -
  have "ph_kind h = VFS_HANDLE_PIPE_READ" "ph_pipe h = Some f"
    using assms by (auto simp: fifo_finish_def Let_def wants_read_def split: if_splits option.splits)
  then show ?thesis
    by (simp add: pipe_poll_def Let_def B1NIX_POLLIN_def B1NIX_POLLOUT_def B1NIX_POLLHUP_def)
qed

end
