(* ===== verification/RefChain.thy ===== *)
theory RefChain
  imports Prelude
begin

text \<open>
  Reference-counted objects linked into chains, the way the kernel keeps the
  filters of seccomp and the domains of Landlock: a slot per task points to the
  newest object, every object points to the one below it and counts the
  pointers to itself. The locale \<open>ref_chain\<close> is the contract of such objects --
  where the link and the count are and that changing the count changes nothing
  else -- and gives the invariant of the counts, what the four pointer
  operations (take a reference, swap a slot, put an object on top, drop a
  reference) do to it, and the lists of objects the chains stand for.
\<close>

section \<open>References\<close>

definition slot_refs :: "nat option table \<Rightarrow> nat \<Rightarrow> nat" where
  "slot_refs T a = card {t. T t = Some a}"

definition link_refs :: "('f \<Rightarrow> nat option) \<Rightarrow> (nat \<rightharpoonup> 'f) \<Rightarrow> nat \<Rightarrow> nat" where
  "link_refs prev h a = card {b. \<exists>f. h b = Some f \<and> prev f = Some a}"

definition links_closed :: "('f \<Rightarrow> nat option) \<Rightarrow> (nat \<rightharpoonup> 'f) \<Rightarrow> bool" where
  "links_closed prev h \<longleftrightarrow> (\<forall>a f b. h a = Some f \<longrightarrow> prev f = Some b \<longrightarrow> h b \<noteq> None)"

definition acyclic_links :: "('f \<Rightarrow> nat option) \<Rightarrow> (nat \<rightharpoonup> 'f) \<Rightarrow> bool" where
  "acyclic_links prev h \<longleftrightarrow> (\<exists>rank :: nat \<Rightarrow> nat. \<forall>a f b. h a = Some f \<longrightarrow> prev f = Some b \<longrightarrow> rank b < rank a)"

lemma links_closedD: "links_closed prev h \<Longrightarrow> h a = Some f \<Longrightarrow> prev f = Some b \<Longrightarrow> h b \<noteq> None"
  by (metis links_closed_def)

lemma finite_slots: "finite (dom T) \<Longrightarrow> finite {t. T t = Some a}"
  by (rule finite_subset [of _ "dom T"]) auto

lemma finite_links: "finite (dom h) \<Longrightarrow> finite {b. \<exists>f. h b = Some f \<and> prev f = Some a}"
  by (rule finite_subset [of _ "dom h"]) auto

lemma slot_refs_upd:
  assumes "finite (dom T)"
  shows "slot_refs (T(t := p)) a + (if T t = Some a then 1 else 0) = slot_refs T a + (if p = Some a then 1 else 0)"
proof -
  define S where "S = {u. T u = Some a} - {t}"
  have S: "finite S" "t \<notin> S" using finite_slots [OF assms] by (auto simp: S_def)
  have "{u. T u = Some a} = (if T t = Some a then insert t S else S)"
    and "{u. (T(t := p)) u = Some a} = (if p = Some a then insert t S else S)" by (auto simp: S_def)
  then have "slot_refs T a = card (if T t = Some a then insert t S else S)"
    "slot_refs (T(t := p)) a = card (if p = Some a then insert t S else S)" by (simp_all only: slot_refs_def)
  then show ?thesis using S by simp
qed

lemma link_refs_upd:
  assumes "finite (dom h)" "h b = None"
  shows "link_refs prev (h(b \<mapsto> f)) a = link_refs prev h a + (if prev f = Some a then 1 else 0)"
proof -
  have "{c. \<exists>g. (h(b \<mapsto> f)) c = Some g \<and> prev g = Some a}
      = (if prev f = Some a then insert b {c. \<exists>g. h c = Some g \<and> prev g = Some a}
         else {c. \<exists>g. h c = Some g \<and> prev g = Some a})"
    using assms(2) by auto
  then show ?thesis using assms(2) finite_links [OF assms(1), of prev a] by (auto simp: link_refs_def)
qed

lemma link_refs_free:
  assumes "finite (dom h)" "h b = Some f"
  shows "link_refs prev h a = link_refs prev (h(b := None)) a + (if prev f = Some a then 1 else 0)"
  using link_refs_upd [of "h(b := None)" b prev f a] assms by (simp add: fun_upd_idem)

lemma acyclic_links_mono:
  assumes "acyclic_links prev h" "\<And>a f. h' a = Some f \<Longrightarrow> \<exists>g. h a = Some g \<and> prev g = prev f"
  shows "acyclic_links prev h'"
  using assms unfolding acyclic_links_def by metis

lemma acyclic_links_push:
  assumes "acyclic_links prev h" "h a = None" "links_closed prev h" "\<And>b. prev f = Some b \<Longrightarrow> h b \<noteq> None"
  shows "acyclic_links prev (h(a \<mapsto> f))"
proof -
  obtain rank :: "nat \<Rightarrow> nat" where rank: "\<And>a f b. h a = Some f \<Longrightarrow> prev f = Some b \<Longrightarrow> rank b < rank a"
    using assms(1) by (auto simp: acyclic_links_def)
  define r where "r = rank(a := (case prev f of None \<Rightarrow> 0 | Some b \<Rightarrow> Suc (rank b)))"
  have "r b < r c" if "(h(a \<mapsto> f)) c = Some g" "prev g = Some b" for b c g
  proof (cases "c = a")
    case True
    then show ?thesis using that assms(2,4) by (auto simp: r_def)
  next
    case False
    then have c: "h c = Some g" using that(1) by simp
    then have "b \<noteq> a" using links_closedD [OF assms(3) c that(2)] assms(2) by auto
    then show ?thesis using rank [OF c that(2)] False by (simp add: r_def)
  qed
  then show ?thesis unfolding acyclic_links_def by blast
qed

section \<open>The contract\<close>

text \<open>
  \<open>view\<close> is what the chain is for: everything of an object but its link and count.
\<close>

locale ref_chain =
  fixes prev :: "'f \<Rightarrow> nat option"
    and cnt :: "'f \<Rightarrow> int"
    and set_cnt :: "int \<Rightarrow> 'f \<Rightarrow> 'f"
    and view :: "'f \<Rightarrow> 'v"
    and ok :: "'v \<Rightarrow> bool"
  assumes prev_set [simp]: "prev (set_cnt n f) = prev f"
    and cnt_set [simp]: "cnt (set_cnt n f) = n"
    and view_set [simp]: "view (set_cnt n f) = view f"
    and set_set [simp]: "set_cnt m (set_cnt n f) = set_cnt m f"
    and set_cnt_id [simp]: "set_cnt (cnt f) f = f"
begin

text \<open>
  \<open>refs T h x a\<close> counts the references to the object at \<open>a\<close>: the slots of \<open>T\<close>,
  the links of the heap, and one pointer \<open>x\<close> in the hands of the running code.
  \<open>heap_inv T h x\<close> says that the counts are exact and positive, that no pointer
  dangles and that the links have no cycle.
\<close>

definition refs :: "nat option table \<Rightarrow> (nat \<rightharpoonup> 'f) \<Rightarrow> nat option \<Rightarrow> nat \<Rightarrow> int" where
  "refs T h x a = int (slot_refs T a) + int (link_refs prev h a) + (if x = Some a then 1 else 0)"

definition heap_inv :: "nat option table \<Rightarrow> (nat \<rightharpoonup> 'f) \<Rightarrow> nat option \<Rightarrow> bool" where
  "heap_inv T h x \<longleftrightarrow>
     finite (dom T) \<and> finite (dom h) \<and> acyclic_links prev h \<and> links_closed prev h
     \<and> (\<forall>t a. T t = Some a \<longrightarrow> h a \<noteq> None) \<and> (\<forall>a. x = Some a \<longrightarrow> h a \<noteq> None)
     \<and> (\<forall>a f. h a = Some f \<longrightarrow> ok (view f) \<and> cnt f = refs T h x a \<and> 0 < cnt f)"

lemma heap_invI:
  assumes "finite (dom T)" "finite (dom h)" "acyclic_links prev h" "links_closed prev h"
    and "\<And>t a. T t = Some a \<Longrightarrow> h a \<noteq> None" "\<And>a. x = Some a \<Longrightarrow> h a \<noteq> None"
    and "\<And>a f. h a = Some f \<Longrightarrow> ok (view f) \<and> cnt f = refs T h x a \<and> 0 < cnt f"
  shows "heap_inv T h x"
  unfolding heap_inv_def using assms by blast

lemma heap_invD:
  assumes "heap_inv T h x"
  shows "finite (dom T)" "finite (dom h)" "acyclic_links prev h" "links_closed prev h"
    and "T t = Some a \<Longrightarrow> h a \<noteq> None" "x = Some a \<Longrightarrow> h a \<noteq> None"
    and "h a = Some f \<Longrightarrow> ok (view f)" "h a = Some f \<Longrightarrow> cnt f = refs T h x a"
    and "h a = Some f \<Longrightarrow> 0 < cnt f"
  using assms unfolding heap_inv_def by metis+

lemma heap_inv_empty: "heap_inv (\<lambda>_. None) Map.empty None"
  by (simp add: heap_inv_def acyclic_links_def links_closed_def)

lemma link_refs_count: "h b = Some f \<Longrightarrow> link_refs prev (h(b \<mapsto> set_cnt n f)) a = link_refs prev h a"
proof -
  assume "h b = Some f"
  then have "(\<exists>g. (h(b \<mapsto> set_cnt n f)) c = Some g \<and> prev g = Some a) \<longleftrightarrow> (\<exists>g. h c = Some g \<and> prev g = Some a)" for c
    by (cases "c = b") simp_all
  then show ?thesis by (simp only: link_refs_def)
qed

text \<open>Changing a count by what the references to its object change.\<close>

lemma heap_inv_count:
  assumes inv: "heap_inv T h x" and a: "h a = Some f" and n: "0 < n"
    and refs: "\<And>b. refs T h x' b = refs T h x b + (if b = a then n - cnt f else 0)"
    and x': "\<And>b. x' = Some b \<Longrightarrow> h b \<noteq> None"
  shows "heap_inv T (h(a \<mapsto> set_cnt n f)) x'"
proof -
  note i = heap_invD [OF inv]
  let ?h = "h(a \<mapsto> set_cnt n f)"
  have eq: "refs T ?h x' b = refs T h x' b" for b
    by (simp add: refs_def link_refs_count [of h a f, OF a])
  have prev: "\<exists>g. h b = Some g \<and> prev g = prev f'" if "?h b = Some f'" for b f'
    using that a by (cases "b = a") auto
  show ?thesis
  proof (rule heap_invI)
    show "acyclic_links prev ?h" using acyclic_links_mono [OF i(3)] prev by blast
    show "links_closed prev ?h"
      unfolding links_closed_def using prev links_closedD [OF i(4)] by (metis fun_upd_apply option.distinct(1))
    show "ok (view f') \<and> cnt f' = refs T ?h x' b \<and> 0 < cnt f'" if "?h b = Some f'" for b f'
    proof (cases "b = a")
      case True
      then have "f' = set_cnt n f" using that by simp
      with True i(7,8) [OF a] n refs [of a] show ?thesis by (simp add: eq)
    next
      case False
      with that i(7-9) [of b f'] refs [of b] show ?thesis by (simp add: eq)
    qed
    show "?h b \<noteq> None" if "T t = Some b" for t b using i(5) [OF that] by simp
    show "?h b \<noteq> None" if "x' = Some b" for b using x' [OF that] by simp
  qed (use i in simp_all)
qed

text \<open>Taking a reference to an object.\<close>

lemma heap_inv_hold:
  assumes "heap_inv T h None" "h a = Some f"
  shows "heap_inv T (h(a \<mapsto> set_cnt (cnt f + 1) f)) (Some a)"
  by (rule heap_inv_count [OF assms]) (use assms(2) heap_invD(9) [OF assms] in \<open>auto simp: refs_def\<close>)

text \<open>Storing the pointer in a slot and taking over the one that was there.\<close>

lemma heap_inv_swap:
  assumes "heap_inv T h x"
  shows "heap_inv (T(t := x)) h (T t)"
proof (rule heap_invI)
  note i = heap_invD [OF assms]
  show "ok (view f) \<and> cnt f = refs (T(t := x)) h (T t) b \<and> 0 < cnt f" if "h b = Some f" for b f
    using i(7-9) [OF that] slot_refs_upd [OF i(1), of t x b] by (auto simp: refs_def split: if_splits)
  show "h b \<noteq> None" if "(T(t := x)) u = Some b" for u b
    using that i(5) [of u b] i(6) [of b] by (cases "u = t") auto
  show "h b \<noteq> None" if "T t = Some b" for b using i(5) [OF that] .
qed (use heap_invD [OF assms] in simp_all)

text \<open>Making a new object on top of the pointer.\<close>

lemma heap_inv_link:
  assumes inv: "heap_inv T h x" and a: "h a = None" and f: "prev f = x" "cnt f = 1" "ok (view f)"
  shows "heap_inv T (h(a \<mapsto> f)) (Some a)"
proof -
  note i = heap_invD [OF inv]
  have "x \<noteq> Some a" using i(6) [of a] a by auto
  have fresh: "slot_refs T a = 0" "link_refs prev h a = 0"
    using i(5) [of _ a] links_closedD [OF i(4), of _ _ a] a by (auto simp: slot_refs_def link_refs_def card_eq_0_iff)
  have refs: "refs T (h(a \<mapsto> f)) (Some a) b = (if b = a then 1 else refs T h x b)" for b
    using link_refs_upd [OF i(2) a, of prev f b] fresh f(1) \<open>x \<noteq> Some a\<close> by (auto simp: refs_def)
  show ?thesis
  proof (rule heap_invI)
    show "acyclic_links prev (h(a \<mapsto> f))" using i(3,4,6) a f(1) by (intro acyclic_links_push) auto
    show "links_closed prev (h(a \<mapsto> f))"
      using links_closedD [OF i(4)] i(6) f(1) unfolding links_closed_def by (auto split: if_splits)
    show "ok (view g) \<and> cnt g = refs T (h(a \<mapsto> f)) (Some a) b \<and> 0 < cnt g" if "(h(a \<mapsto> f)) b = Some g" for b g
      using that f i(7-9) [of b g] by (auto simp: refs split: if_splits)
    show "(h(a \<mapsto> f)) b \<noteq> None" if "T t = Some b" for t b using i(5) [OF that] by simp
  qed (use i(1,2) in simp_all)
qed

text \<open>Freeing the object of the last reference, which hands over its link.\<close>

lemma heap_inv_free:
  assumes inv: "heap_inv T h (Some a)" and a: "h a = Some f" and one: "cnt f = 1"
  shows "heap_inv T (h(a := None)) (prev f)"
proof -
  note i = heap_invD [OF inv]
  have zero: "slot_refs T a = 0" "link_refs prev h a = 0"
    using i(8) [OF a] one by (auto simp: refs_def)
  have nolink: "prev g \<noteq> Some a" if "h b = Some g" for b g
    using zero(2) that finite_links [OF i(2), of prev a] by (auto simp: link_refs_def)
  have noslot: "T t \<noteq> Some a" for t
    using zero(1) finite_slots [OF i(1), of a] by (auto simp: slot_refs_def)
  have eq: "refs T (h(a := None)) (prev f) b = refs T h (Some a) b" if "b \<noteq> a" for b
    using link_refs_free [OF i(2) a, of prev b] that by (simp add: refs_def)
  show ?thesis
  proof (rule heap_invI)
    show "acyclic_links prev (h(a := None))" using acyclic_links_mono [OF i(3)] by (metis fun_upd_apply option.distinct(1))
    show "links_closed prev (h(a := None))"
      unfolding links_closed_def using nolink links_closedD [OF i(4)] by (auto split: if_splits)
    show "ok (view g) \<and> cnt g = refs T (h(a := None)) (prev f) b \<and> 0 < cnt g" if "(h(a := None)) b = Some g" for b g
      using that eq [of b] i(7-9) [of b g] by (auto split: if_splits)
    show "(h(a := None)) b \<noteq> None" if "T t = Some b" for t b
      using that noslot [of t] i(5) [of t b] by auto
    show "(h(a := None)) b \<noteq> None" if "prev f = Some b" for b
      using that nolink [OF a] links_closedD [OF i(4) a that] by auto
  qed (use i(1,2) in auto)
qed

text \<open>
  \<open>dropped h x h'\<close>: dropping the pointer \<open>x\<close> turns \<open>h\<close> into \<open>h'\<close>, with the objects
  that lose their last reference freed one after the other.
\<close>

inductive dropped :: "(nat \<rightharpoonup> 'f) \<Rightarrow> nat option \<Rightarrow> (nat \<rightharpoonup> 'f) \<Rightarrow> bool" where
  drop_none: "dropped h None h"
| drop_count: "h a = Some f \<Longrightarrow> 1 < cnt f \<Longrightarrow> dropped h (Some a) (h(a \<mapsto> set_cnt (cnt f - 1) f))"
| drop_free: "h a = Some f \<Longrightarrow> cnt f = 1 \<Longrightarrow> dropped (h(a := None)) (prev f) h' \<Longrightarrow> dropped h (Some a) h'"

definition same_but_counts :: "(nat \<rightharpoonup> 'f) \<Rightarrow> (nat \<rightharpoonup> 'f) \<Rightarrow> bool" where
  "same_but_counts h h' \<longleftrightarrow> (\<forall>b g. h' b = Some g \<longrightarrow> (\<exists>f. h b = Some f \<and> g = set_cnt (cnt g) f))"

lemma same_but_countsD: "same_but_counts h h' \<Longrightarrow> h' b = Some g \<Longrightarrow> \<exists>f. h b = Some f \<and> g = set_cnt (cnt g) f"
  by (simp add: same_but_counts_def)

lemma dropped_same: "dropped h x h' \<Longrightarrow> same_but_counts h h'"
proof (induction rule: dropped.induct)
  case (drop_count h a f)
  then show ?case by (simp add: same_but_counts_def)
next
  case (drop_free h a f h')
  then show ?case unfolding same_but_counts_def by (metis fun_upd_apply option.distinct(1))
qed (simp add: same_but_counts_def)

lemma dropped_exists:
  assumes "heap_inv T h x"
  shows "\<exists>h'. dropped h x h' \<and> heap_inv T h' None"
  using assms
proof (induction "card (dom h)" arbitrary: h x rule: less_induct)
  case less
  show ?case
  proof (cases x)
    case None
    then show ?thesis using less.prems by (auto intro: drop_none)
  next
    case (Some a)
    note i = heap_invD [OF less.prems]
    obtain f where f: "h a = Some f" using i(6) [OF Some] by auto
    show ?thesis
    proof (cases "cnt f = 1")
      case True
      have "card (dom (h(a := None))) < card (dom h)"
        using f i(2) by (auto intro!: psubset_card_mono)
      from less.hyps [OF this heap_inv_free [OF less.prems [unfolded Some] f True]]
      show ?thesis using drop_free [of h a f, OF f True] Some by blast
    next
      case False
      then have "1 < cnt f" using i(9) [OF f] by simp
      moreover from this have "heap_inv T (h(a \<mapsto> set_cnt (cnt f - 1) f)) None"
        by (intro heap_inv_count [OF less.prems f]) (use Some in \<open>auto simp: refs_def\<close>)
      ultimately show ?thesis using drop_count [of h a f, OF f] Some by blast
    qed
  qed
qed

lemma dropped_unique: "dropped h x h' \<Longrightarrow> dropped h x h'' \<Longrightarrow> h'' = h'"
proof (induction arbitrary: h'' rule: dropped.induct)
  case (drop_free h a f h')
  from drop_free.prems drop_free.hyps(1,2) have "dropped (h(a := None)) (prev f) h''" by (auto elim: dropped.cases)
  then show ?case by (rule drop_free.IH)
qed (erule dropped.cases; auto)+

lemma dropped_inv: "dropped h x h' \<Longrightarrow> heap_inv T h x \<Longrightarrow> heap_inv T h' None"
  using dropped_exists dropped_unique by blast

text \<open>Without a slot that points into it the heap is empty.\<close>

lemma no_leak:
  assumes inv: "heap_inv T h None" and none: "\<And>t. T t = None"
  shows "h = Map.empty"
proof (rule ccontr)
  assume "h \<noteq> Map.empty"
  note i = heap_invD [OF inv]
  obtain rank :: "nat \<Rightarrow> nat" where rank: "\<And>a f b. h a = Some f \<Longrightarrow> prev f = Some b \<Longrightarrow> rank b < rank a"
    using i(3) unfolding acyclic_links_def by blast
  have "Max (rank ` dom h) \<in> rank ` dom h"
    using \<open>h \<noteq> Map.empty\<close> i(2) by (intro Max_in) auto
  then obtain a where "a \<in> dom h" and max: "Max (rank ` dom h) = rank a" by (rule imageE)
  then obtain f where f: "h a = Some f" by auto
  have a: "rank b \<le> rank a" if "b \<in> dom h" for b
    unfolding max [symmetric] using that i(2) by (intro Max_ge) auto
  have "slot_refs T a = 0" by (simp add: slot_refs_def none)
  then have "link_refs prev h a \<noteq> 0" using i(8,9) [OF f] by (simp add: refs_def)
  then have "{b. \<exists>g. h b = Some g \<and> prev g = Some a} \<noteq> {}" unfolding link_refs_def by (metis card.empty)
  then obtain b g where "h b = Some g" "prev g = Some a" by blast
  then have "rank a < rank b" "rank b \<le> rank a" using rank a by (blast, blast)
  then show False by simp
qed

section \<open>Chains as lists\<close>

primrec chain :: "(nat \<rightharpoonup> 'f) \<Rightarrow> nat option \<Rightarrow> 'v list \<Rightarrow> bool" where
  "chain h p [] \<longleftrightarrow> p = None"
| "chain h p (v # vs) \<longleftrightarrow> (\<exists>a f. p = Some a \<and> h a = Some f \<and> v = view f \<and> chain h (prev f) vs)"

lemma chain_None [simp]: "chain h None vs \<longleftrightarrow> vs = []"
  by (cases vs) auto

lemma chain_unique: "chain h p vs \<Longrightarrow> chain h p ws \<Longrightarrow> vs = ws"
proof (induction vs arbitrary: p ws)
  case (Cons v vs)
  then show ?case by (cases ws) auto
qed auto

lemma chain_exists:
  assumes "heap_inv T h x" "\<And>a. p = Some a \<Longrightarrow> h a \<noteq> None"
  shows "\<exists>vs. chain h p vs"
proof -
  note i = heap_invD [OF assms(1)]
  obtain rank :: "nat \<Rightarrow> nat" where rank: "\<And>a f b. h a = Some f \<Longrightarrow> prev f = Some b \<Longrightarrow> rank b < rank a"
    using i(3) unfolding acyclic_links_def by blast
  have "\<exists>vs. chain h (Some a) vs" if "h a \<noteq> None" for a
    using that
  proof (induction "rank a" arbitrary: a rule: less_induct)
    case less
    then obtain f where f: "h a = Some f" by auto
    have "\<exists>vs. chain h (prev f) vs"
    proof (cases "prev f")
      case (Some b)
      then show ?thesis using less.hyps [OF rank [OF f Some]] links_closedD [OF i(4) f Some] by simp
    qed auto
    then obtain vs where "chain h (prev f) vs" ..
    then have "chain h (Some a) (view f # vs)" using f by auto
    then show ?case ..
  qed
  then show ?thesis using assms(2) by (cases p) auto
qed

lemma chain_ok: "heap_inv T h x \<Longrightarrow> chain h p vs \<Longrightarrow> list_all ok vs"
proof (induction vs arbitrary: p)
  case (Cons v vs)
  then show ?case using heap_invD(7) [OF Cons.prems(1)] by auto
qed simp

lemma chain_agree:
  assumes "chain h p vs" "links_closed prev h'" "\<And>a. p = Some a \<Longrightarrow> h' a \<noteq> None"
    and "\<And>a f f'. h a = Some f \<Longrightarrow> h' a = Some f' \<Longrightarrow> f' = set_cnt (cnt f') f"
  shows "chain h' p vs"
  using assms(1,3)
proof (induction vs arbitrary: p)
  case (Cons v vs)
  then obtain a f where p: "p = Some a" "h a = Some f" "v = view f" "chain h (prev f) vs" by auto
  obtain f' where f': "h' a = Some f'" using Cons.prems(2) [OF p(1)] by auto
  obtain n where n: "f' = set_cnt n f" using assms(4) [OF p(2) f'] by blast
  have "chain h' (prev f) vs"
    using Cons.IH [OF p(4)] links_closedD [OF assms(2) f'] n by simp
  then show ?case using p f' n by auto
qed simp

text \<open>The chain of a slot that stays in use is not changed by what happens elsewhere.\<close>

lemma chain_kept:
  assumes "chain h p vs" "heap_inv T h' x" "T t = p"
    and "\<And>a f f'. h a = Some f \<Longrightarrow> h' a = Some f' \<Longrightarrow> f' = set_cnt (cnt f') f"
  shows "chain h' (T t) vs"
  unfolding assms(3)
proof (rule chain_agree [OF assms(1)])
  show "h' a \<noteq> None" if "p = Some a" for a using heap_invD(5) [OF assms(2), of t a] assms(3) that by simp
qed (use heap_invD(4) [OF assms(2)] assms(4) in blast)+

end

end
