(* ===== verification/Seccomp.thy ===== *)
theory Seccomp
  imports Bpf UserNs RefChain
begin

text \<open>
  System call filters, \<^verbatim>\<open>kernel/sched/seccomp.c\<close>: the classic BPF interpreter
  over \<open>struct seccomp_data\<close>, the reference-counted chains of installed filters
  that forked tasks share, and the screening of every system call against the
  chain of the calling task. User programs are not checked when they are
  installed; the interpreter fails closed instead.
\<close>

section \<open>Constants\<close>

abbreviation (input) SECCOMP_RET_KILL_PROCESS :: u32 where "SECCOMP_RET_KILL_PROCESS \<equiv> 0x80000000"
abbreviation (input) SECCOMP_RET_KILL_THREAD :: u32 where "SECCOMP_RET_KILL_THREAD \<equiv> 0x00000000"
abbreviation (input) SECCOMP_RET_TRAP :: u32 where "SECCOMP_RET_TRAP \<equiv> 0x00030000"
abbreviation (input) SECCOMP_RET_ERRNO :: u32 where "SECCOMP_RET_ERRNO \<equiv> 0x00050000"
abbreviation (input) SECCOMP_RET_TRACE :: u32 where "SECCOMP_RET_TRACE \<equiv> 0x7ff00000"
abbreviation (input) SECCOMP_RET_LOG :: u32 where "SECCOMP_RET_LOG \<equiv> 0x7ffc0000"
abbreviation (input) SECCOMP_RET_ALLOW :: u32 where "SECCOMP_RET_ALLOW \<equiv> 0x7fff0000"
abbreviation (input) SECCOMP_RET_ACTION_FULL :: u32 where "SECCOMP_RET_ACTION_FULL \<equiv> 0xffff0000"
abbreviation (input) SECCOMP_RET_DATA :: u32 where "SECCOMP_RET_DATA \<equiv> 0x0000ffff"

definition SECCOMP_MAX_INSNS :: u16 where "SECCOMP_MAX_INSNS = 4096"

text \<open>The machine the kernel was compiled for: the code selects these by \<open>#if defined(__aarch64__)\<close>.\<close>

datatype arch = X86_64 | AARCH64

definition AUDIT_ARCH :: "arch \<Rightarrow> u32" where
  "AUDIT_ARCH m = (case m of X86_64 \<Rightarrow> 0xC000003E | AARCH64 \<Rightarrow> 0xC00000B7)"

definition LINUX_NR_READ :: "arch \<Rightarrow> u64" where
  "LINUX_NR_READ m = (case m of X86_64 \<Rightarrow> 0 | AARCH64 \<Rightarrow> 63)"

definition LINUX_NR_WRITE :: "arch \<Rightarrow> u64" where
  "LINUX_NR_WRITE m = (case m of X86_64 \<Rightarrow> 1 | AARCH64 \<Rightarrow> 64)"

definition LINUX_NR_EXIT :: "arch \<Rightarrow> u64" where
  "LINUX_NR_EXIT m = (case m of X86_64 \<Rightarrow> 60 | AARCH64 \<Rightarrow> 93)"

definition LINUX_NR_RT_SIGRETURN :: "arch \<Rightarrow> u64" where
  "LINUX_NR_RT_SIGRETURN m = (case m of X86_64 \<Rightarrow> 15 | AARCH64 \<Rightarrow> 139)"

section \<open>The input of a filter\<close>

text \<open>
  \<open>struct seccomp_data\<close>, and its 64 bytes in memory: both machines are little
  endian and the struct has no padding.
\<close>

record seccomp_data =
  sd_nr :: u32
  sd_arch :: u32
  sd_instruction_pointer :: u64
  sd_args :: "u64 list"

definition le_bytes :: "nat \<Rightarrow> 'a::len word \<Rightarrow> u8 list" where
  "le_bytes n w = map (\<lambda>i. ucast (drop_bit (8 * i) w)) [0..<n]"

definition seccomp_data_bytes :: "seccomp_data \<Rightarrow> u8 list" where
  "seccomp_data_bytes d =
     le_bytes 4 (sd_nr d) @ le_bytes 4 (sd_arch d) @ le_bytes 8 (sd_instruction_pointer d)
     @ concat (map (le_bytes 8) (sd_args d))"

definition seccomp_dlen :: u32 where "seccomp_dlen = 64"

text \<open>\<open>memcpy(&v, base + off, 4)\<close>; \<^term>\<open>None\<close> is a read outside the struct.\<close>

definition load32 :: "u8 list \<Rightarrow> u32 \<Rightarrow> u32 option" where
  "load32 base off =
     (let i = unat off in
      if i + 4 \<le> length base
      then Some (ucast (base ! i) OR push_bit 8 (ucast (base ! (i + 1)))
                 OR push_bit 16 (ucast (base ! (i + 2))) OR push_bit 24 (ucast (base ! (i + 3))))
      else None)"

section \<open>The interpreter\<close>

definition sc_kill :: "bpf_result + bpf_state" where
  "sc_kill = Inl (BRet SECCOMP_RET_KILL_PROCESS)"

definition sc_mem :: "u32 \<Rightarrow> bpf_state \<Rightarrow> (u32 \<Rightarrow> bpf_state) \<Rightarrow> bpf_result + bpf_state" where
  "sc_mem k s cont =
     (if unat k \<ge> BPF_MEMWORDS then sc_kill
      else if unat k < length (bpf_mem s) then bpf_next (cont (bpf_mem s ! unat k))
      else Inl BWild)"

definition sc_ld :: "u8 list \<Rightarrow> sock_filter \<Rightarrow> bpf_state \<Rightarrow> bpf_result + bpf_state" where
  "sc_ld base i s =
     (let code = f_code i; k = f_k i in
      if BPF_MODE code = BPF_ABS then
        (if k + 4 > seccomp_dlen \<or> k + 4 < k then sc_kill
         else (case load32 base k of
                 Some v \<Rightarrow> bpf_next (s\<lparr>bpf_A := v\<rparr>)
               | None \<Rightarrow> Inl BWild))
      else if BPF_MODE code = BPF_IMM then bpf_next (s\<lparr>bpf_A := k\<rparr>)
      else if BPF_MODE code = BPF_MEM then sc_mem k s (\<lambda>v. s\<lparr>bpf_A := v\<rparr>)
      else if BPF_MODE code = BPF_LEN then bpf_next (s\<lparr>bpf_A := seccomp_dlen\<rparr>)
      else sc_kill)"

definition sc_ldx :: "sock_filter \<Rightarrow> bpf_state \<Rightarrow> bpf_result + bpf_state" where
  "sc_ldx i s =
     (let code = f_code i; k = f_k i in
      if BPF_MODE code = BPF_IMM then bpf_next (s\<lparr>bpf_X := k\<rparr>)
      else if BPF_MODE code = BPF_MEM then sc_mem k s (\<lambda>v. s\<lparr>bpf_X := v\<rparr>)
      else if BPF_MODE code = BPF_LEN then bpf_next (s\<lparr>bpf_X := seccomp_dlen\<rparr>)
      else sc_kill)"

definition sc_st :: "u32 \<Rightarrow> u32 \<Rightarrow> bpf_state \<Rightarrow> bpf_result + bpf_state" where
  "sc_st k v s =
     (if unat k \<ge> BPF_MEMWORDS then sc_kill
      else if unat k < length (bpf_mem s) then bpf_next (s\<lparr>bpf_mem := (bpf_mem s)[unat k := v]\<rparr>)
      else Inl BWild)"

definition sc_alu :: "sock_filter \<Rightarrow> bpf_state \<Rightarrow> bpf_result + bpf_state" where
  "sc_alu i s =
     (let code = f_code i; src = bpf_src code (bpf_X s) (f_k i); a = bpf_A s;
          put = (\<lambda>v. bpf_next (s\<lparr>bpf_A := v\<rparr>)) in
      if BPF_OP code = BPF_ADD then put (a + src)
      else if BPF_OP code = BPF_SUB then put (a - src)
      else if BPF_OP code = BPF_MUL then put (a * src)
      else if BPF_OP code = BPF_DIV then (if src = 0 then sc_kill else put (a div src))
      else if BPF_OP code = BPF_MOD then (if src = 0 then sc_kill else put (a mod src))
      else if BPF_OP code = BPF_OR then put (a OR src)
      else if BPF_OP code = BPF_AND then put (a AND src)
      else if BPF_OP code = BPF_XOR then put (a XOR src)
      else if BPF_OP code = BPF_LSH then put (push_bit (unat (src AND 31)) a)
      else if BPF_OP code = BPF_RSH then put (drop_bit (unat (src AND 31)) a)
      else if BPF_OP code = BPF_NEG then put (- a)
      else sc_kill)"

definition sc_jmp :: "u32 \<Rightarrow> sock_filter \<Rightarrow> bpf_state \<Rightarrow> bpf_result + bpf_state" where
  "sc_jmp len i s =
     (let code = f_code i; pc = bpf_pc s in
      if BPF_OP code = BPF_JA then
        (if f_k i \<ge> len - pc - 1 then sc_kill else bpf_next (s\<lparr>bpf_pc := pc + f_k i\<rparr>))
      else (case bpf_taken code (bpf_A s) (bpf_src code (bpf_X s) (f_k i)) of
              None \<Rightarrow> sc_kill
            | Some t \<Rightarrow>
                (let jmp = ucast (if t then f_jt i else f_jf i) in
                 if jmp > len - pc - 1 then sc_kill else bpf_next (s\<lparr>bpf_pc := pc + jmp\<rparr>))))"

definition bpf_run_step ::
    "sock_filter list \<Rightarrow> u32 \<Rightarrow> u8 list \<Rightarrow> bpf_state \<Rightarrow> bpf_result + bpf_state" where
  "bpf_run_step prog len base s =
     (if \<not> bpf_pc s < len then sc_kill
      else if \<not> unat (bpf_pc s) < length prog then Inl BWild
      else let i = prog ! unat (bpf_pc s); code = f_code i in
        if BPF_CLASS code = BPF_LD then sc_ld base i s
        else if BPF_CLASS code = BPF_LDX then sc_ldx i s
        else if BPF_CLASS code = BPF_ST then sc_st (f_k i) (bpf_A s) s
        else if BPF_CLASS code = BPF_STX then sc_st (f_k i) (bpf_X s) s
        else if BPF_CLASS code = BPF_ALU then sc_alu i s
        else if BPF_CLASS code = BPF_JMP then sc_jmp len i s
        else if BPF_CLASS code = BPF_RET then
          Inl (BRet (if BPF_RVAL code = BPF_A then bpf_A s else f_k i))
        else if BPF_CLASS code = BPF_MISC then
          (if BPF_MISCOP code = BPF_TAX then bpf_next (s\<lparr>bpf_X := bpf_A s\<rparr>)
           else if BPF_MISCOP code = BPF_TXA then bpf_next (s\<lparr>bpf_A := bpf_X s\<rparr>)
           else sc_kill)
        else sc_kill)"

definition bpf_run :: "sock_filter list \<Rightarrow> u32 \<Rightarrow> seccomp_data \<Rightarrow> bpf_result option" where
  "bpf_run prog len d = loop (bpf_run_step prog len (seccomp_data_bytes d)) bpf_start"

section \<open>Filters in memory\<close>

text \<open>
  The filters are heap objects linked by \<open>prev\<close> and shared between tasks; a heap
  maps the addresses of the live ones. A program of \<^term>\<open>None\<close> is the null
  pointer that marks strict mode. The reference count is unbounded here: the
  counts are shown to be exact, so a count is at most the number of task slots
  plus the number of filters in memory.
\<close>

record seccomp_filter =
  sf_prog :: "sock_filter list option"
  sf_len :: u32
  sf_prev :: "nat option"
  sf_refcount :: int

type_synonym filter_heap = "nat \<Rightarrow> seccomp_filter option"

record seccomp_state =
  sc_heap :: filter_heap
  g_task_seccomp :: "nat \<Rightarrow> nat option"
  g_task_nnp :: "nat \<Rightarrow> bool"

definition task_seccomp_filter :: "seccomp_state \<Rightarrow> nat option \<Rightarrow> nat option" where
  "task_seccomp_filter st t = (case t of None \<Rightarrow> None | Some i \<Rightarrow> g_task_seccomp st i)"

definition task_set_seccomp_filter :: "nat option \<Rightarrow> nat option \<Rightarrow> seccomp_state \<Rightarrow> seccomp_state" where
  "task_set_seccomp_filter t f st =
     (case t of None \<Rightarrow> st | Some i \<Rightarrow> st\<lparr>g_task_seccomp := (g_task_seccomp st)(i := f)\<rparr>)"

definition task_no_new_privs :: "seccomp_state \<Rightarrow> nat option \<Rightarrow> bool" where
  "task_no_new_privs st t = (case t of None \<Rightarrow> False | Some i \<Rightarrow> g_task_nnp st i)"

definition task_set_no_new_privs :: "nat option \<Rightarrow> bool \<Rightarrow> seccomp_state \<Rightarrow> seccomp_state" where
  "task_set_no_new_privs t v st =
     (case t of None \<Rightarrow> st | Some i \<Rightarrow> st\<lparr>g_task_nnp := (g_task_nnp st)(i := v)\<rparr>)"

definition seccomp_active :: "seccomp_state \<Rightarrow> nat option \<Rightarrow> bool" where
  "seccomp_active st current = (current \<noteq> None \<and> task_seccomp_filter st current \<noteq> None)"

text \<open>One iteration of \<open>while (f)\<close> in \<open>filter_unref\<close>.\<close>

definition filter_unref_step ::
    "filter_heap \<times> nat option \<Rightarrow> filter_heap mem_result + filter_heap \<times> nat option" where
  "filter_unref_step hf =
     (case hf of
        (h, None) \<Rightarrow> Inl (Fine h)
      | (h, Some a) \<Rightarrow>
          (case h a of
             None \<Rightarrow> Inl Wild
           | Some f \<Rightarrow>
               (let left = sf_refcount f - 1; h' = h(a \<mapsto> f\<lparr>sf_refcount := left\<rparr>) in
                if \<not> left \<ge> 0 then Inl Panic
                else if left \<noteq> 0 then Inl (Fine h')
                else Inr (h'(a := None), sf_prev f))))"

definition filter_unref :: "filter_heap \<Rightarrow> nat option \<Rightarrow> filter_heap mem_result" where
  "filter_unref h f = returned (loop filter_unref_step (h, f))"

definition seccomp_inherit :: "nat option \<Rightarrow> nat option \<Rightarrow> seccomp_state \<Rightarrow> seccomp_state mem_result" where
  "seccomp_inherit parent child st =
     (let finish = (\<lambda>f st. task_set_no_new_privs child (task_no_new_privs st parent)
                             (task_set_seccomp_filter child f st)) in
      case task_seccomp_filter st parent of
        None \<Rightarrow> Fine (finish None st)
      | Some a \<Rightarrow>
          (case sc_heap st a of
             None \<Rightarrow> Wild
           | Some f \<Rightarrow>
               Fine (finish (Some a)
                 (st\<lparr>sc_heap := (sc_heap st)(a \<mapsto> f\<lparr>sf_refcount := sf_refcount f + 1\<rparr>)\<rparr>))))"

definition seccomp_release :: "nat option \<Rightarrow> seccomp_state \<Rightarrow> seccomp_state mem_result" where
  "seccomp_release t st =
     (case task_seccomp_filter st t of
        None \<Rightarrow> Fine st
      | Some a \<Rightarrow>
          (let st1 = task_set_seccomp_filter t None st in
           case filter_unref (sc_heap st1) (Some a) of
             Fine h \<Rightarrow> Fine (st1\<lparr>sc_heap := h\<rparr>)
           | Wild \<Rightarrow> Wild | Panic \<Rightarrow> Panic | Hang \<Rightarrow> Hang))"

definition seccomp_set_no_new_privs :: "nat option \<Rightarrow> seccomp_state \<Rightarrow> unit result \<times> seccomp_state" where
  "seccomp_set_no_new_privs current st = (Inr (), task_set_no_new_privs current True st)"

definition seccomp_get_no_new_privs :: "nat option \<Rightarrow> seccomp_state \<Rightarrow> bool" where
  "seccomp_get_no_new_privs current st = task_no_new_privs st current"

section \<open>Installing a filter\<close>

text \<open>
  User memory as \<open>syscall_copyin\<close> sees it: the \<open>struct sock_fprog\<close> at an address
  and the instruction at an address, \<^term>\<open>None\<close> where the read faults.
  \<open>alloc_prog\<close> is whether \<open>kmalloc\<close> finds memory for the program and \<open>alloc\<close> the
  address \<open>kzalloc\<close> gives for the filter.
\<close>

record sock_fprog =
  fp_len :: u16
  fp_filter :: u64

record user_mem =
  um_fprog :: "u64 \<Rightarrow> sock_fprog option"
  um_insn :: "u64 \<Rightarrow> sock_filter option"

definition copyin_insns :: "user_mem \<Rightarrow> u64 \<Rightarrow> nat \<Rightarrow> sock_filter list option" where
  "copyin_insns um p n = those (map (\<lambda>i. um_insn um (p + 8 * of_nat i)) [0..<n])"

definition push_filter :: "nat \<Rightarrow> sock_filter list option \<Rightarrow> u32 \<Rightarrow> nat option \<Rightarrow> seccomp_state \<Rightarrow> seccomp_state" where
  "push_filter a prog len current st =
     task_set_seccomp_filter current (Some a)
       (st\<lparr>sc_heap := (sc_heap st)(a \<mapsto> \<lparr>sf_prog = prog, sf_len = len,
              sf_prev = task_seccomp_filter st current, sf_refcount = 1\<rparr>)\<rparr>)"

definition seccomp_set_mode_filter ::
    "ns_state \<Rightarrow> cred option \<Rightarrow> user_mem \<Rightarrow> bool \<Rightarrow> nat option \<Rightarrow> nat option \<Rightarrow> u64 \<Rightarrow> seccomp_state
     \<Rightarrow> unit result \<times> seccomp_state" where
  "seccomp_set_mode_filter ns co um alloc_prog alloc current user_prog st =
     (if current = None then (Inl ESRCH, st)
      else case um_fprog um user_prog of
        None \<Rightarrow> (Inl EFAULT, st)
      | Some fp \<Rightarrow>
          if fp_len fp = 0 \<or> fp_len fp > SECCOMP_MAX_INSNS then (Inl EINVAL, st)
          else if \<not> alloc_prog then (Inl ENOMEM, st)
          else (case copyin_insns um (fp_filter fp) (unat (fp_len fp)) of
                  None \<Rightarrow> (Inl EFAULT, st)
                | Some prog \<Rightarrow>
                    if \<not> task_no_new_privs st current
                       \<and> \<not> ns_capable_cred ns co (cred_userns co) CAP_SYS_ADMIN
                    then (Inl EACCES, st)
                    else (case alloc of
                            None \<Rightarrow> (Inl ENOMEM, st)
                          | Some a \<Rightarrow>
                              (Inr (), push_filter a (Some prog) (ucast (fp_len fp)) current st))))"

definition seccomp_set_mode_strict ::
    "nat option \<Rightarrow> nat option \<Rightarrow> seccomp_state \<Rightarrow> unit result \<times> seccomp_state" where
  "seccomp_set_mode_strict alloc current st =
     (if current = None then (Inl ESRCH, st)
      else case alloc of
        None \<Rightarrow> (Inl ENOMEM, st)
      | Some a \<Rightarrow> (Inr (), push_filter a None 0 current st))"

text \<open>The system calls that reach them: \<open>seccomp(2)\<close> and the options of \<open>prctl(2)\<close>.\<close>

definition sys_seccomp ::
    "ns_state \<Rightarrow> cred option \<Rightarrow> user_mem \<Rightarrow> bool \<Rightarrow> nat option \<Rightarrow> nat option \<Rightarrow> u64 \<Rightarrow> u64 \<Rightarrow> u64 \<Rightarrow> seccomp_state
     \<Rightarrow> unit result \<times> seccomp_state" where
  "sys_seccomp ns co um alloc_prog alloc current arg0 arg1 arg2 st =
     (let oper = (ucast arg0 :: u32) in
      if oper = 1 then seccomp_set_mode_filter ns co um alloc_prog alloc current arg2 st
      else if oper = 0 then
        (if arg1 \<noteq> 0 \<or> arg2 \<noteq> 0 then (Inl EINVAL, st)
         else seccomp_set_mode_strict alloc current st)
      else (Inl EINVAL, st))"

definition prctl_set_seccomp ::
    "ns_state \<Rightarrow> cred option \<Rightarrow> user_mem \<Rightarrow> bool \<Rightarrow> nat option \<Rightarrow> nat option \<Rightarrow> u64 \<Rightarrow> u64 \<Rightarrow> seccomp_state
     \<Rightarrow> unit result \<times> seccomp_state" where
  "prctl_set_seccomp ns co um alloc_prog alloc current arg1 arg2 st =
     (if arg1 = 1 then seccomp_set_mode_strict alloc current st
      else if arg1 = 2 then seccomp_set_mode_filter ns co um alloc_prog alloc current arg2 st
      else (Inl EINVAL, st))"

section \<open>Screening a system call\<close>

definition strict_allows :: "arch \<Rightarrow> u64 \<Rightarrow> bool" where
  "strict_allows m nr =
     (nr = LINUX_NR_READ m \<or> nr = LINUX_NR_WRITE m \<or> nr = LINUX_NR_EXIT m \<or> nr = LINUX_NR_RT_SIGRETURN m)"

definition seccomp_sev :: "u32 \<Rightarrow> int" where
  "seccomp_sev r =
     (let act = r AND SECCOMP_RET_ACTION_FULL in
      if act = SECCOMP_RET_KILL_PROCESS then 0
      else if act = SECCOMP_RET_KILL_THREAD then 1
      else if act = SECCOMP_RET_TRAP then 2
      else if act = SECCOMP_RET_ERRNO then 3
      else if act = SECCOMP_RET_TRACE then 4
      else if act = SECCOMP_RET_LOG then 5
      else if act = SECCOMP_RET_ALLOW then 6
      else 0)"

text \<open>The verdict of one filter of the chain.\<close>

definition filter_verdict ::
    "arch \<Rightarrow> u64 \<Rightarrow> seccomp_data \<Rightarrow> sock_filter list option \<times> u32 \<Rightarrow> u32 mem_result" where
  "filter_verdict m number d pl =
     (case fst pl of
        None \<Rightarrow> Fine (if strict_allows m number then SECCOMP_RET_ALLOW else SECCOMP_RET_KILL_PROCESS)
      | Some prog \<Rightarrow>
          (case bpf_run prog (snd pl) d of
             None \<Rightarrow> Hang | Some BWild \<Rightarrow> Wild | Some (BRet r) \<Rightarrow> Fine r))"

definition seccomp_verdict_step ::
    "arch \<Rightarrow> u64 \<Rightarrow> seccomp_data \<Rightarrow> filter_heap \<Rightarrow> nat option \<times> u32 \<times> int
     \<Rightarrow> u32 mem_result + nat option \<times> u32 \<times> int" where
  "seccomp_verdict_step m number d h s =
     (case s of
        (None, verdict, verdict_sev) \<Rightarrow> Inl (Fine verdict)
      | (Some a, verdict, verdict_sev) \<Rightarrow>
          (case h a of
             None \<Rightarrow> Inl Wild
           | Some f \<Rightarrow>
               (case filter_verdict m number d (sf_prog f, sf_len f) of
                  Fine r \<Rightarrow>
                    (let sev = seccomp_sev r in
                     if sev < verdict_sev then Inr (sf_prev f, r, sev)
                     else Inr (sf_prev f, verdict, verdict_sev))
                | Wild \<Rightarrow> Inl Wild | Panic \<Rightarrow> Inl Panic | Hang \<Rightarrow> Inl Hang)))"

definition seccomp_verdict ::
    "arch \<Rightarrow> u64 \<Rightarrow> seccomp_data \<Rightarrow> filter_heap \<Rightarrow> nat option \<Rightarrow> u32 mem_result" where
  "seccomp_verdict m number d h f =
     returned (loop (seccomp_verdict_step m number d h) (f, SECCOMP_RET_ALLOW, 100))"

text \<open>
  What becomes of the system call: it runs, or the caller gets \<open>*out_ret\<close>
  instead, after a \<open>SIGSYS\<close> for \<open>TRAP\<close>, or the task is killed.
\<close>

datatype screened = Run | Return int | Trap int | Kill

definition seccomp_enforce :: "u32 \<Rightarrow> screened" where
  "seccomp_enforce verdict =
     (let act = verdict AND SECCOMP_RET_ACTION_FULL in
      if act = SECCOMP_RET_ALLOW \<or> act = SECCOMP_RET_LOG then Run
      else if act = SECCOMP_RET_ERRNO then
        (let e = verdict AND SECCOMP_RET_DATA; e' = (if e > 4095 then 4095 else e) in Return (- uint e'))
      else if act = SECCOMP_RET_TRAP then Trap (- 1)
      else if act = SECCOMP_RET_TRACE then Return (- 38)
      else Kill)"

definition seccomp_input :: "arch \<Rightarrow> u64 \<Rightarrow> u64 list \<Rightarrow> u64 option \<Rightarrow> seccomp_data" where
  "seccomp_input m number args frame =
     \<lparr>sd_nr = ucast number, sd_arch = AUDIT_ARCH m,
      sd_instruction_pointer = (case frame of None \<Rightarrow> 0 | Some ip \<Rightarrow> ip), sd_args = args\<rparr>"

definition seccomp_filter_syscall ::
    "arch \<Rightarrow> u64 \<Rightarrow> u64 list \<Rightarrow> u64 option \<Rightarrow> nat option \<Rightarrow> seccomp_state \<Rightarrow> screened mem_result" where
  "seccomp_filter_syscall m number args frame current st =
     (case task_seccomp_filter st current of
        None \<Rightarrow> Fine Run
      | Some a \<Rightarrow>
          (case seccomp_verdict m number (seccomp_input m number args frame) (sc_heap st) (Some a) of
             Fine v \<Rightarrow> Fine (seccomp_enforce v) | Wild \<Rightarrow> Wild | Panic \<Rightarrow> Panic | Hang \<Rightarrow> Hang))"

text \<open>The gate of \<open>syscall_dispatch_impl_inner\<close>: calls from inside the kernel have no frame and are not screened.\<close>

definition syscall_screen ::
    "arch \<Rightarrow> u64 \<Rightarrow> u64 list \<Rightarrow> u64 option \<Rightarrow> nat option \<Rightarrow> seccomp_state \<Rightarrow> screened mem_result" where
  "syscall_screen m number args frame current st =
     (if frame \<noteq> None \<and> seccomp_active st current
      then seccomp_filter_syscall m number args frame current st else Fine Run)"

section \<open>The interpreter returns\<close>

definition bpf_run_inv :: "sock_filter list \<Rightarrow> u32 \<Rightarrow> u8 list \<Rightarrow> bpf_state \<Rightarrow> bool" where
  "bpf_run_inv prog len base s =
     (length prog = unat len \<and> unat seccomp_dlen \<le> length base
      \<and> bpf_pc s \<le> len \<and> length (bpf_mem s) = BPF_MEMWORDS)"

lemma length_seccomp_data_bytes: "length (seccomp_data_bytes d) = 16 + 8 * length (sd_args d)"
  by (simp add: seccomp_data_bytes_def le_bytes_def length_concat comp_def sum_list_triv)

lemma load32_inside:
  assumes "unat seccomp_dlen \<le> length base" "\<not> (k + 4 > seccomp_dlen \<or> k + 4 < k)"
  shows "load32 base k \<noteq> None"
proof -
  have "k \<le> k + 4" using assms(2) by (meson linorder_not_less)
  then have "unat (k + 4) = unat k + unat (4 :: u32)" by (rule unat_plus_simple [THEN iffD1])
  then have "unat (k + 4) = unat k + 4" by simp
  moreover have "unat (k + 4) \<le> unat seccomp_dlen"
    using assms(2) by (simp add: word_le_nat_alt word_less_nat_alt not_less)
  ultimately show ?thesis using assms(1) by (simp add: load32_def Let_def)
qed

lemma advances_kill [simp]: "advances d s sc_kill"
  by (simp add: sc_kill_def)

lemma sc_mem_advances:
  assumes "length (bpf_mem s) = BPF_MEMWORDS"
    and "\<And>v. bpf_pc (cont v) = bpf_pc s \<and> bpf_mem (cont v) = bpf_mem s"
  shows "advances 0 s (sc_mem k s cont)"
  using assms by (auto simp: sc_mem_def intro!: advances_next)

lemma sc_ld_advances:
  assumes "unat seccomp_dlen \<le> length base" "length (bpf_mem s) = BPF_MEMWORDS"
  shows "advances 0 s (sc_ld base i s)"
  using load32_inside [OF assms(1), of "f_k i"] assms(2)
  by (auto simp: sc_ld_def Let_def intro!: advances_next sc_mem_advances split: option.splits)

lemma sc_ldx_advances:
  assumes "length (bpf_mem s) = BPF_MEMWORDS"
  shows "advances 0 s (sc_ldx i s)"
  using assms by (auto simp: sc_ldx_def Let_def intro!: advances_next sc_mem_advances)

lemma sc_st_advances:
  assumes "length (bpf_mem s) = BPF_MEMWORDS"
  shows "advances 0 s (sc_st k v s)"
  using assms by (auto simp: sc_st_def intro!: advances_next)

lemma sc_alu_advances: "advances 0 s (sc_alu i s)"
  by (auto simp: sc_alu_def Let_def intro!: advances_next)

lemma jump_advances:
  assumes "\<not> b \<Longrightarrow> j \<le> m"
  shows "\<exists>d \<le> m. advances d s (if b then sc_kill else bpf_next (s\<lparr>bpf_pc := bpf_pc s + j\<rparr>))"
proof (cases b)
  case False
  with assms show ?thesis by (intro exI [of _ j]) (auto intro: advances_next)
qed (auto intro: exI [of _ 0])

lemma sc_jmp_advances: "\<exists>d \<le> len - bpf_pc s - 1. advances d s (sc_jmp len i s)"
proof (cases "BPF_OP (f_code i) = BPF_JA")
  case True
  then show ?thesis
    using jump_advances [of "f_k i \<ge> len - bpf_pc s - 1" "f_k i" "len - bpf_pc s - 1" s]
    by (simp add: sc_jmp_def Let_def)
next
  case False
  define b where "b = bpf_taken (f_code i) (bpf_A s) (bpf_src (f_code i) (bpf_X s) (f_k i))"
  show ?thesis
  proof (cases b)
    case None
    with False show ?thesis by (auto simp: sc_jmp_def b_def Let_def intro: exI [of _ 0])
  next
    case (Some t)
    define j :: u32 where "j = ucast (if t then f_jt i else f_jf i)"
    have "sc_jmp len i s = (if j > len - bpf_pc s - 1 then sc_kill else bpf_next (s\<lparr>bpf_pc := bpf_pc s + j\<rparr>))"
      using False Some by (simp add: sc_jmp_def b_def Let_def j_def)
    then show ?thesis
      using jump_advances [of "j > len - bpf_pc s - 1" j "len - bpf_pc s - 1" s] by simp
  qed
qed

lemma bpf_run_step_advances:
  assumes "bpf_run_inv prog len base s" "bpf_pc s < len"
  shows "\<exists>d \<le> len - bpf_pc s - 1. advances d s (bpf_run_step prog len base s)"
proof -
  have in_prog: "unat (bpf_pc s) < length prog"
    using assms by (simp add: bpf_run_inv_def word_less_nat_alt)
  note inv = assms(1) [unfolded bpf_run_inv_def]
  define i where "i = prog ! unat (bpf_pc s)"
  show ?thesis
  proof (cases "BPF_CLASS (f_code i) = BPF_JMP")
    case True
    then have "bpf_run_step prog len base s = sc_jmp len i s"
      using assms(2) in_prog by (simp add: bpf_run_step_def Let_def i_def)
    then show ?thesis using sc_jmp_advances [of len s i] by simp
  next
    case False
    then have "advances 0 s (bpf_run_step prog len base s)"
      using assms(2) in_prog inv
      by (auto simp: bpf_run_step_def Let_def i_def [symmetric]
          intro!: advances_next sc_ld_advances sc_ldx_advances sc_st_advances sc_alu_advances)
    then show ?thesis by (intro exI [of _ 0]) simp
  qed
qed

lemma bpf_run_step_end: "\<not> bpf_pc s < len \<Longrightarrow> bpf_run_step prog len base s = sc_kill"
  by (simp add: bpf_run_step_def)

interpretation seccomp_machine: bpf_machine "bpf_run_step prog len base" "bpf_run_inv prog len base" "unat len"
  for prog len base
proof
  fix s t
  assume inv: "bpf_run_inv prog len base s" and step: "bpf_run_step prog len base s = Inr t"
  have lt: "bpf_pc s < len"
    using step bpf_run_step_end [of s len prog base] by (auto simp: sc_kill_def)
  obtain d where d: "d \<le> len - bpf_pc s - 1" "advances d s (bpf_run_step prog len base s)"
    using bpf_run_step_advances [OF inv lt] by blast
  then have t: "bpf_pc t = bpf_pc s + d + 1" "length (bpf_mem t) = length (bpf_mem s)"
    using step by (auto simp: advances_def)
  show "bpf_run_inv prog len base t"
    using inv t pc_advance_le(2) [OF lt d(1)] by (simp add: bpf_run_inv_def)
  show "unat (bpf_pc s) < unat (bpf_pc t)"
    using pc_advance_le(1) [OF lt d(1)] t(1) by simp
next
  fix s
  assume inv: "bpf_run_inv prog len base s"
  then show "unat (bpf_pc s) \<le> unat len" by (simp add: bpf_run_inv_def word_le_nat_alt)
  show "bpf_run_step prog len base s \<noteq> Inl BWild"
  proof (cases "bpf_pc s < len")
    case True
    then show ?thesis using bpf_run_step_advances [OF inv] by (auto simp: advances_def)
  qed (simp add: bpf_run_step_end sc_kill_def)
qed

lemma bpf_run_verdict:
  assumes "length prog = unat len" "length (sd_args d) = 6"
  shows "\<exists>v. bpf_run prog len d = Some (BRet v)"
  unfolding bpf_run_def
  by (rule seccomp_machine.verdict)
     (simp add: bpf_run_inv_def assms bpf_start_def seccomp_dlen_def length_seccomp_data_bytes)

section \<open>Loads\<close>

lemma nth_le_bytes: "i < n \<Longrightarrow> le_bytes n w ! i = ucast (drop_bit (8 * i) w)"
  by (simp add: le_bytes_def)

lemma length_le_bytes [simp]: "length (le_bytes n w) = n"
  by (simp add: le_bytes_def)

lemma le32_join:
  fixes w :: "'a::len word"
  shows "ucast (ucast w :: u8) OR push_bit 8 (ucast (ucast (drop_bit 8 w) :: u8))
    OR push_bit 16 (ucast (ucast (drop_bit 16 w) :: u8)) OR push_bit 24 (ucast (ucast (drop_bit 24 w) :: u8))
    = (ucast w :: u32)"
proof (rule bit_word_eqI)
  fix n
  assume "n < LENGTH(32)"
  then have n: "n < 32" by simp
  then consider "n < 8" | "8 \<le> n" "n - 8 < 8" | "16 \<le> n" "n - 16 < 8" | "24 \<le> n" "n - 24 < 8"
    by linarith
  then show "bit (ucast (ucast w :: u8) OR push_bit 8 (ucast (ucast (drop_bit 8 w) :: u8))
      OR push_bit 16 (ucast (ucast (drop_bit 16 w) :: u8)) OR push_bit 24 (ucast (ucast (drop_bit 24 w) :: u8)) :: u32) n
    = bit (ucast w :: u32) n"
    using n by cases (auto simp: bit_simps)
qed

lemma seccomp_data_nth_args:
  assumes "i < length (sd_args d)" "j < 8"
  shows "seccomp_data_bytes d ! (16 + 8 * i + j) = ucast (drop_bit (8 * j) (sd_args d ! i))"
proof -
  have len: "length (concat (map (le_bytes 8) (as :: u64 list))) = 8 * length as" for as
    by (induction as) simp_all
  have "concat (map (le_bytes 8) as) ! (8 * i + j) = ucast (drop_bit (8 * j) (as ! i))"
    if "i < length as" for as :: "u64 list"
    using that
  proof (induction as arbitrary: i)
    case (Cons a as)
    then show ?case
      using assms(2) by (cases i) (auto simp: nth_append nth_le_bytes)
  qed simp
  from this [of "sd_args d"] show ?thesis
    using assms by (simp add: seccomp_data_bytes_def nth_append add.assoc)
qed

lemma load32_arg:
  assumes "length (sd_args d) = 6" "i < 6"
  shows "load32 (seccomp_data_bytes d) (of_nat (16 + 8 * i)) = Some (ucast (sd_args d ! i))"
    and "load32 (seccomp_data_bytes d) (of_nat (16 + 8 * i + 4)) = Some (ucast (drop_bit 32 (sd_args d ! i)))"
proof -
  have small: "unat (of_nat n :: u32) = n" if "n < 64" for n
    using that by (simp add: unsigned_of_nat take_bit_nat_eq_self)
  have nth: "seccomp_data_bytes d ! (16 + 8 * i + j) = ucast (drop_bit (8 * j) (sd_args d ! i))" if "j < 8" for j
    using seccomp_data_nth_args [of i d j] assms that by simp
  show "load32 (seccomp_data_bytes d) (of_nat (16 + 8 * i)) = Some (ucast (sd_args d ! i))"
    unfolding load32_def
    using nth [of 0] nth [of 1] nth [of 2] nth [of 3] le32_join [of "sd_args d ! i"] assms small [of "16 + 8 * i"]
    by (simp add: length_seccomp_data_bytes Let_def)
  show "load32 (seccomp_data_bytes d) (of_nat (16 + 8 * i + 4)) = Some (ucast (drop_bit 32 (sd_args d ! i)))"
    unfolding load32_def
    using nth [of 4] nth [of 5] nth [of 6] nth [of 7] le32_join [of "drop_bit 32 (sd_args d ! i)"] assms small [of "16 + 8 * i + 4"]
    by (simp add: length_seccomp_data_bytes Let_def add.assoc)
qed

section \<open>Actions in order of severity\<close>

datatype seccomp_action = KillProcess | KillThread | TrapTask | ReturnErrno | TraceTask | LogCall | AllowCall

fun action_rank :: "seccomp_action \<Rightarrow> nat" where
  "action_rank KillProcess = 0" | "action_rank KillThread = 1" | "action_rank TrapTask = 2"
| "action_rank ReturnErrno = 3" | "action_rank TraceTask = 4" | "action_rank LogCall = 5" | "action_rank AllowCall = 6"

lemma action_rank_inject: "action_rank a = action_rank b \<longleftrightarrow> a = b"
  by (cases a; cases b) simp_all

instantiation seccomp_action :: linorder
begin

definition less_eq_seccomp_action :: "seccomp_action \<Rightarrow> seccomp_action \<Rightarrow> bool" where
  "less_eq_seccomp_action a b \<longleftrightarrow> action_rank a \<le> action_rank b"

definition less_seccomp_action :: "seccomp_action \<Rightarrow> seccomp_action \<Rightarrow> bool" where
  "less_seccomp_action a b \<longleftrightarrow> action_rank a < action_rank b"

instance
  by standard (auto simp: less_eq_seccomp_action_def less_seccomp_action_def action_rank_inject)

end

text \<open>The action a filter's result stands for; an unknown one is the most severe.\<close>

definition action_of :: "u32 \<Rightarrow> seccomp_action" where
  "action_of r =
     (let act = r AND SECCOMP_RET_ACTION_FULL in
      if act = SECCOMP_RET_KILL_THREAD then KillThread
      else if act = SECCOMP_RET_TRAP then TrapTask
      else if act = SECCOMP_RET_ERRNO then ReturnErrno
      else if act = SECCOMP_RET_TRACE then TraceTask
      else if act = SECCOMP_RET_LOG then LogCall
      else if act = SECCOMP_RET_ALLOW then AllowCall
      else KillProcess)"

lemma seccomp_sev_rank: "seccomp_sev r = int (action_rank (action_of r))"
  by (simp add: seccomp_sev_def action_of_def Let_def)

lemma seccomp_sev_less: "seccomp_sev r < seccomp_sev q \<longleftrightarrow> action_of r < action_of q"
  by (simp add: seccomp_sev_rank less_seccomp_action_def)

lemma seccomp_sev_bound: "0 \<le> seccomp_sev r \<and> seccomp_sev r < 100"
  by (cases "action_of r") (simp_all add: seccomp_sev_rank)

lemma enforce_run_iff: "seccomp_enforce v = Run \<longleftrightarrow> LogCall \<le> action_of v"
  by (simp add: seccomp_enforce_def action_of_def Let_def less_eq_seccomp_action_def)

lemma enforce_kill_iff: "seccomp_enforce v = Kill \<longleftrightarrow> action_of v \<le> KillThread"
  by (simp add: seccomp_enforce_def action_of_def Let_def less_eq_seccomp_action_def)

section \<open>Chains\<close>

text \<open>
  Filters are reference-counted objects in chains; \<open>sc.chain h p ps\<close> says that from
  \<open>p\<close> the links \<open>prev\<close> lead through filters with the programs \<open>ps\<close>, newest first.
\<close>

fun filter_ok :: "sock_filter list option \<times> u32 \<Rightarrow> bool" where
  "filter_ok (None, len) \<longleftrightarrow> True"
| "filter_ok (Some prog, len) \<longleftrightarrow> length prog = unat len"

interpretation sc: ref_chain sf_prev sf_refcount "\<lambda>n f. f\<lparr>sf_refcount := n\<rparr>" "\<lambda>f. (sf_prog f, sf_len f)" filter_ok
  by unfold_locales simp_all

text \<open>\<open>strictest\<close> is the verdict the loop over a chain with these results keeps.\<close>

definition keep_severe :: "u32 \<Rightarrow> u32 \<times> int \<Rightarrow> u32 \<times> int" where
  "keep_severe r vs = (if seccomp_sev r < snd vs then (r, seccomp_sev r) else vs)"

definition strictest :: "u32 list \<Rightarrow> u32" where
  "strictest rs = hd (filter (\<lambda>r. action_of r = Min (set (map action_of rs))) rs)"

lemma filter_min_ne:
  assumes "rs \<noteq> []"
  shows "filter (\<lambda>r. action_of r = Min (set (map action_of rs))) rs \<noteq> []"
proof -
  have "Min (set (map action_of rs)) \<in> set (map action_of rs)"
    using assms by (intro Min_in) auto
  then show ?thesis by (auto simp: filter_empty_conv)
qed

lemma strictest_props:
  assumes "rs \<noteq> []"
  shows "strictest rs \<in> set rs" and "action_of (strictest rs) = Min (set (map action_of rs))"
  using hd_in_set [OF filter_min_ne [OF assms]] unfolding strictest_def by auto

lemma strictest_single [simp]: "strictest [r] = r"
  by (simp add: strictest_def)

lemma strictest_snoc:
  assumes "rs \<noteq> []"
  shows "strictest (rs @ [r]) = (if action_of r < action_of (strictest rs) then r else strictest rs)"
proof -
  define m where "m = Min (set (map action_of rs))"
  have min: "Min (set (map action_of (rs @ [r]))) = min (action_of r) m"
    using assms by (simp add: m_def)
  have le: "m \<le> action_of q" if "q \<in> set rs" for q
    using that by (auto simp: m_def intro: Min_le)
  note ne = filter_min_ne [OF assms, folded m_def]
  show ?thesis
  proof (cases "action_of r < m")
    case True
    then have "filter (\<lambda>q. action_of q = action_of r) rs = []"
      using le by (force simp: filter_empty_conv)
    moreover have "min (action_of r) m = action_of r" using True by simp
    ultimately show ?thesis using True strictest_props(2) [OF assms] min
      by (simp add: strictest_def m_def)
  next
    case False
    then have "min (action_of r) m = m" by simp
    then show ?thesis using False strictest_props(2) [OF assms] min ne
      by (simp add: strictest_def m_def)
  qed
qed

lemma fold_keep_severe:
  "rs \<noteq> [] \<Longrightarrow> fold keep_severe rs (SECCOMP_RET_ALLOW, 100) = (strictest rs, seccomp_sev (strictest rs))"
proof (induction rs rule: rev_induct)
  case (snoc r rs)
  show ?case
  proof (cases "rs = []")
    case True
    then show ?thesis using seccomp_sev_bound [of r] by (simp add: keep_severe_def)
  next
    case False
    with snoc.IH show ?thesis by (simp add: strictest_snoc keep_severe_def seccomp_sev_less)
  qed
qed simp

lemma verdict_loop_chain:
  assumes "sc.chain h p ps" "map (filter_verdict m number d) ps = map Fine rs"
  shows "loop (seccomp_verdict_step m number d h) (p, vs) = Some (Fine (fst (fold keep_severe rs vs)))"
  using assms
proof (induction ps arbitrary: p rs vs)
  case Nil
  then show ?case by (cases vs) (simp add: loop.simps seccomp_verdict_step_def)
next
  case (Cons pl ps)
  obtain a f where p: "p = Some a" "h a = Some f" "pl = (sf_prog f, sf_len f)" "sc.chain h (sf_prev f) ps"
    using Cons.prems(1) by auto
  obtain r rs' where rs: "rs = r # rs'" "filter_verdict m number d pl = Fine r"
    "map (filter_verdict m number d) ps = map Fine rs'"
    using Cons.prems(2) by (cases rs) auto
  have "seccomp_verdict_step m number d h (p, vs) = Inr (sf_prev f, keep_severe r vs)"
    using p rs(2) by (cases vs) (auto simp: seccomp_verdict_step_def keep_severe_def Let_def)
  then show ?case
    using Cons.IH [OF p(4) rs(3), of "keep_severe r vs"] rs(1) by (simp add: loop.simps [of _ "(p, vs)"])
qed

lemma seccomp_verdict_chain:
  assumes "sc.chain h p ps" "map (filter_verdict m number d) ps = map Fine rs" "ps \<noteq> []"
  shows "seccomp_verdict m number d h p = Fine (strictest rs)"
proof -
  have "rs \<noteq> []" using assms(2,3) by auto
  then show ?thesis
    using verdict_loop_chain [OF assms(1,2)] fold_keep_severe [of rs]
    by (simp add: seccomp_verdict_def returned_def)
qed

section \<open>Reference counts\<close>

definition seccomp_inv :: "seccomp_state \<Rightarrow> bool" where
  "seccomp_inv st \<longleftrightarrow> sc.heap_inv (g_task_seccomp st) (sc_heap st) None"

lemma filter_unref_dropped: "sc.dropped h x h' \<Longrightarrow> filter_unref h x = Fine h'"
  unfolding filter_unref_def
proof (induction rule: sc.dropped.induct)
  case (drop_none h)
  then show ?case by (simp add: loop.simps [of _ "(h, None)"] filter_unref_step_def returned_def)
next
  case (drop_count h a f)
  then show ?case
    by (simp add: loop.simps [of _ "(h, Some a)"] filter_unref_step_def returned_def Let_def fun_upd_def)
next
  case (drop_free h a f h')
  then have "filter_unref_step (h, Some a) = Inr (h(a := None), sf_prev f)"
    by (simp add: filter_unref_step_def Let_def)
  with drop_free.IH show ?case by (simp only: loop.simps [of _ "(h, Some a)"] sum.case)
qed

section \<open>Histories\<close>

text \<open>
  What happens to the filters, as a sequence of operations. The slot of a new
  task is empty when it inherits: reaping a task releases its chain before the
  slot can be claimed again.
\<close>

datatype seccomp_op = SetFilter nat | SetStrict nat | SetNnp nat | Fork nat nat | Reap nat

inductive seccomp_step :: "seccomp_op \<Rightarrow> seccomp_state \<Rightarrow> seccomp_state \<Rightarrow> bool" where
  filter_step: "seccomp_set_mode_filter ns co um alloc_prog alloc (Some t) p st = (r, st') \<Longrightarrow>
     (\<And>a. alloc = Some a \<Longrightarrow> sc_heap st a = None) \<Longrightarrow> seccomp_step (SetFilter t) st st'"
| strict_step: "seccomp_set_mode_strict alloc (Some t) st = (r, st') \<Longrightarrow>
     (\<And>a. alloc = Some a \<Longrightarrow> sc_heap st a = None) \<Longrightarrow> seccomp_step (SetStrict t) st st'"
| nnp_step: "seccomp_set_no_new_privs (Some t) st = (r, st') \<Longrightarrow> seccomp_step (SetNnp t) st st'"
| fork_step: "seccomp_inherit (Some p) (Some c) st = Fine st' \<Longrightarrow> g_task_seccomp st c = None \<Longrightarrow>
     seccomp_step (Fork p c) st st'"
| reap_step: "seccomp_release (Some t) st = Fine st' \<Longrightarrow> seccomp_step (Reap t) st st'"

inductive_cases seccomp_stepE: "seccomp_step oper st st'"

fun seccomp_steps :: "seccomp_state \<Rightarrow> seccomp_op list \<Rightarrow> seccomp_state \<Rightarrow> bool" where
  "seccomp_steps st [] st' \<longleftrightarrow> st' = st"
| "seccomp_steps st (oper # ops) st' \<longleftrightarrow> (\<exists>st1. seccomp_step oper st st1 \<and> seccomp_steps st1 ops st')"

definition seccomp_init :: seccomp_state where
  "seccomp_init = \<lparr>sc_heap = Map.empty, g_task_seccomp = Map.empty, g_task_nnp = (\<lambda>_. False)\<rparr>"

definition seccomp_reachable :: "seccomp_state \<Rightarrow> bool" where
  "seccomp_reachable st \<longleftrightarrow> (\<exists>ops. seccomp_steps seccomp_init ops st)"

text \<open>How each operation changes the heap and the task slots.\<close>

lemma length_copyin_insns: "copyin_insns um p n = Some l \<Longrightarrow> length l = n"
proof -
  have "those xs = Some ys \<Longrightarrow> length ys = length xs" for xs :: "'a option list" and ys
    by (induction xs arbitrary: ys) (auto split: option.splits)
  then show "copyin_insns um p n = Some l \<Longrightarrow> length l = n" by (fastforce simp: copyin_insns_def)
qed

lemma seccomp_set_mode_filter_cases:
  assumes "seccomp_set_mode_filter ns co um alloc_prog alloc current p st = (r, st')"
  obtains (err) e where "r = Inl e" "st' = st"
  | (ok) fp prog a t where "um_fprog um p = Some fp" "fp_len fp \<noteq> 0" "fp_len fp \<le> SECCOMP_MAX_INSNS"
      "copyin_insns um (fp_filter fp) (unat (fp_len fp)) = Some prog"
      "task_no_new_privs st current \<or> ns_capable_cred ns co (cred_userns co) CAP_SYS_ADMIN"
      "current = Some t" "alloc = Some a" "r = Inr ()" "st' = push_filter a (Some prog) (ucast (fp_len fp)) (Some t) st"
proof -
  from assms consider (e) "\<exists>e. r = Inl e \<and> st' = st"
    | (k) "\<exists>fp prog a t. um_fprog um p = Some fp \<and> fp_len fp \<noteq> 0 \<and> fp_len fp \<le> SECCOMP_MAX_INSNS
        \<and> copyin_insns um (fp_filter fp) (unat (fp_len fp)) = Some prog
        \<and> (task_no_new_privs st current \<or> ns_capable_cred ns co (cred_userns co) CAP_SYS_ADMIN)
        \<and> current = Some t \<and> alloc = Some a \<and> r = Inr () \<and> st' = push_filter a (Some prog) (ucast (fp_len fp)) (Some t) st"
    unfolding seccomp_set_mode_filter_def
    by (auto simp: not_less split: option.splits if_splits)
  then show ?thesis using err ok by cases blast+
qed

lemma push_filter_eq:
  "push_filter a prog len (Some t) st =
     st\<lparr>sc_heap := (sc_heap st)(a \<mapsto> \<lparr>sf_prog = prog, sf_len = len, sf_prev = g_task_seccomp st t, sf_refcount = 1\<rparr>),
        g_task_seccomp := (g_task_seccomp st)(t \<mapsto> a)\<rparr>"
  by (simp add: push_filter_def task_set_seccomp_filter_def task_seccomp_filter_def)

lemma seccomp_inv_push:
  assumes "seccomp_inv st" "sc_heap st a = None" "filter_ok (prog, len)"
  shows "seccomp_inv (push_filter a prog len (Some t) st)"
  using sc.heap_inv_swap [OF sc.heap_inv_link [OF sc.heap_inv_swap [OF assms(1) [unfolded seccomp_inv_def], of t] assms(2),
      of "\<lparr>sf_prog = prog, sf_len = len, sf_prev = g_task_seccomp st t, sf_refcount = 1\<rparr>"], of t] assms(3)
  by (simp add: seccomp_inv_def push_filter_eq)

lemma unat_ucast_len: "unat (ucast (n :: u16) :: u32) = unat n"
  by transfer (simp add: min_def)

lemma seccomp_inherit_eq:
  assumes "seccomp_inv st"
  obtains (none) "g_task_seccomp st p = None"
      "seccomp_inherit (Some p) (Some c) st = Fine (st\<lparr>g_task_seccomp := (g_task_seccomp st)(c := None),
         g_task_nnp := (g_task_nnp st)(c := g_task_nnp st p)\<rparr>)"
  | (some) a f where "g_task_seccomp st p = Some a" "sc_heap st a = Some f"
      "seccomp_inherit (Some p) (Some c) st = Fine (st\<lparr>sc_heap := (sc_heap st)(a \<mapsto> f\<lparr>sf_refcount := sf_refcount f + 1\<rparr>),
         g_task_seccomp := (g_task_seccomp st)(c \<mapsto> a), g_task_nnp := (g_task_nnp st)(c := g_task_nnp st p)\<rparr>)"
proof (cases "g_task_seccomp st p")
  case None
  then show ?thesis
    using none by (simp add: seccomp_inherit_def task_seccomp_filter_def task_set_seccomp_filter_def
        task_no_new_privs_def task_set_no_new_privs_def Let_def)
next
  case (Some a)
  obtain f where f: "sc_heap st a = Some f"
    using sc.heap_invD(5) [OF assms [unfolded seccomp_inv_def] Some] by auto
  show ?thesis
    using some [OF Some f] Some f by (simp add: seccomp_inherit_def task_seccomp_filter_def task_set_seccomp_filter_def
        task_no_new_privs_def task_set_no_new_privs_def Let_def)
qed

lemma seccomp_inv_inherit:
  assumes inv: "seccomp_inv st" and c: "g_task_seccomp st c = None" and run: "seccomp_inherit (Some p) (Some c) st = Fine st'"
  shows "seccomp_inv st'"
  using inv
proof (cases rule: seccomp_inherit_eq [where p = p and c = c])
  case none
  then show ?thesis using inv c run by (auto simp: seccomp_inv_def fun_upd_idem)
next
  case (some a f)
  from sc.heap_inv_swap [OF sc.heap_inv_hold [OF inv [unfolded seccomp_inv_def] some(2)], of c] c some(3) run
  show ?thesis by (auto simp: seccomp_inv_def)
qed

lemma seccomp_release_eq:
  assumes inv: "seccomp_inv st"
  obtains h where "seccomp_release (Some t) st = Fine (st\<lparr>sc_heap := h, g_task_seccomp := (g_task_seccomp st)(t := None)\<rparr>)"
    "sc.heap_inv ((g_task_seccomp st)(t := None)) h None" "sc.same_but_counts (sc_heap st) h"
proof -
  from sc.heap_inv_swap [OF inv [unfolded seccomp_inv_def], of t]
  have inv': "sc.heap_inv ((g_task_seccomp st)(t := None)) (sc_heap st) (g_task_seccomp st t)" .
  obtain h where h: "sc.dropped (sc_heap st) (g_task_seccomp st t) h" "sc.heap_inv ((g_task_seccomp st)(t := None)) h None"
    using sc.dropped_exists [OF inv'] by blast
  have "seccomp_release (Some t) st = Fine (st\<lparr>sc_heap := h, g_task_seccomp := (g_task_seccomp st)(t := None)\<rparr>)"
  proof (cases "g_task_seccomp st t")
    case None
    then have "h = sc_heap st" "(g_task_seccomp st)(t := None) = g_task_seccomp st"
      using h(1) by (auto elim: sc.dropped.cases)
    then show ?thesis using None by (simp add: seccomp_release_def task_seccomp_filter_def)
  next
    case (Some a)
    then show ?thesis
      using filter_unref_dropped [OF h(1)]
      by (simp add: seccomp_release_def task_seccomp_filter_def task_set_seccomp_filter_def Let_def)
  qed
  then show ?thesis using that h(2) sc.dropped_same [OF h(1)] by blast
qed

lemma seccomp_step_inv:
  assumes "seccomp_inv st" "seccomp_step oper st st'"
  shows "seccomp_inv st'"
  using assms(2)
proof (cases rule: seccomp_step.cases)
  case (filter_step ns co um alloc_prog alloc t p r)
  from filter_step(2) show ?thesis
  proof (cases rule: seccomp_set_mode_filter_cases)
    case (ok fp prog a u)
    then show ?thesis
      using seccomp_inv_push [OF assms(1) filter_step(3) [OF ok(7)], where prog = "Some prog" and len = "ucast (fp_len fp)" and t = u]
        length_copyin_insns [OF ok(4)] by (simp add: unat_ucast_len)
  qed (simp add: assms(1))
next
  case (strict_step alloc t r)
  then show ?thesis
    using assms(1) seccomp_inv_push [OF assms(1), where prog = None and len = 0 and t = t]
    by (auto simp: seccomp_set_mode_strict_def split: option.splits)
next
  case (nnp_step t r)
  then show ?thesis
    using assms(1) by (auto simp: seccomp_set_no_new_privs_def task_set_no_new_privs_def seccomp_inv_def)
next
  case (fork_step p c)
  then show ?thesis using seccomp_inv_inherit [OF assms(1)] by blast
next
  case (reap_step t)
  obtain h where "seccomp_release (Some t) st = Fine (st\<lparr>sc_heap := h, g_task_seccomp := (g_task_seccomp st)(t := None)\<rparr>)"
    "sc.heap_inv ((g_task_seccomp st)(t := None)) h None"
    by (rule seccomp_release_eq [OF assms(1), of t])
  then show ?thesis using reap_step by (auto simp: seccomp_inv_def)
qed

lemma seccomp_steps_inv: "seccomp_steps st ops st' \<Longrightarrow> seccomp_inv st \<Longrightarrow> seccomp_inv st'"
  by (induction ops arbitrary: st) (auto intro: seccomp_step_inv)

lemma seccomp_reachable_inv: "seccomp_reachable st \<Longrightarrow> seccomp_inv st"
proof -
  have "seccomp_inv seccomp_init"
    using sc.heap_inv_empty by (simp add: seccomp_init_def seccomp_inv_def)
  then show "seccomp_reachable st \<Longrightarrow> seccomp_inv st"
    unfolding seccomp_reachable_def using seccomp_steps_inv by blast
qed

section \<open>Screening in a reachable state\<close>

lemma chain_verdicts:
  assumes "sc.heap_inv T h x" "sc.chain h p ps" "length (sd_args d) = 6"
  shows "\<exists>rs. map (filter_verdict m nr d) ps = map Fine rs"
  using assms(2)
proof (induction ps arbitrary: p)
  case (Cons pl ps)
  obtain a f where p: "h a = Some f" "pl = (sf_prog f, sf_len f)" "sc.chain h (sf_prev f) ps"
    using Cons.prems by auto
  from Cons.IH [OF p(3)] obtain rs where rs: "map (filter_verdict m nr d) ps = map Fine rs" ..
  have "\<exists>r. filter_verdict m nr d pl = Fine r"
  proof (cases "sf_prog f")
    case (Some prog)
    then have "length prog = unat (sf_len f)"
      using sc.heap_invD(7) [OF assms(1) p(1)] by simp
    from bpf_run_verdict [OF this assms(3)] obtain v where "bpf_run prog (sf_len f) d = Some (BRet v)" ..
    then show ?thesis by (simp add: filter_verdict_def p(2) Some)
  qed (simp add: filter_verdict_def p(2))
  then obtain r where "filter_verdict m nr d pl = Fine r" ..
  with rs show ?case by (intro exI [of _ "r # rs"]) simp
qed auto

lemma filter_syscall_chain:
  assumes "sc.chain (sc_heap st) (g_task_seccomp st t) ps" "ps \<noteq> []"
    and "map (filter_verdict m nr (seccomp_input m nr args frame)) ps = map Fine rs"
  shows "seccomp_filter_syscall m nr args frame (Some t) st = Fine (seccomp_enforce (strictest rs))"
proof -
  obtain a where a: "g_task_seccomp st t = Some a" using assms(1,2) by (cases "g_task_seccomp st t") auto
  then show ?thesis
    using seccomp_verdict_chain [OF assms(1,3,2)]
    by (simp add: seccomp_filter_syscall_def task_seccomp_filter_def)
qed

lemma task_chain_push:
  assumes inv: "seccomp_inv st" "seccomp_inv (push_filter a prog len (Some t) st)" and fresh: "sc_heap st a = None"
    and ch: "sc.chain (sc_heap st) (g_task_seccomp st u) ps"
  shows "sc.chain (sc_heap (push_filter a prog len (Some t) st)) (g_task_seccomp (push_filter a prog len (Some t) st) u)
           ((if u = t then [(prog, len)] else []) @ ps)"
proof -
  let ?st = "push_filter a prog len (Some t) st"
  have "sc.chain (sc_heap ?st) (g_task_seccomp st u) ps"
  proof (rule sc.chain_agree [OF ch])
    show "links_closed sf_prev (sc_heap ?st)" using sc.heap_invD(4) inv(2) unfolding seccomp_inv_def by blast
    show "sc_heap ?st b \<noteq> None" if "g_task_seccomp st u = Some b" for b
      using sc.heap_invD(5) [OF inv(1) [unfolded seccomp_inv_def] that] by (simp add: push_filter_eq)
    show "f' = f\<lparr>sf_refcount := sf_refcount f'\<rparr>" if "sc_heap st b = Some f" "sc_heap ?st b = Some f'" for b f f'
      using that fresh by (cases "b = a") (auto simp: push_filter_eq)
  qed
  then show ?thesis by (auto simp: push_filter_eq)
qed

lemma seccomp_step_chain:
  assumes inv: "seccomp_inv st" and step: "seccomp_step oper st st'"
    and ch: "sc.chain (sc_heap st) (g_task_seccomp st u) ps"
    and oper: "oper \<noteq> Reap u" "\<And>p. oper \<noteq> Fork p u"
  shows "\<exists>qs. sc.chain (sc_heap st') (g_task_seccomp st' u) (qs @ ps)"
proof -
  note inv' = seccomp_step_inv [OF inv step]
  show ?thesis
    using step
  proof (cases rule: seccomp_step.cases)
    case (filter_step ns co um alloc_prog alloc t p r)
    from filter_step(2) show ?thesis
    proof (cases rule: seccomp_set_mode_filter_cases)
      case (ok fp prog a v)
      then show ?thesis
        using task_chain_push [OF inv _ filter_step(3) [OF ok(7)] ch] inv' by blast
    qed (use ch in \<open>auto intro: exI [of _ "[]"]\<close>)
  next
    case (strict_step alloc t r)
    show ?thesis
    proof (cases alloc)
      case None
      then show ?thesis using strict_step(2) ch by (auto simp: seccomp_set_mode_strict_def intro: exI [of _ "[]"])
    next
      case (Some a)
      then have "st' = push_filter a None 0 (Some t) st" using strict_step(2) by (simp add: seccomp_set_mode_strict_def)
      then show ?thesis using task_chain_push [OF inv _ strict_step(3) [OF Some] ch] inv' by blast
    qed
  next
    case (nnp_step t r)
    then show ?thesis
      using ch by (auto simp: seccomp_set_no_new_privs_def task_set_no_new_privs_def intro!: exI [of _ "[]"])
  next
    case (fork_step p c)
    then have "u \<noteq> c" using oper by blast
    have slot: "g_task_seccomp st' u = g_task_seccomp st u"
      by (rule seccomp_inherit_eq [OF inv, of p c]) (use fork_step(2) \<open>u \<noteq> c\<close> in auto)
    have same: "f' = f\<lparr>sf_refcount := sf_refcount f'\<rparr>" if "sc_heap st a = Some f" "sc_heap st' a = Some f'" for a f f'
      by (rule seccomp_inherit_eq [OF inv, of p c]) (use fork_step(2) that in \<open>auto split: if_splits\<close>)
    have "sc.chain (sc_heap st') (g_task_seccomp st u) ps"
      using sc.chain_agree [OF ch sc.heap_invD(4) [OF inv' [unfolded seccomp_inv_def]]]
        sc.heap_invD(5) [OF inv' [unfolded seccomp_inv_def], of u] slot same by metis
    then show ?thesis using slot by (intro exI [of _ "[]"]) simp
  next
    case (reap_step t)
    then have "u \<noteq> t" using oper by blast
    obtain h where h: "seccomp_release (Some t) st = Fine (st\<lparr>sc_heap := h, g_task_seccomp := (g_task_seccomp st)(t := None)\<rparr>)"
      "sc.same_but_counts (sc_heap st) h"
      by (rule seccomp_release_eq [OF inv, of t]) blast
    then have slot: "sc_heap st' = h" "g_task_seccomp st' u = g_task_seccomp st u"
      using reap_step(2) \<open>u \<noteq> t\<close> by auto
    have "sc.chain h (g_task_seccomp st u) ps"
    proof (rule sc.chain_agree [OF ch])
      show "links_closed sf_prev h" using sc.heap_invD(4) [OF inv' [unfolded seccomp_inv_def]] slot by simp
      show "h a \<noteq> None" if "g_task_seccomp st u = Some a" for a
        using sc.heap_invD(5) [OF inv' [unfolded seccomp_inv_def], of u a] slot that by simp
    qed (use sc.same_but_countsD [OF h(2)] in force)
    then show ?thesis using slot by (intro exI [of _ "[]"]) simp
  qed
qed

lemma fork_chain:
  assumes inv: "seccomp_inv st" and step: "seccomp_step (Fork p c) st st'"
    and ch: "sc.chain (sc_heap st) (g_task_seccomp st p) ps"
  shows "sc.chain (sc_heap st') (g_task_seccomp st' c) ps"
proof -
  note inv' = seccomp_step_inv [OF inv step]
  have run: "seccomp_inherit (Some p) (Some c) st = Fine st'"
    using step by (cases rule: seccomp_step.cases) simp
  have slot: "g_task_seccomp st' c = g_task_seccomp st p"
    by (rule seccomp_inherit_eq [OF inv, of p c]) (use run in auto)
  have same: "f' = f\<lparr>sf_refcount := sf_refcount f'\<rparr>" if "sc_heap st a = Some f" "sc_heap st' a = Some f'" for a f f'
    by (rule seccomp_inherit_eq [OF inv, of p c]) (use run that in \<open>auto split: if_splits\<close>)
  show ?thesis
    using sc.chain_agree [OF ch sc.heap_invD(4) [OF inv' [unfolded seccomp_inv_def]]]
      sc.heap_invD(5) [OF inv' [unfolded seccomp_inv_def], of c] slot same by metis
qed

text \<open>The tasks that descend from those of a set through a history.\<close>

fun heirs :: "seccomp_op \<Rightarrow> nat set \<Rightarrow> nat set" where
  "heirs (Fork p c) ts = (if p \<in> ts then insert c ts else ts - {c})"
| "heirs (Reap t) ts = ts - {t}"
| "heirs (SetFilter t) ts = ts"
| "heirs (SetStrict t) ts = ts"
| "heirs (SetNnp t) ts = ts"

definition lineage :: "seccomp_op list \<Rightarrow> nat set \<Rightarrow> nat set" where
  "lineage = fold heirs"

lemma lineage_simps [simp]:
  "lineage [] ts = ts" "lineage (oper # ops) ts = lineage ops (heirs oper ts)"
  by (simp_all add: lineage_def)

lemma heirs_cases:
  assumes "t \<in> heirs oper ts"
  obtains (old) "t \<in> ts" "oper \<noteq> Reap t" "\<And>p. oper \<noteq> Fork p t" | (new) p where "p \<in> ts" "oper = Fork p t"
  using assms by (cases oper) (auto split: if_splits)

definition carry :: "(sock_filter list option \<times> u32) list \<Rightarrow> nat set \<Rightarrow> seccomp_state \<Rightarrow> bool" where
  "carry ps ts st \<longleftrightarrow> (\<forall>t\<in>ts. \<exists>qs. sc.chain (sc_heap st) (g_task_seccomp st t) (qs @ ps))"

lemma carry_step:
  assumes "seccomp_inv st" "seccomp_step oper st st'" "carry ps ts st"
  shows "carry ps (heirs oper ts) st'"
  unfolding carry_def
proof
  fix t
  assume "t \<in> heirs oper ts"
  then show "\<exists>qs. sc.chain (sc_heap st') (g_task_seccomp st' t) (qs @ ps)"
  proof (cases rule: heirs_cases)
    case old
    then obtain qs where "sc.chain (sc_heap st) (g_task_seccomp st t) (qs @ ps)" using assms(3) by (auto simp: carry_def)
    from seccomp_step_chain [OF assms(1,2) this old(2,3)] show ?thesis by (metis append_assoc)
  next
    case (new p)
    then obtain qs where "sc.chain (sc_heap st) (g_task_seccomp st p) (qs @ ps)" using assms(3) by (auto simp: carry_def)
    from fork_chain [OF assms(1) assms(2) [unfolded new(2)] this] show ?thesis by blast
  qed
qed

lemma carry_lineage:
  "seccomp_steps st ops st' \<Longrightarrow> seccomp_inv st \<Longrightarrow> carry ps ts st \<Longrightarrow> carry ps (lineage ops ts) st'"
proof (induction ops arbitrary: st ts)
  case (Cons oper ops)
  obtain st1 where st1: "seccomp_step oper st st1" "seccomp_steps st1 ops st'" using Cons.prems(1) by auto
  show ?case
    using Cons.IH [OF st1(2) seccomp_step_inv [OF Cons.prems(2) st1(1)] carry_step [OF Cons.prems(2) st1(1) Cons.prems(3)]]
    by simp
qed simp

text \<open>No operation takes no_new_privs away, and a child starts with its parent's.\<close>

lemma push_filter_nnp [simp]: "g_task_nnp (push_filter a prog len t st) = g_task_nnp st"
  by (simp add: push_filter_def task_set_seccomp_filter_def split: option.splits)

lemma seccomp_release_nnp: "seccomp_release t st = Fine st' \<Longrightarrow> g_task_nnp st' = g_task_nnp st"
  by (auto simp: seccomp_release_def task_set_seccomp_filter_def Let_def split: option.splits mem_result.splits)

lemma seccomp_inherit_nnp:
  "seccomp_inherit (Some p) (Some c) st = Fine st' \<Longrightarrow> g_task_nnp st' = (g_task_nnp st)(c := g_task_nnp st p)"
  by (auto simp: seccomp_inherit_def task_set_seccomp_filter_def task_set_no_new_privs_def task_no_new_privs_def Let_def
      split: option.splits)

lemma seccomp_step_nnp:
  assumes "seccomp_step oper st st'" "\<And>t. t \<in> ts \<Longrightarrow> g_task_nnp st t" "u \<in> heirs oper ts"
  shows "g_task_nnp st' u"
  using assms(1)
proof (cases rule: seccomp_step.cases)
  case (filter_step ns co um alloc_prog alloc t p r)
  from filter_step(2) show ?thesis
    by (cases rule: seccomp_set_mode_filter_cases) (use assms(2,3) filter_step(1) in auto)
next
  case (strict_step alloc t r)
  then show ?thesis using assms(2,3) by (auto simp: seccomp_set_mode_strict_def split: option.splits)
next
  case (nnp_step t r)
  then show ?thesis using assms(2,3) by (auto simp: seccomp_set_no_new_privs_def task_set_no_new_privs_def)
next
  case (fork_step p c)
  then show ?thesis using assms(2,3) seccomp_inherit_nnp by (fastforce split: if_splits)
next
  case (reap_step t)
  then show ?thesis using assms(2,3) seccomp_release_nnp by fastforce
qed

lemma screened_chain:
  assumes inv: "seccomp_inv st" and some: "g_task_seccomp st t \<noteq> None" and args: "length args = 6"
  obtains ps rs where "sc.chain (sc_heap st) (g_task_seccomp st t) ps" "rs \<noteq> []"
    "map (filter_verdict m nr (seccomp_input m nr args frame)) ps = map Fine rs"
    "seccomp_filter_syscall m nr args frame (Some t) st = Fine (seccomp_enforce (strictest rs))"
proof -
  note i = inv [unfolded seccomp_inv_def]
  obtain ps where ps: "sc.chain (sc_heap st) (g_task_seccomp st t) ps"
    using sc.chain_exists [OF i] sc.heap_invD(5) [OF i] by metis
  then have ne: "ps \<noteq> []" using some by auto
  obtain rs where rs: "map (filter_verdict m nr (seccomp_input m nr args frame)) ps = map Fine rs"
    using chain_verdicts [OF i ps, of "seccomp_input m nr args frame" m nr] args by (auto simp: seccomp_input_def)
  moreover from this ne have "rs \<noteq> []" by auto
  ultimately show ?thesis using that [OF ps] filter_syscall_chain [OF ps ne] by blast
qed

lemma enforce_range:
  assumes "seccomp_enforce v = Return n"
  shows "- 4095 \<le> n \<and> n \<le> 0"
proof -
  have "uint (if e > 4095 then 4095 else e) \<le> 4095" for e :: u32
  proof (cases "e > 4095")
    case False
    then have "uint e \<le> uint (4095 :: u32)" by (simp add: word_less_def)
    then show ?thesis using False by simp
  qed simp
  note le = this [of "v AND 0x0000ffff"]
  show ?thesis using assms le by (auto simp: seccomp_enforce_def Let_def split: if_splits)
qed

lemma strictest_append:
  assumes "qs \<noteq> []"
  shows "action_of (strictest (rs @ qs)) \<le> action_of (strictest qs)"
  using assms by (simp add: strictest_props(2) Min_antimono)

lemma chain_results_append:
  assumes "map (filter_verdict m nr d) (qs @ ps) = map Fine rs'" "map (filter_verdict m nr d) ps = map Fine rs"
  shows "\<exists>us. rs' = us @ rs"
proof -
  obtain us vs where "rs' = us @ vs" "map (filter_verdict m nr d) ps = map Fine vs"
    using assms(1) by (auto simp: append_eq_map_conv)
  moreover from this(2) assms(2) have "vs = rs" by (simp add: map_injective inj_def)
  ultimately show ?thesis by blast
qed

section \<open>Properties\<close>

text \<open>
  C30. Screening a system call always comes to an end without touching memory
  outside a program, the input or the scratch words and without reaching a freed
  filter, whatever programs were installed; a value returned in place of the
  call is an error number the caller's libc can decode, from 0 to -4095.
\<close>

theorem seccomp_screen_returns:
  assumes "seccomp_reachable st" and "length args = 6"
  shows "\<exists>s. syscall_screen m nr args frame current st = Fine s \<and> (\<forall>n. s = Return n \<longrightarrow> - 4095 \<le> n \<and> n \<le> 0)"
proof (cases "frame \<noteq> None \<and> seccomp_active st current")
  case True
  then obtain t where t: "current = Some t" "g_task_seccomp st t \<noteq> None"
    by (auto simp: seccomp_active_def task_seccomp_filter_def)
  obtain rs where "seccomp_filter_syscall m nr args frame (Some t) st = Fine (seccomp_enforce (strictest rs))"
    using screened_chain [OF seccomp_reachable_inv [OF assms(1)] t(2) assms(2), of m nr frame] by metis
  then show ?thesis using True t(1) enforce_range by (auto simp: syscall_screen_def)
qed (auto simp: syscall_screen_def)

text \<open>
  C31. The outcome of a screened call is decided by the most severe of the
  actions the filters of the task's chain ask for, in the order kill process,
  kill thread, trap, error, trace, log, allow; among equally severe results the
  newest filter's data bits count.
\<close>

theorem seccomp_most_severe:
  assumes "seccomp_reachable st" and "g_task_seccomp st t = Some a" and "length args = 6"
  shows "\<exists>ps rs v. sc.chain (sc_heap st) (Some a) ps
     \<and> map (filter_verdict m nr (seccomp_input m nr args frame)) ps = map Fine rs
     \<and> action_of v = Min (set (map action_of rs))
     \<and> v = hd (filter (\<lambda>r. action_of r = action_of v) rs)
     \<and> seccomp_filter_syscall m nr args frame (Some t) st = Fine (seccomp_enforce v)"
proof -
  obtain ps rs where ps: "sc.chain (sc_heap st) (g_task_seccomp st t) ps" "rs \<noteq> []"
    "map (filter_verdict m nr (seccomp_input m nr args frame)) ps = map Fine rs"
    "seccomp_filter_syscall m nr args frame (Some t) st = Fine (seccomp_enforce (strictest rs))"
    using screened_chain [OF seccomp_reachable_inv [OF assms(1)] _ assms(3), of t m nr frame] assms(2) by auto
  have "strictest rs = hd (filter (\<lambda>r. action_of r = action_of (strictest rs)) rs)"
    unfolding strictest_props(2) [OF ps(2)] by (simp add: strictest_def)
  then show ?thesis using ps(1,3,4) strictest_props(2) [OF ps(2)] unfolding assms(2) by blast
qed

text \<open>
  C32. A system call that the filters of a task block stays blocked for the task
  and for every task that descends from it, whatever is installed, forked or
  reaped afterwards, and a call that kills the task kills its descendants too:
  filters can only be added.
\<close>

theorem seccomp_descendants_restricted:
  assumes "seccomp_reachable st" and "length args = 6"
    and "seccomp_filter_syscall m nr args frame (Some t) st = Fine s" and "s \<noteq> Run"
    and "seccomp_steps st ops st'" and "c \<in> lineage ops {t}"
  shows "\<exists>s'. seccomp_filter_syscall m nr args frame (Some c) st' = Fine s' \<and> s' \<noteq> Run \<and> (s = Kill \<longrightarrow> s' = Kill)"
proof -
  note inv = seccomp_reachable_inv [OF assms(1)]
  note inv' = seccomp_steps_inv [OF assms(5) inv]
  let ?d = "seccomp_input m nr args frame"
  have some: "g_task_seccomp st t \<noteq> None"
    using assms(3,4) by (cases "g_task_seccomp st t") (auto simp: seccomp_filter_syscall_def task_seccomp_filter_def)
  obtain ps rs where ps: "sc.chain (sc_heap st) (g_task_seccomp st t) ps" "rs \<noteq> []"
    "map (filter_verdict m nr ?d) ps = map Fine rs" "s = seccomp_enforce (strictest rs)"
    using screened_chain [OF inv some assms(2), of m nr frame] assms(3) by auto
  have "carry ps {t} st" using ps(1) by (auto simp: carry_def intro: exI [of _ "[]"])
  from carry_lineage [OF assms(5) inv this] obtain qs where qs: "sc.chain (sc_heap st') (g_task_seccomp st' c) (qs @ ps)"
    using assms(6) by (auto simp: carry_def)
  obtain rs' where rs': "map (filter_verdict m nr ?d) (qs @ ps) = map Fine rs'"
    using chain_verdicts [OF inv' [unfolded seccomp_inv_def] qs, of ?d m nr] assms(2) by (auto simp: seccomp_input_def)
  have "qs @ ps \<noteq> []" using ps(2,3) by auto
  note out = filter_syscall_chain [OF qs this rs']
  have "action_of (strictest rs') \<le> action_of (strictest rs)"
    using chain_results_append [OF rs' ps(3)] strictest_append [OF ps(2)] by auto
  then show ?thesis
    using out assms(4) ps(4) enforce_run_iff enforce_kill_iff by (meson order_trans)
qed

text \<open>
  C33. Reference counts are exact: the count of every filter in memory is the
  number of tasks and of newer filters that point to it, so it is positive; once
  no task has a filter none is left in memory; and releasing or inheriting a
  chain never reaches freed memory, never trips the assertion and returns.
\<close>

theorem seccomp_refcounts_exact:
  assumes "seccomp_reachable st"
  shows "(\<forall>a f. sc_heap st a = Some f \<longrightarrow>
            sf_refcount f = int (slot_refs (g_task_seccomp st) a + link_refs sf_prev (sc_heap st) a) \<and> 0 < sf_refcount f)
     \<and> ((\<forall>t. g_task_seccomp st t = None) \<longrightarrow> sc_heap st = Map.empty)
     \<and> (\<exists>st'. seccomp_release (Some t) st = Fine st') \<and> (\<exists>st'. seccomp_inherit (Some t) (Some c) st = Fine st')"
proof -
  note inv = seccomp_reachable_inv [OF assms]
  note i = inv [unfolded seccomp_inv_def]
  have "\<exists>st'. seccomp_release (Some t) st = Fine st'" by (rule seccomp_release_eq [OF inv, of t]) blast
  moreover have "\<exists>st'. seccomp_inherit (Some t) (Some c) st = Fine st'"
    by (rule seccomp_inherit_eq [OF inv, of t c]) blast+
  ultimately show ?thesis
    using sc.heap_invD(8,9) [OF i] sc.no_leak [OF i] by (auto simp: sc.refs_def)
qed

section \<open>Witnesses\<close>

text \<open>
  Task 1 sets no_new_privs and installs a filter that fails every call with error
  5; its child, task 2, enters strict mode on top of it.
\<close>

definition example_deny :: sock_filter where
  "example_deny = \<lparr>f_code = 0x06, f_jt = 0, f_jf = 0, f_k = 0x50005\<rparr>"

definition example_user_mem :: user_mem where
  "example_user_mem = \<lparr>um_fprog = (\<lambda>_. Some \<lparr>fp_len = 1, fp_filter = 0\<rparr>), um_insn = (\<lambda>_. Some example_deny)\<rparr>"

definition example_denied :: seccomp_state where
  "example_denied =
     \<lparr>sc_heap = [0 \<mapsto> \<lparr>sf_prog = Some [example_deny], sf_len = 1, sf_prev = None, sf_refcount = 1\<rparr>],
      g_task_seccomp = [1 \<mapsto> 0], g_task_nnp = (\<lambda>_. False)(1 := True)\<rparr>"

definition example_forked :: seccomp_state where
  "example_forked =
     \<lparr>sc_heap = [0 \<mapsto> \<lparr>sf_prog = Some [example_deny], sf_len = 1, sf_prev = None, sf_refcount = 2\<rparr>],
      g_task_seccomp = [1 \<mapsto> 0, 2 \<mapsto> 0], g_task_nnp = (\<lambda>_. False)(1 := True, 2 := True)\<rparr>"

definition example_strict :: seccomp_state where
  "example_strict =
     \<lparr>sc_heap = [0 \<mapsto> \<lparr>sf_prog = Some [example_deny], sf_len = 1, sf_prev = None, sf_refcount = 2\<rparr>,
                 1 \<mapsto> \<lparr>sf_prog = None, sf_len = 0, sf_prev = Some 0, sf_refcount = 1\<rparr>],
      g_task_seccomp = [1 \<mapsto> 0, 2 \<mapsto> 1], g_task_nnp = (\<lambda>_. False)(1 := True, 2 := True)\<rparr>"

lemma example_denied_steps: "seccomp_steps seccomp_init [SetNnp 1, SetFilter 1] example_denied"
proof -
  let ?st = "task_set_no_new_privs (Some 1) True seccomp_init"
  have "seccomp_step (SetNnp 1) seccomp_init ?st"
    by (rule nnp_step [of 1 _ "Inr ()"]) (simp add: seccomp_set_no_new_privs_def)
  moreover have "seccomp_set_mode_filter ns None example_user_mem True (Some 0) (Some 1) 0 ?st = (Inr (), example_denied)" for ns
    by (simp add: seccomp_set_mode_filter_def example_user_mem_def copyin_insns_def push_filter_def task_no_new_privs_def
        task_set_no_new_privs_def task_seccomp_filter_def task_set_seccomp_filter_def seccomp_init_def
        example_denied_def SECCOMP_MAX_INSNS_def)
  then have "seccomp_step (SetFilter 1) ?st example_denied"
    by (rule filter_step) (simp add: task_set_no_new_privs_def seccomp_init_def)
  ultimately show ?thesis by auto
qed

lemma example_fork: "seccomp_step (Fork 1 2) example_denied example_forked"
  by (rule fork_step) (simp_all add: seccomp_inherit_def example_denied_def example_forked_def task_seccomp_filter_def
        task_set_seccomp_filter_def task_no_new_privs_def task_set_no_new_privs_def)

lemma example_strict_steps: "seccomp_steps example_denied [Fork 1 2, SetStrict 2] example_strict"
proof -
  have "seccomp_set_mode_strict (Some 1) (Some 2) example_forked = (Inr (), example_strict)"
    by (simp add: seccomp_set_mode_strict_def push_filter_def task_seccomp_filter_def task_set_seccomp_filter_def
        example_forked_def example_strict_def fun_upd_twist)
  then have "seccomp_step (SetStrict 2) example_forked example_strict"
    by (rule strict_step) (simp add: example_forked_def)
  with example_fork show ?thesis by auto
qed

lemma seccomp_steps_append:
  "seccomp_steps st ops st1 \<Longrightarrow> seccomp_steps st1 ops' st' \<Longrightarrow> seccomp_steps st (ops @ ops') st'"
  by (induction ops arbitrary: st) auto

lemma example_reachable_seccomp: "seccomp_reachable example_denied" "seccomp_reachable example_strict"
  using example_denied_steps seccomp_steps_append [OF example_denied_steps example_strict_steps]
  unfolding seccomp_reachable_def by blast+

lemma example_deny_verdict: "filter_verdict m nr d (Some [example_deny], 1) = Fine 0x50005"
  by (simp add: filter_verdict_def bpf_run_def bpf_start_def loop.simps bpf_run_step_def example_deny_def bpf_fields)

lemma example_denied_call:
  "seccomp_filter_syscall m nr args frame (Some 1) example_denied = Fine (Return (- 5))"
proof -
  have "seccomp_filter_syscall m nr args frame (Some 1) example_denied = Fine (seccomp_enforce (strictest [0x50005]))"
    by (rule filter_syscall_chain [where ps = "[(Some [example_deny], 1)]"])
       (simp_all add: example_denied_def example_deny_verdict)
  then show ?thesis by (simp add: seccomp_enforce_def)
qed

lemma example_strict_chain:
  "sc.chain (sc_heap example_strict) (Some 1) ps \<longleftrightarrow> ps = [(None, 0), (Some [example_deny], 1)]"
proof -
  have "sc.chain (sc_heap example_strict) (Some 1) [(None, 0), (Some [example_deny], 1)]"
    by (simp add: example_strict_def)
  then show ?thesis using sc.chain_unique by blast
qed

theorem seccomp_screen_returns_witness:
  "\<exists>s. syscall_screen X86_64 0 (replicate 6 0) (Some 0) (Some 2) example_strict = Fine s"
  using seccomp_screen_returns [OF example_reachable_seccomp(2), of "replicate 6 0" X86_64 0 "Some 0" "Some 2"] by auto

theorem seccomp_most_severe_witness:
  "seccomp_filter_syscall X86_64 100 (replicate 6 0) (Some 0) (Some 2) example_strict = Fine Kill"
proof -
  have "g_task_seccomp example_strict 2 = Some 1" by (simp add: example_strict_def)
  from seccomp_most_severe [OF example_reachable_seccomp(2) this length_replicate [of 6 0], of X86_64 100 "Some 0"]
  obtain ps rs v where ps: "sc.chain (sc_heap example_strict) (Some 1) ps"
      "map (filter_verdict X86_64 100 (seccomp_input X86_64 100 (replicate 6 0) (Some 0))) ps = map Fine rs"
    and v: "action_of v = Min (set (map action_of rs))"
    "seccomp_filter_syscall X86_64 100 (replicate 6 0) (Some 0) (Some 2) example_strict = Fine (seccomp_enforce v)"
    by blast
  note rs = ps(2) [unfolded ps(1) [unfolded example_strict_chain]]
  from rs have "rs = [0x80000000, 0x50005]"
    by (auto simp: example_deny_verdict filter_verdict_def [of _ _ _ "(None, _)"] strict_allows_def LINUX_NR_READ_def
        LINUX_NR_WRITE_def LINUX_NR_EXIT_def LINUX_NR_RT_SIGRETURN_def Cons_eq_map_conv)
  with v(1) have "action_of v = KillProcess"
    by (simp add: action_of_def min_def less_eq_seccomp_action_def)
  then show ?thesis using v(2) enforce_kill_iff [of v] by (simp add: less_eq_seccomp_action_def)
qed

theorem seccomp_descendants_restricted_witness:
  "\<exists>s. seccomp_filter_syscall X86_64 0 (replicate 6 0) (Some 0) (Some 2) example_strict = Fine s \<and> s \<noteq> Run"
  using seccomp_descendants_restricted [OF example_reachable_seccomp(1) _ example_denied_call _ example_strict_steps,
      of "replicate 6 0" 2] by auto

theorem seccomp_refcounts_exact_witness:
  "(\<exists>st'. seccomp_release (Some 1) example_strict = Fine st') \<and> (\<exists>st'. seccomp_inherit (Some 1) (Some 3) example_strict = Fine st')
   \<and> int (slot_refs (g_task_seccomp example_strict) 0 + link_refs sf_prev (sc_heap example_strict) 0) = 2"
proof -
  have f: "sc_heap example_strict 0 = Some \<lparr>sf_prog = Some [example_deny], sf_len = 1, sf_prev = None, sf_refcount = 2\<rparr>"
    by (simp add: example_strict_def)
  from seccomp_refcounts_exact [OF example_reachable_seccomp(2), of 1 3] f show ?thesis by fastforce
qed

end
