(* ===== verification/Landlock.thy ===== *)
theory Landlock
  imports Seccomp "HOL-Library.Sublist"
begin

text \<open>
  The Landlock sandbox, \<^verbatim>\<open>kernel/fs/landlock.c\<close> with the rights and limits of
  \<^verbatim>\<open>landlock.h\<close>, and the function of \<^verbatim>\<open>kernel/fs/vfs.c\<close> that writes down the path of
  a node, \<open>vfs_get_node_path\<close>.

  \<^item> Rulesets and domains live in two heaps, maps from addresses; reading or
    writing a freed address is \<open>Wild\<close>, a failed assertion \<open>Panic\<close>. The counts are
    integers and do not wrap. A domain is one layer on top of its parent; a task
    points to its newest one through \<open>g_task_domain\<close>.
  \<^item> The path walk of the VFS is a parameter, a \<open>path_view\<close>: the tree of nodes and
    the results of \<open>vfs_resolve_path\<close>, \<open>vfs_find_node\<close> and \<open>vfs_find_node_by_fd\<close>. The
    addresses the allocator returns, its failures, user memory and the kind of a
    descriptor are arguments.
  \<^item> Every call is one step of \<open>ll_step\<close>. The dispatch by number in
    \<open>landlock_syscall\<close> is left out.
  \<^item> The reference chain of the domains interprets \<open>ref_chain\<close> as \<open>dm\<close>, like the one of
    the system call filters. The invariant adds the depth of a domain, its
    snapshot, and that the rules hold canonical paths.
  \<^item> Shown: what a check means, name by name along the path; that a restriction
    is never lifted; and that the counts are exact, with no use after free and
    no leak.
\<close>

unbundle bit_operations_syntax

section \<open>Paths of nodes\<close>

definition VFS_MAX_PATH :: nat where "VFS_MAX_PATH = 256"

text \<open>
  The part of the VFS that names a node: the \<open>parent\<close> and \<open>name\<close> of every node, the
  node a mounted root covers (\<open>vfs_mount_point_of\<close>), the root of the calling task
  and the root of the tree of detached mounts.
\<close>

record vfs_tree =
  vn_parent :: "nat \<Rightarrow> nat option"
  vn_name :: "nat \<Rightarrow> string"
  vn_mount_point :: "nat \<Rightarrow> nat option"
  task_root :: "nat option"
  detached_root :: "nat option"

text \<open>
  The walk up from a node in \<open>vfs_get_node_path\<close>: at most 256 steps, at most 128
  nodes collected, up to the root of the caller or a node without a parent.
\<close>

fun node_walk :: "vfs_tree \<Rightarrow> nat \<Rightarrow> nat \<Rightarrow> nat option \<Rightarrow> nat list" where
  "node_walk t 0 room cur = []"
| "node_walk t (Suc steps) room None = []"
| "node_walk t (Suc steps) room (Some c) =
     (if room = 0 then []
      else if task_root t = Some c then []
      else case vn_mount_point t c of
        Some mp \<Rightarrow> node_walk t steps room (Some mp)
      | None \<Rightarrow>
          c # (if vn_parent t c = Some c \<or> vn_parent t c = None then []
               else node_walk t steps (room - 1) (vn_parent t c)))"

fun add_names :: "vfs_tree \<Rightarrow> nat \<Rightarrow> nat list \<Rightarrow> string \<Rightarrow> string result" where
  "add_names t buf_len [] buf = Inr buf"
| "add_names t buf_len (n # ns) buf =
     (if vn_parent t n = None then add_names t buf_len ns buf
      else if length buf + length (vn_name t n) + 2 > buf_len then Inl ENAMETOOLONG
      else add_names t buf_len ns (buf @ CHR ''/'' # vn_name t n))"

definition vfs_get_node_path :: "vfs_tree \<Rightarrow> nat option \<Rightarrow> nat \<Rightarrow> string result" where
  "vfs_get_node_path t node buf_len =
     (if node = None \<or> buf_len = 0 then Inl EINVAL
      else let path_nodes = node_walk t 256 128 node;
               detached = (path_nodes \<noteq> [] \<and> Some (last path_nodes) = detached_root t) in
        if detached \<and> 17 > buf_len then Inl ENAMETOOLONG
        else case add_names t buf_len (rev path_nodes) (if detached then ''/.b1nix-detached'' else []) of
          Inl e \<Rightarrow> Inl e
        | Inr [] \<Rightarrow> Inr ''/''
        | Inr buf \<Rightarrow> Inr buf)"

section \<open>State\<close>

definition LANDLOCK_ABI_VERSION :: nat where "LANDLOCK_ABI_VERSION = 3"
definition PAGE_SIZE :: u64 where "PAGE_SIZE = 4096"
definition LANDLOCK_MAX_LAYERS :: nat where "LANDLOCK_MAX_LAYERS = 16"
definition LANDLOCK_MAX_RULES :: nat where "LANDLOCK_MAX_RULES = 1024"
definition LANDLOCK_CREATE_RULESET_VERSION :: u64 where "LANDLOCK_CREATE_RULESET_VERSION = 1"
definition LANDLOCK_RULE_PATH_BENEATH :: u64 where "LANDLOCK_RULE_PATH_BENEATH = 1"

definition LL_EXECUTE :: u64 where "LL_EXECUTE = 0x1"
definition LL_WRITE_FILE :: u64 where "LL_WRITE_FILE = 0x2"
definition LL_READ_FILE :: u64 where "LL_READ_FILE = 0x4"
definition LL_READ_DIR :: u64 where "LL_READ_DIR = 0x8"
definition LL_REMOVE_DIR :: u64 where "LL_REMOVE_DIR = 0x10"
definition LL_REMOVE_FILE :: u64 where "LL_REMOVE_FILE = 0x20"
definition LL_MAKE_DIR :: u64 where "LL_MAKE_DIR = 0x80"
definition LL_MAKE_REG :: u64 where "LL_MAKE_REG = 0x100"
definition LL_REFER :: u64 where "LL_REFER = 0x2000"
definition LL_TRUNCATE :: u64 where "LL_TRUNCATE = 0x4000"
definition LL_ACCESS_FS_ALL :: u64 where "LL_ACCESS_FS_ALL = 0x7fff"
definition LL_ACCESS_FILE :: u64 where
  "LL_ACCESS_FILE = LL_EXECUTE OR LL_WRITE_FILE OR LL_READ_FILE OR LL_TRUNCATE"

record ll_rule =
  lr_path :: string
  lr_access :: u64

record ll_ruleset =
  rs_refs :: int
  handled_fs :: u64
  rs_rules :: "ll_rule list"

record ll_domain =
  d_refs :: int
  d_parent :: "nat option"
  d_depth :: nat
  d_layer :: nat

type_synonym domain_heap = "nat \<rightharpoonup> ll_domain"
type_synonym ruleset_heap = "nat \<rightharpoonup> ll_ruleset"

text \<open>
  \<open>g_task_domain\<close> is the table that the first ruleset allocates, with
  \<open>g_domain_rows\<close> rows; \<open>ll_handles\<close> are the rulesets that an open descriptor owns.
\<close>

record ll_state =
  ll_domains :: domain_heap
  ll_rulesets :: ruleset_heap
  g_task_domain :: "nat option table option"
  g_domain_rows :: nat
  ll_handles :: "nat set"

definition ruleset_put :: "nat \<Rightarrow> ruleset_heap \<Rightarrow> ruleset_heap mem_result" where
  "ruleset_put a rss =
     (case rss a of
        None \<Rightarrow> Wild
      | Some rs \<Rightarrow>
          let left = rs_refs rs - 1 in
          if \<not> left \<ge> 0 then Panic
          else if left = 0 then Fine (rss(a := None))
          else Fine (rss(a \<mapsto> rs\<lparr>rs_refs := left\<rparr>)))"

definition domain_put_step ::
    "domain_heap \<times> ruleset_heap \<times> nat option
     \<Rightarrow> (domain_heap \<times> ruleset_heap) mem_result + domain_heap \<times> ruleset_heap \<times> nat option" where
  "domain_put_step s =
     (case s of
        (h, rss, None) \<Rightarrow> Inl (Fine (h, rss))
      | (h, rss, Some a) \<Rightarrow>
          stepped (case h a of
             None \<Rightarrow> Wild
           | Some d \<Rightarrow>
               let left = d_refs d - 1 in
               if left \<noteq> 0 then Fine (Inl (h(a \<mapsto> d\<lparr>d_refs := left\<rparr>), rss))
               else mem_bind (ruleset_put (d_layer d) rss)
                      (\<lambda>rss'. Fine (Inr (h(a := None), rss', d_parent d)))))"

definition domain_put :: "nat option \<Rightarrow> ll_state \<Rightarrow> ll_state mem_result" where
  "domain_put d st =
     mem_bind (returned (loop domain_put_step (ll_domains st, ll_rulesets st, d)))
       (\<lambda>(h, rss). Fine (st\<lparr>ll_domains := h, ll_rulesets := rss\<rparr>))"

definition domain_get_task :: "nat \<Rightarrow> ll_state \<Rightarrow> (nat option \<times> ll_state) mem_result" where
  "domain_get_task row st =
     (case g_task_domain st of
        None \<Rightarrow> Fine (None, st)
      | Some T \<Rightarrow>
          if row \<ge> g_domain_rows st then Fine (None, st)
          else case T row of
            None \<Rightarrow> Fine (None, st)
          | Some a \<Rightarrow>
              (case ll_domains st a of
                 None \<Rightarrow> Wild
               | Some d \<Rightarrow> Fine (Some a, st\<lparr>ll_domains := (ll_domains st)(a \<mapsto> d\<lparr>d_refs := d_refs d + 1\<rparr>)\<rparr>)))"

definition domain_current :: "nat option \<Rightarrow> ll_state \<Rightarrow> (nat option \<times> ll_state) mem_result" where
  "domain_current current st =
     (case current of
        None \<Rightarrow> Fine (None, st)
      | Some row \<Rightarrow> if g_task_domain st = None then Fine (None, st) else domain_get_task row st)"

definition swap_row :: "nat \<Rightarrow> nat option \<Rightarrow> ll_state \<Rightarrow> ll_state mem_result" where
  "swap_row row d st =
     (case g_task_domain st of
        None \<Rightarrow> Wild
      | Some T \<Rightarrow>
          if row \<ge> g_domain_rows st then Wild
          else domain_put (T row) (st\<lparr>g_task_domain := Some (T(row := d))\<rparr>))"

definition landlock_fork :: "nat \<Rightarrow> nat \<Rightarrow> ll_state \<Rightarrow> ll_state mem_result" where
  "landlock_fork parent_row child_row st =
     mem_bind (domain_get_task parent_row st) (\<lambda>(d, st1).
       if g_task_domain st1 = None \<or> child_row \<ge> g_domain_rows st1 then domain_put d st1
       else swap_row child_row d st1)"

definition landlock_task_reset :: "nat \<Rightarrow> ll_state \<Rightarrow> ll_state mem_result" where
  "landlock_task_reset row st =
     (if g_task_domain st = None \<or> row \<ge> g_domain_rows st then Fine st else swap_row row None st)"

section \<open>Checks\<close>

text \<open>
  What the path walk of the VFS gives: \<open>pv_resolve\<close> is \<open>vfs_resolve_path\<close>, \<open>pv_find\<close>
  \<open>vfs_find_node\<close>, \<open>pv_by_fd\<close> \<open>vfs_find_node_by_fd\<close>, \<open>pv_is_dir\<close> the type of a node.
\<close>

record path_view =
  pv_tree :: vfs_tree
  pv_resolve :: "string \<Rightarrow> string"
  pv_find :: "string \<Rightarrow> nat result"
  pv_by_fd :: "int \<Rightarrow> nat result"
  pv_is_dir :: "nat \<Rightarrow> bool"

definition ll_canon_existing :: "path_view \<Rightarrow> string \<Rightarrow> string result" where
  "ll_canon_existing pv path =
     (case pv_find pv path of
        Inl e \<Rightarrow> Inl e
      | Inr n \<Rightarrow> vfs_get_node_path (pv_tree pv) (Some n) VFS_MAX_PATH)"

function strip_slashes :: "string \<Rightarrow> string" where
  "strip_slashes r = (if length r > 1 \<and> last r = CHR ''/'' then strip_slashes (butlast r) else r)"
  by auto
termination strip_slashes
  by (relation "measure length") auto

declare strip_slashes.simps [simp del]

definition strrchr_slash :: "string \<Rightarrow> nat option" where
  "strrchr_slash r = find (\<lambda>i. r ! i = CHR ''/'') (rev [0..<length r])"

definition ll_canon_parent :: "path_view \<Rightarrow> string \<Rightarrow> string result" where
  "ll_canon_parent pv path =
     (let r = strip_slashes (pv_resolve pv path) in
      case strrchr_slash r of
        None \<Rightarrow> Inl ENOENT
      | Some slash \<Rightarrow> ll_canon_existing pv (if slash = 0 then take 1 r else take slash r))"

definition ll_beneath :: "string \<Rightarrow> string \<Rightarrow> bool" where
  "ll_beneath path root =
     (let rl = length root in
      if rl = 1 \<and> root ! 0 = CHR ''/'' then True
      else take rl path = root \<and> (length path = rl \<or> path ! rl = CHR ''/''))"

definition rules_granted :: "string \<Rightarrow> ll_rule list \<Rightarrow> u64" where
  "rules_granted canon rules = fold (\<lambda>r g. if ll_beneath canon (lr_path r) then g OR lr_access r else g) rules 0"

definition layer_check :: "ll_ruleset \<Rightarrow> string \<Rightarrow> u64 \<Rightarrow> bool" where
  "layer_check rs canon access =
     (let need = access AND handled_fs rs in need = 0 \<or> need AND NOT (rules_granted canon (rs_rules rs)) = 0)"

definition ll_check_step ::
    "ll_state \<Rightarrow> string \<Rightarrow> u64 \<Rightarrow> nat option \<Rightarrow> unit result mem_result + nat option" where
  "ll_check_step st canon access p =
     (case p of
        None \<Rightarrow> Inl (Fine (Inr ()))
      | Some a \<Rightarrow>
          (case ll_domains st a of
             None \<Rightarrow> Inl Wild
           | Some d \<Rightarrow>
               (case ll_rulesets st (d_layer d) of
                  None \<Rightarrow> Inl Wild
                | Some rs \<Rightarrow>
                    if layer_check rs canon access then Inr (d_parent d) else Inl (Fine (Inl EACCES)))))"

definition ll_check_canon :: "ll_state \<Rightarrow> nat option \<Rightarrow> string \<Rightarrow> u64 \<Rightarrow> unit result mem_result" where
  "ll_check_canon st d canon access = returned (loop (ll_check_step st canon access) d)"

text \<open>The frame of a check: take the domain of the current task, decide, drop it.\<close>

definition with_domain ::
    "nat option \<Rightarrow> (ll_state \<Rightarrow> nat option \<Rightarrow> unit result mem_result) \<Rightarrow> ll_state \<Rightarrow> (unit result \<times> ll_state) mem_result" where
  "with_domain current decide st =
     mem_bind (domain_current current st) (\<lambda>(d, st1).
       if d = None then Fine (Inr (), st1)
       else mem_bind (decide st1 d) (\<lambda>rc. mem_bind (domain_put d st1) (\<lambda>st2. Fine (rc, st2))))"

definition check_unless_missing :: "string result \<Rightarrow> u64 \<Rightarrow> ll_state \<Rightarrow> nat option \<Rightarrow> unit result mem_result" where
  "check_unless_missing canon access st d =
     (case canon of
        Inr c \<Rightarrow> ll_check_canon st d c access
      | Inl e \<Rightarrow> if e = ENOENT then Fine (Inr ()) else Fine (Inl e))"

definition landlock_check_path ::
    "path_view \<Rightarrow> nat option \<Rightarrow> string \<Rightarrow> u64 \<Rightarrow> ll_state \<Rightarrow> (unit result \<times> ll_state) mem_result" where
  "landlock_check_path pv current path access =
     with_domain current (check_unless_missing (ll_canon_existing pv path) access)"

definition landlock_check_parent ::
    "path_view \<Rightarrow> nat option \<Rightarrow> string \<Rightarrow> u64 \<Rightarrow> ll_state \<Rightarrow> (unit result \<times> ll_state) mem_result" where
  "landlock_check_parent pv current path access =
     with_domain current (check_unless_missing (ll_canon_parent pv path) access)"


definition decide_open :: "path_view \<Rightarrow> string \<Rightarrow> u32 \<Rightarrow> ll_state \<Rightarrow> nat option \<Rightarrow> unit result mem_result" where
  "decide_open pv path flags st d =
     (let acc = flags AND 3;
          access = (if acc = B1NIX_O_WRONLY \<or> acc = B1NIX_O_RDWR then LL_WRITE_FILE else 0)
                   OR (if flags AND B1NIX_O_TRUNC \<noteq> 0 then LL_TRUNCATE else 0);
          reads = (acc = B1NIX_O_RDONLY \<or> acc = B1NIX_O_RDWR) in
      case pv_find pv path of
        Inr n \<Rightarrow>
          (let access = access OR (if reads then if pv_is_dir pv n then LL_READ_DIR else LL_READ_FILE else 0) in
           case vfs_get_node_path (pv_tree pv) (Some n) VFS_MAX_PATH of
             Inl e \<Rightarrow> Fine (Inl e)
           | Inr canon \<Rightarrow> if access \<noteq> 0 then ll_check_canon st d canon access else Fine (Inr ()))
      | Inl e \<Rightarrow>
          if flags AND B1NIX_O_CREAT \<noteq> 0 then
            check_unless_missing (ll_canon_parent pv path)
              ((access OR (if reads then LL_READ_FILE else 0)) OR LL_MAKE_REG) st d
          else Fine (Inr ()))"

definition landlock_check_open ::
    "path_view \<Rightarrow> nat option \<Rightarrow> string \<Rightarrow> u32 \<Rightarrow> ll_state \<Rightarrow> (unit result \<times> ll_state) mem_result" where
  "landlock_check_open pv current path flags st =
     (if g_task_domain st = None \<or> flags AND B1NIX_O_PATH \<noteq> 0 then Fine (Inr (), st)
      else with_domain current (decide_open pv path flags) st)"

definition decide_move ::
    "path_view \<Rightarrow> string \<Rightarrow> string \<Rightarrow> bool \<Rightarrow> bool \<Rightarrow> ll_state \<Rightarrow> nat option \<Rightarrow> unit result mem_result" where
  "decide_move pv old_path new_path is_dir is_link st d =
     (case ll_canon_parent pv old_path of
        Inl e \<Rightarrow> Fine (Inr ())
      | Inr op \<Rightarrow>
          (case ll_canon_parent pv new_path of
             Inl e \<Rightarrow> Fine (Inr ())
           | Inr np \<Rightarrow>
               mem_bind (if is_link then Fine (Inr ())
                         else ll_check_canon st d op (if is_dir then LL_REMOVE_DIR else LL_REMOVE_FILE)) (\<lambda>rc.
               if rc \<noteq> Inr () then Fine rc
               else mem_bind (ll_check_canon st d np (if is_dir then LL_MAKE_DIR else LL_MAKE_REG)) (\<lambda>rc.
               if rc \<noteq> Inr () then Fine rc
               else if op = np then Fine (Inr ())
               else mem_bind (ll_check_canon st d op LL_REFER) (\<lambda>rc.
               if rc \<noteq> Inr () then Fine (Inl EXDEV)
               else mem_bind (ll_check_canon st d np LL_REFER) (\<lambda>rc.
               if rc \<noteq> Inr () then Fine (Inl EXDEV) else Fine (Inr ())))))))"

definition landlock_check_move ::
    "path_view \<Rightarrow> nat option \<Rightarrow> string \<Rightarrow> string \<Rightarrow> bool \<Rightarrow> bool \<Rightarrow> ll_state \<Rightarrow> (unit result \<times> ll_state) mem_result" where
  "landlock_check_move pv current old_path new_path is_dir is_link =
     with_domain current (decide_move pv old_path new_path is_dir is_link)"


section \<open>System calls\<close>

text \<open>
  What a descriptor names, for \<open>ruleset_from_fd\<close>: nothing, another kind of object
  or a ruleset. User memory is the byte at an address, \<^term>\<open>None\<close> where the
  read faults.
\<close>

datatype ll_fd = NoHandle | OtherHandle | RulesetHandle nat

type_synonym user_bytes = "u64 \<Rightarrow> u8 option"

definition copyin_bytes :: "user_bytes \<Rightarrow> u64 \<Rightarrow> nat \<Rightarrow> u8 list option" where
  "copyin_bytes um p n = those (map (\<lambda>i. um (p + of_nat i)) [0..<n])"

definition le_word :: "u8 list \<Rightarrow> u64" where
  "le_word bs = foldr (\<lambda>b w. ucast b OR push_bit 8 w) bs 0"

text \<open>The bytes behind the known attributes must be zero.\<close>

fun attr_tail :: "user_bytes \<Rightarrow> u64 \<Rightarrow> nat list \<Rightarrow> unit result" where
  "attr_tail um uattr [] = Inr ()"
| "attr_tail um uattr (off # offs) =
     (case um (uattr + of_nat off) of
        None \<Rightarrow> Inl EFAULT
      | Some b \<Rightarrow> if b \<noteq> 0 then Inl E2BIG else attr_tail um uattr offs)"

definition ruleset_from_fd :: "ll_fd \<Rightarrow> nat result" where
  "ruleset_from_fd h = (case h of NoHandle \<Rightarrow> Inl EBADF | OtherHandle \<Rightarrow> Inl EBADFD | RulesetHandle a \<Rightarrow> Inr a)"

definition ruleset_release :: "nat \<Rightarrow> ll_state \<Rightarrow> ll_state mem_result" where
  "ruleset_release a st =
     mem_bind (ruleset_put a (ll_rulesets st)) (\<lambda>rss.
       Fine (st\<lparr>ll_rulesets := rss, ll_handles := ll_handles st - {a}\<rparr>))"

text \<open>
  The three results of allocation: the table of domains, the ruleset (its
  address) and the handle, then the descriptor the task gets.
\<close>

record ll_alloc =
  la_table :: bool
  la_ruleset :: "nat option"
  la_handle :: bool
  la_fd :: "nat result"

definition ll_new_ruleset :: "ll_alloc \<Rightarrow> nat \<Rightarrow> u64 \<Rightarrow> ll_state \<Rightarrow> (nat result \<times> ll_state) mem_result" where
  "ll_new_ruleset al slots handled st =
     (if g_task_domain st = None \<and> \<not> la_table al then Fine (Inl ENOMEM, st)
      else let st1 = (if g_task_domain st = None
                      then st\<lparr>g_task_domain := Some (\<lambda>_. None), g_domain_rows := slots\<rparr> else st) in
        case la_ruleset al of
          None \<Rightarrow> Fine (Inl ENOMEM, st1)
        | Some a \<Rightarrow>
            if \<not> la_handle al then Fine (Inl ENFILE, st1)
            else let st2 = st1\<lparr>ll_rulesets := (ll_rulesets st1)(a \<mapsto> \<lparr>rs_refs = 1, handled_fs = handled, rs_rules = []\<rparr>),
                               ll_handles := insert a (ll_handles st1)\<rparr> in
              (case la_fd al of
                 Inl e \<Rightarrow> mem_bind (ruleset_release a st2) (\<lambda>st3. Fine (Inl e, st3))
               | Inr fd \<Rightarrow> Fine (Inr fd, st2)))"

definition ll_create_ruleset ::
    "user_bytes \<Rightarrow> ll_alloc \<Rightarrow> nat \<Rightarrow> u64 \<Rightarrow> u64 \<Rightarrow> u64 \<Rightarrow> ll_state \<Rightarrow> (nat result \<times> ll_state) mem_result" where
  "ll_create_ruleset um al slots uattr sz flags st =
     (if flags = LANDLOCK_CREATE_RULESET_VERSION then
        Fine (if uattr \<noteq> 0 \<or> sz \<noteq> 0 then Inl EINVAL else Inr LANDLOCK_ABI_VERSION, st)
      else if flags \<noteq> 0 then Fine (Inl EINVAL, st)
      else if uattr = 0 then Fine (Inl EFAULT, st)
      else if sz < 8 then Fine (Inl EINVAL, st)
      else if sz > PAGE_SIZE then Fine (Inl E2BIG, st)
      else case copyin_bytes um uattr (min (unat sz) 24) of
        None \<Rightarrow> Fine (Inl EFAULT, st)
      | Some bs \<Rightarrow>
          (let attr = bs @ replicate (24 - length bs) 0 in
           case attr_tail um uattr [24..<unat sz] of
             Inl e \<Rightarrow> Fine (Inl e, st)
           | Inr _ \<Rightarrow>
               if le_word (take 8 attr) AND NOT LL_ACCESS_FS_ALL \<noteq> 0 then Fine (Inl EINVAL, st)
               else if le_word (take 8 (drop 8 attr)) \<noteq> 0 \<or> le_word (drop 16 attr) \<noteq> 0 then Fine (Inl EINVAL, st)
               else if le_word (take 8 attr) = 0 then Fine (Inl ENOMSG, st)
               else ll_new_ruleset al slots (le_word (take 8 attr)) st))"

definition ll_add_rule ::
    "path_view \<Rightarrow> user_bytes \<Rightarrow> bool \<Rightarrow> ll_fd \<Rightarrow> u64 \<Rightarrow> u64 \<Rightarrow> u64 \<Rightarrow> ll_state \<Rightarrow> (nat result \<times> ll_state) mem_result" where
  "ll_add_rule pv um alloc_path rfd rtype uattr flags st =
     (if flags \<noteq> 0 then Fine (Inl EINVAL, st)
      else case ruleset_from_fd rfd of
        Inl e \<Rightarrow> Fine (Inl e, st)
      | Inr a \<Rightarrow>
          if rtype \<noteq> LANDLOCK_RULE_PATH_BENEATH then Fine (Inl EINVAL, st)
          else case copyin_bytes um uattr 12 of
            None \<Rightarrow> Fine (Inl EFAULT, st)
          | Some bs \<Rightarrow>
              (let allowed = le_word (take 8 bs); parent_fd = sint (ucast (le_word (drop 8 bs)) :: u32) in
               if allowed = 0 then Fine (Inl ENOMSG, st)
               else case ll_rulesets st a of
                 None \<Rightarrow> Wild
               | Some rs \<Rightarrow>
                   if allowed AND NOT (handled_fs rs) \<noteq> 0 then Fine (Inl EINVAL, st)
                   else case pv_by_fd pv parent_fd of
                     Inl e \<Rightarrow> Fine (Inl EBADF, st)
                   | Inr n \<Rightarrow>
                       (case vfs_get_node_path (pv_tree pv) (Some n) VFS_MAX_PATH of
                          Inl e \<Rightarrow> Fine (Inl e, st)
                        | Inr canon \<Rightarrow>
                            if \<not> pv_is_dir pv n \<and> allowed AND NOT LL_ACCESS_FILE \<noteq> 0 then Fine (Inl EINVAL, st)
                            else if length (rs_rules rs) \<ge> LANDLOCK_MAX_RULES then Fine (Inl E2BIG, st)
                            else if \<not> alloc_path then Fine (Inl ENOMEM, st)
                            else Fine (Inr 0, st\<lparr>ll_rulesets := (ll_rulesets st)(a \<mapsto>
                                   rs\<lparr>rs_rules := rs_rules rs @ [\<lparr>lr_path = canon, lr_access = allowed\<rparr>]\<rparr>)\<rparr>))))"

text \<open>
  The end of \<open>ll_restrict_self\<close>: the snapshot, of which \<open>copies\<close> paths find memory,
  and the new domain on top of \<open>cur\<close>, whose reference it takes over.
\<close>

definition ll_install :: "nat \<Rightarrow> nat \<Rightarrow> nat \<Rightarrow> nat \<Rightarrow> nat \<Rightarrow> nat option \<Rightarrow> ll_state \<Rightarrow> ll_state mem_result" where
  "ll_install src snap d copies row cur st =
     (case ll_rulesets st src of
        None \<Rightarrow> Wild
      | Some rs \<Rightarrow>
          mem_bind (case cur of
                      None \<Rightarrow> Fine 1
                    | Some c \<Rightarrow> (case ll_domains st c of None \<Rightarrow> Wild | Some k \<Rightarrow> Fine (d_depth k + 1))) (\<lambda>depth.
          if length (take copies (rs_rules rs)) > LANDLOCK_MAX_RULES then Wild
          else swap_row row (Some d)
            (st\<lparr>ll_rulesets := (ll_rulesets st)(snap \<mapsto>
                  \<lparr>rs_refs = 1, handled_fs = handled_fs rs, rs_rules = take copies (rs_rules rs)\<rparr>),
                ll_domains := (ll_domains st)(d \<mapsto> \<lparr>d_refs = 1, d_parent = cur, d_depth = depth, d_layer = snap\<rparr>)\<rparr>)))"

definition ll_restrict_self ::
    "ns_state \<Rightarrow> seccomp_state \<Rightarrow> cred option \<Rightarrow> nat option \<Rightarrow> nat option \<Rightarrow> nat \<Rightarrow> nat \<Rightarrow> ll_fd \<Rightarrow> u64 \<Rightarrow> ll_state
     \<Rightarrow> (nat result \<times> ll_state) mem_result" where
  "ll_restrict_self ns sec co snap_alloc dom_alloc copies row rfd flags st =
     (if flags \<noteq> 0 then Fine (Inl EINVAL, st)
      else if \<not> task_no_new_privs sec (Some row)
              \<and> \<not> (co \<noteq> None \<and> ns_capable_cred ns co (cred_userns co) CAP_SYS_ADMIN)
      then Fine (Inl EPERM, st)
      else case ruleset_from_fd rfd of
        Inl e \<Rightarrow> Fine (Inl e, st)
      | Inr src \<Rightarrow>
          mem_bind (domain_current (Some row) st) (\<lambda>(cur, st1).
          if (case cur of None \<Rightarrow> False | Some c \<Rightarrow> d_depth (the (ll_domains st1 c)) \<ge> LANDLOCK_MAX_LAYERS)
          then mem_bind (domain_put cur st1) (\<lambda>st2. Fine (Inl E2BIG, st2))
          else case (snap_alloc, dom_alloc) of
            (Some snap, Some d) \<Rightarrow> mem_bind (ll_install src snap d copies row cur st1) (\<lambda>st2. Fine (Inr 0, st2))
          | _ \<Rightarrow> mem_bind (domain_put cur st1) (\<lambda>st2. Fine (Inl ENOMEM, st2))))"


section \<open>Canonical paths\<close>

text \<open>A canonical path is \<open>/\<close> or a sequence of names with a slash before each.\<close>

definition names_ok :: "string list \<Rightarrow> bool" where
  "names_ok cs \<longleftrightarrow> list_all (\<lambda>c. c \<noteq> [] \<and> CHR ''/'' \<notin> set c) cs"

definition join_names :: "string list \<Rightarrow> string" where
  "join_names cs = concat (map (\<lambda>c. CHR ''/'' # c) cs)"

definition path_string :: "string list \<Rightarrow> string" where
  "path_string cs = (if cs = [] then ''/'' else join_names cs)"

lemma join_names_simps [simp]:
  "join_names [] = []" "join_names (c # cs) = CHR ''/'' # c @ join_names cs" "join_names (cs @ ds) = join_names cs @ join_names ds"
  by (simp_all add: join_names_def)

lemma names_ok_simps [simp]:
  "names_ok []" "names_ok (c # cs) \<longleftrightarrow> c \<noteq> [] \<and> CHR ''/'' \<notin> set c \<and> names_ok cs"
  "names_ok (cs @ ds) \<longleftrightarrow> names_ok cs \<and> names_ok ds"
  by (simp_all add: names_ok_def)

lemma join_names_cases: "join_names cs = [] \<longleftrightarrow> cs = []" "join_names cs = x # xs \<Longrightarrow> x = CHR ''/''"
  by (cases cs; simp)+

text \<open>The text before the next slash is the first name.\<close>

lemma first_name:
  assumes "c @ xs = d @ ys" "CHR ''/'' \<notin> set c" "CHR ''/'' \<notin> set d"
    "xs = [] \<or> hd xs = CHR ''/''" "ys = [] \<or> hd ys = CHR ''/''"
  shows "c = d \<and> xs = ys"
  using assms
proof (induction c arbitrary: d)
  case Nil
  then show ?case by (cases d) auto
next
  case (Cons x c)
  then show ?case by (cases d) auto
qed

lemma join_names_prefix:
  assumes "names_ok ps" "names_ok rs"
  shows "(\<exists>zs. join_names ps = join_names rs @ zs \<and> (zs = [] \<or> hd zs = CHR ''/'')) \<longleftrightarrow> prefix rs ps"
  using assms
proof (induction rs arbitrary: ps)
  case Nil
  have "join_names ps = [] \<or> hd (join_names ps) = CHR ''/''" by (cases ps) auto
  then show ?case by simp
next
  case (Cons r rs)
  show ?case
  proof (cases ps)
    case (Cons p qs)
    note pq = Cons
    have hd_join: "join_names ds = [] \<or> hd (join_names ds) = CHR ''/''" for ds by (cases ds) auto
    have hd2: "(xs = [] \<or> hd xs = CHR ''/'') \<Longrightarrow> join_names rs @ xs = [] \<or> hd (join_names rs @ xs) = CHR ''/''" for xs
      by (cases rs) auto
    have "(\<exists>zs. join_names ps = join_names (r # rs) @ zs \<and> (zs = [] \<or> hd zs = CHR ''/''))
        \<longleftrightarrow> p = r \<and> (\<exists>zs. join_names qs = join_names rs @ zs \<and> (zs = [] \<or> hd zs = CHR ''/''))"
      using first_name [of p "join_names qs" r] Cons.prems pq hd_join [of qs] hd2 by fastforce
    then show ?thesis using Cons.IH [of qs] Cons.prems pq by auto
  qed simp
qed

lemma ll_beneath_prefix:
  assumes "names_ok ps" "names_ok rs"
  shows "ll_beneath (path_string ps) (path_string rs) \<longleftrightarrow> prefix rs ps"
proof (cases "rs = []")
  case True
  then show ?thesis by (simp add: ll_beneath_def path_string_def)
next
  case False
  then obtain r rs' where rs: "rs = r # rs'" by (cases rs) auto
  have len: "length (join_names rs) \<noteq> 1" using assms(2) rs by simp
  have split: "take (length x) y = x \<and> (length y = length x \<or> y ! length x = CHR ''/'')
      \<longleftrightarrow> (\<exists>zs. y = x @ zs \<and> (zs = [] \<or> hd zs = CHR ''/''))" for x y :: string
  proof
    assume a: "take (length x) y = x \<and> (length y = length x \<or> y ! length x = CHR ''/'')"
    then have y: "y = x @ drop (length x) y" by (metis append_take_drop_id)
    then have "drop (length x) y = [] \<or> hd (drop (length x) y) = CHR ''/''"
      using a by (cases "drop (length x) y = []") (auto simp: hd_drop_conv_nth)
    then show "\<exists>zs. y = x @ zs \<and> (zs = [] \<or> hd zs = CHR ''/'')" using y by blast
  next
    assume "\<exists>zs. y = x @ zs \<and> (zs = [] \<or> hd zs = CHR ''/'')"
    then obtain zs where "y = x @ zs" "zs = [] \<or> hd zs = CHR ''/''" by blast
    then show "take (length x) y = x \<and> (length y = length x \<or> y ! length x = CHR ''/'')"
      by (cases zs) (auto simp: nth_append)
  qed
  have "ll_beneath (path_string ps) (join_names rs) \<longleftrightarrow>
      (\<exists>zs. path_string ps = join_names rs @ zs \<and> (zs = [] \<or> hd zs = CHR ''/''))"
    using len by (simp add: ll_beneath_def Let_def split)
  also have "\<dots> \<longleftrightarrow> prefix rs ps"
  proof (cases "ps = []")
    case True
    have "''/'' \<noteq> join_names rs @ zs" for zs using assms(2) rs by auto
    then show ?thesis using True False by (simp add: path_string_def)
  next
    case False
    then show ?thesis using join_names_prefix [OF assms] by (simp add: path_string_def)
  qed
  finally show ?thesis using False by (simp add: path_string_def)
qed

text \<open>The paths of nodes are canonical when the names in the tree are.\<close>

definition tree_names_ok :: "vfs_tree \<Rightarrow> bool" where
  "tree_names_ok t \<longleftrightarrow> (\<forall>n. vn_parent t n \<noteq> None \<longrightarrow> names_ok [vn_name t n])"

lemma add_names_canonical:
  assumes "tree_names_ok t" "names_ok cs" "add_names t k ns (join_names cs) = Inr buf"
  shows "\<exists>ds. names_ok ds \<and> buf = join_names ds"
  using assms(2,3)
proof (induction ns arbitrary: cs)
  case (Cons n ns)
  show ?case
  proof (cases "vn_parent t n = None")
    case False
    then have "names_ok (cs @ [vn_name t n])" using Cons.prems(1) assms(1) by (simp add: tree_names_ok_def)
    from Cons.IH [OF this] show ?thesis using Cons.prems(2) False by (auto split: if_splits)
  qed (use Cons in auto)
qed auto

lemma vfs_get_node_path_canonical:
  assumes "tree_names_ok t" "vfs_get_node_path t n k = Inr p"
  shows "\<exists>cs. names_ok cs \<and> p = path_string cs"
proof -
  obtain cs ns buf where cs: "names_ok cs" "add_names t k ns (join_names cs) = Inr buf" "p = (if buf = [] then ''/'' else buf)"
  proof -
    have d: "join_names [''.b1nix-detached''] = ''/.b1nix-detached''" "names_ok [''.b1nix-detached'']" by simp_all
    show ?thesis
      using assms(2) that [of "[]"] that [of "[''.b1nix-detached'']"] d
      by (auto simp: vfs_get_node_path_def Let_def split: if_splits sum.splits list.splits)
  qed
  obtain ds where ds: "names_ok ds" "buf = join_names ds" using add_names_canonical [OF assms(1) cs(1,2)] by blast
  then have "p = path_string ds" using cs(3) join_names_cases(1) [of ds] by (simp add: path_string_def)
  then show ?thesis using ds(1) by blast
qed

section \<open>Layers\<close>

lemma bit_rules_granted:
  "bit (rules_granted canon rules) i \<longleftrightarrow> (\<exists>r\<in>set rules. ll_beneath canon (lr_path r) \<and> bit (lr_access r) i)"
proof -
  have "bit (fold (\<lambda>r g. if ll_beneath canon (lr_path r) then g OR lr_access r else g) rules g) i
      \<longleftrightarrow> bit g i \<or> (\<exists>r\<in>set rules. ll_beneath canon (lr_path r) \<and> bit (lr_access r) i)" for g
    by (induction rules arbitrary: g) (auto simp: bit_or_iff)
  then show ?thesis by (simp add: rules_granted_def)
qed

lemma layer_check_iff:
  "layer_check rs canon access \<longleftrightarrow>
     (\<forall>i. bit access i \<longrightarrow> bit (handled_fs rs) i \<longrightarrow>
        (\<exists>r\<in>set (rs_rules rs). ll_beneath canon (lr_path r) \<and> bit (lr_access r) i))"
proof -
  have "layer_check rs canon access \<longleftrightarrow> (access AND handled_fs rs) AND NOT (rules_granted canon (rs_rules rs)) = 0"
    by (auto simp: layer_check_def Let_def)
  then show ?thesis by (simp add: and_not_0_iff bit_and_iff bit_rules_granted) blast
qed

definition canonical_rules :: "ll_ruleset \<Rightarrow> bool" where
  "canonical_rules rs \<longleftrightarrow> (\<forall>r\<in>set (rs_rules rs). \<exists>cs. names_ok cs \<and> lr_path r = path_string cs)"

interpretation dm: ref_chain d_parent d_refs "\<lambda>n d. d\<lparr>d_refs := n\<rparr>" "\<lambda>d. (d_depth d, d_layer d)" "\<lambda>v. fst v \<le> LANDLOCK_MAX_LAYERS"
  by unfold_locales simp_all


section \<open>Invariant\<close>

text \<open>
  \<open>H\<close> are the rulesets that descriptors own; every other ruleset is the layer of
  exactly one domain.
\<close>

definition layer_inv :: "nat set \<Rightarrow> domain_heap \<Rightarrow> ruleset_heap \<Rightarrow> bool" where
  "layer_inv H h rss \<longleftrightarrow>
     (\<forall>a b d e. h a = Some d \<longrightarrow> h b = Some e \<longrightarrow> d_layer d = d_layer e \<longrightarrow> a = b)
     \<and> (\<forall>a d. h a = Some d \<longrightarrow> d_layer d \<notin> H \<and> rss (d_layer d) \<noteq> None)
     \<and> (\<forall>x. x \<in> H \<longrightarrow> rss x \<noteq> None)
     \<and> (\<forall>x rs. rss x = Some rs \<longrightarrow> rs_refs rs = 1 \<and> length (rs_rules rs) \<le> LANDLOCK_MAX_RULES \<and> canonical_rules rs
          \<and> (x \<in> H \<or> (\<exists>a d. h a = Some d \<and> d_layer d = x)))"

definition depth_inv :: "domain_heap \<Rightarrow> bool" where
  "depth_inv h \<longleftrightarrow> (\<forall>a d. h a = Some d \<longrightarrow>
     d_depth d = (case d_parent d of None \<Rightarrow> 1 | Some b \<Rightarrow> Suc (case h b of None \<Rightarrow> 0 | Some e \<Rightarrow> d_depth e)))"

definition ll_table :: "ll_state \<Rightarrow> nat option table" where
  "ll_table st = (case g_task_domain st of None \<Rightarrow> (\<lambda>_. None) | Some T \<Rightarrow> T)"

definition table_inv :: "nat \<Rightarrow> ll_state \<Rightarrow> bool" where
  "table_inv slots st \<longleftrightarrow> (g_task_domain st = None \<longrightarrow> ll_handles st = {})
     \<and> (g_task_domain st \<noteq> None \<longrightarrow> g_domain_rows st = slots) \<and> (\<forall>t. ll_table st t \<noteq> None \<longrightarrow> t < slots)"

definition ll_inv :: "nat \<Rightarrow> nat option \<Rightarrow> ll_state \<Rightarrow> bool" where
  "ll_inv slots x st \<longleftrightarrow> dm.heap_inv (ll_table st) (ll_domains st) x \<and> depth_inv (ll_domains st)
     \<and> layer_inv (ll_handles st) (ll_domains st) (ll_rulesets st) \<and> table_inv slots st"

lemma layer_invD:
  assumes "layer_inv H h rss"
  shows "h a = Some d \<Longrightarrow> h b = Some e \<Longrightarrow> d_layer d = d_layer e \<Longrightarrow> a = b"
    and "h a = Some d \<Longrightarrow> d_layer d \<notin> H" "h a = Some d \<Longrightarrow> rss (d_layer d) \<noteq> None"
    and "y \<in> H \<Longrightarrow> rss y \<noteq> None"
    and "rss y = Some rs \<Longrightarrow> rs_refs rs = 1" "rss y = Some rs \<Longrightarrow> length (rs_rules rs) \<le> LANDLOCK_MAX_RULES"
    and "rss y = Some rs \<Longrightarrow> canonical_rules rs"
    and "rss y = Some rs \<Longrightarrow> y \<in> H \<or> (\<exists>a d. h a = Some d \<and> d_layer d = y)"
  using assms unfolding layer_inv_def by meson+

lemma layer_invI:
  assumes "\<And>a b d e. h a = Some d \<Longrightarrow> h b = Some e \<Longrightarrow> d_layer d = d_layer e \<Longrightarrow> a = b"
    and "\<And>a d. h a = Some d \<Longrightarrow> d_layer d \<notin> H \<and> rss (d_layer d) \<noteq> None" "\<And>y. y \<in> H \<Longrightarrow> rss y \<noteq> None"
    and "\<And>y rs. rss y = Some rs \<Longrightarrow> rs_refs rs = 1 \<and> length (rs_rules rs) \<le> LANDLOCK_MAX_RULES \<and> canonical_rules rs"
    and "\<And>y rs. rss y = Some rs \<Longrightarrow> y \<in> H \<or> (\<exists>a d. h a = Some d \<and> d_layer d = y)"
  shows "layer_inv H h rss"
  unfolding layer_inv_def using assms by blast

lemma layer_inv_free:
  assumes "layer_inv H h rss" "h a = Some d"
  shows "layer_inv H (h(a := None)) (rss(d_layer d := None))"
proof -
  note i = layer_invD [OF assms(1)]
  have other: "d_layer e \<noteq> d_layer d \<and> b \<noteq> a \<and> h b = Some e" if "(h(a := None)) b = Some e" for b e
    using that i(1) [OF _ assms(2), of b e] by (cases "b = a") auto
  show ?thesis
  proof (rule layer_invI)
    show "b = c" if "(h(a := None)) b = Some e" "(h(a := None)) c = Some f" "d_layer e = d_layer f" for b c e f
      using other [OF that(1)] other [OF that(2)] i(1) that(3) by blast
    show "d_layer e \<notin> H \<and> (rss(d_layer d := None)) (d_layer e) \<noteq> None" if "(h(a := None)) b = Some e" for b e
      using other [OF that] i(2,3) by auto
    show "(rss(d_layer d := None)) y \<noteq> None" if "y \<in> H" for y
      using that i(4) [OF that] i(2) [OF assms(2)] by auto
    show "rs_refs rs = 1 \<and> length (rs_rules rs) \<le> LANDLOCK_MAX_RULES \<and> canonical_rules rs"
      if "(rss(d_layer d := None)) y = Some rs" for y rs
      using that i(5-7) by (auto split: if_splits)
    show "y \<in> H \<or> (\<exists>b e. (h(a := None)) b = Some e \<and> d_layer e = y)" if "(rss(d_layer d := None)) y = Some rs" for y rs
    proof -
      have "y \<noteq> d_layer d" "rss y = Some rs" using that by (auto split: if_splits)
      with i(8) show ?thesis using assms(2) by (metis fun_upd_apply option.inject)
    qed
  qed
qed

lemma layer_inv_same:
  assumes "layer_inv H h rss" "h a = Some d" "d_layer d' = d_layer d"
  shows "layer_inv H (h(a \<mapsto> d')) rss"
proof -
  note i = layer_invD [OF assms(1)]
  have same: "\<exists>f. h b = Some f \<and> d_layer f = d_layer e" if "(h(a \<mapsto> d')) b = Some e" for b e
    using that assms(2,3) by (cases "b = a") auto
  show ?thesis
  proof (rule layer_invI)
    show "b = c" if "(h(a \<mapsto> d')) b = Some e" "(h(a \<mapsto> d')) c = Some f" "d_layer e = d_layer f" for b c e f
      using same [OF that(1)] same [OF that(2)] i(1) that(3) by metis
    show "d_layer e \<notin> H \<and> rss (d_layer e) \<noteq> None" if "(h(a \<mapsto> d')) b = Some e" for b e
      using same [OF that] i(2,3) by metis
    show "y \<in> H \<or> (\<exists>b e. (h(a \<mapsto> d')) b = Some e \<and> d_layer e = y)" if "rss y = Some rs" for y rs
      using i(8) [OF that] assms(2,3) by (metis fun_upd_apply option.inject)
  qed (use i(4-7) in blast)+
qed

lemma depth_invD:
  assumes "depth_inv h" "h a = Some d"
  shows "d_parent d = None \<Longrightarrow> d_depth d = 1" "d_parent d = Some b \<Longrightarrow> h b = Some e \<Longrightarrow> d_depth d = Suc (d_depth e)"
  using assms by (auto simp: depth_inv_def)

lemma depth_inv_same:
  assumes "depth_inv h" "dm.same_but_counts h h'" "links_closed d_parent h'"
  shows "depth_inv h'"
  unfolding depth_inv_def
proof (intro allI impI)
  fix a d'
  assume a: "h' a = Some d'"
  obtain d where d: "h a = Some d" "d' = d\<lparr>d_refs := d_refs d'\<rparr>" using dm.same_but_countsD [OF assms(2) a] by blast
  have p: "d_parent d' = d_parent d" "d_depth d' = d_depth d" by (subst d(2), simp)+
  show "d_depth d' = (case d_parent d' of None \<Rightarrow> 1 | Some b \<Rightarrow> Suc (case h' b of None \<Rightarrow> 0 | Some e \<Rightarrow> d_depth e))"
  proof (cases "d_parent d'")
    case None
    then show ?thesis using depth_invD(1) [OF assms(1) d(1)] p by simp
  next
    case (Some b)
    obtain e' where e': "h' b = Some e'" using links_closedD [OF assms(3) a Some] by auto
    obtain e where e: "h b = Some e" "e' = e\<lparr>d_refs := d_refs e'\<rparr>" using dm.same_but_countsD [OF assms(2) e'] by blast
    have "d_depth e' = d_depth e" by (subst e(2)) simp
    then have "d_depth d' = Suc (d_depth e')" using depth_invD(2) [OF assms(1) d(1) _ e(1)] p Some by simp
    then show ?thesis by (simp add: Some e')
  qed
qed

section \<open>The pointer operations\<close>

lemma domain_put_loop:
  "dm.dropped h x h' \<Longrightarrow> layer_inv H h rss \<Longrightarrow>
     \<exists>rss'. loop domain_put_step (h, rss, x) = Some (Fine (h', rss')) \<and> layer_inv H h' rss'
       \<and> (\<forall>y. y \<in> H \<or> (\<exists>a d. h' a = Some d \<and> d_layer d = y) \<longrightarrow> rss' y = rss y)"
proof (induction arbitrary: rss rule: dm.dropped.induct)
  case (drop_none h)
  then show ?case by (auto simp: loop.simps [of _ "(h, rss, None)"] domain_put_step_def)
next
  case (drop_count h a d)
  have "domain_put_step (h, rss, Some a) = Inl (Fine (h(a \<mapsto> d\<lparr>d_refs := d_refs d - 1\<rparr>), rss))"
    using drop_count by (simp add: domain_put_step_def Let_def fun_upd_def)
  moreover have "layer_inv H (h(a \<mapsto> d\<lparr>d_refs := d_refs d - 1\<rparr>)) rss"
    using layer_inv_same [OF drop_count.prems drop_count.hyps(1)] by simp
  ultimately show ?case by (simp only: loop.simps [of _ "(h, rss, Some a)"] sum.case) blast
next
  case (drop_free h a d h')
  obtain rs where rs: "rss (d_layer d) = Some rs" using layer_invD(3) [OF drop_free.prems drop_free.hyps(1)] by blast
  have "rs_refs rs = 1" using layer_invD(5) [OF drop_free.prems rs] .
  then have step: "domain_put_step (h, rss, Some a) = Inr (h(a := None), rss(d_layer d := None), d_parent d)"
    using drop_free.hyps rs by (simp add: domain_put_step_def ruleset_put_def fun_upd_def)
  obtain rss' where rss': "loop domain_put_step (h(a := None), rss(d_layer d := None), d_parent d) = Some (Fine (h', rss'))"
    "layer_inv H h' rss'" "\<And>y. y \<in> H \<or> (\<exists>a d. h' a = Some d \<and> d_layer d = y) \<Longrightarrow> rss' y = (rss(d_layer d := None)) y"
    using drop_free.IH [OF layer_inv_free [OF drop_free.prems drop_free.hyps(1)]] by blast
  have "y \<noteq> d_layer d" if "y \<in> H \<or> (\<exists>a d. h' a = Some d \<and> d_layer d = y)" for y
  proof -
    from that layer_invD(3,4) [OF rss'(2)] have "rss' y \<noteq> None" by blast
    then show ?thesis using rss'(3) [OF that] by auto
  qed
  then have "\<forall>y. y \<in> H \<or> (\<exists>a d. h' a = Some d \<and> d_layer d = y) \<longrightarrow> rss' y = rss y" using rss'(3) by auto
  moreover have "loop domain_put_step (h, rss, Some a) = Some (Fine (h', rss'))"
    using rss'(1) step by (simp only: loop.simps [of _ "(h, rss, Some a)"] sum.case)
  ultimately show ?case using rss'(2) by blast
qed

text \<open>\<open>quiet st st'\<close>: apart from counts and freed objects nothing differs.\<close>

definition quiet :: "ll_state \<Rightarrow> ll_state \<Rightarrow> bool" where
  "quiet st st' \<longleftrightarrow> dm.same_but_counts (ll_domains st) (ll_domains st') \<and> ll_handles st' = ll_handles st
     \<and> (\<forall>a d. ll_domains st' a = Some d \<longrightarrow> ll_rulesets st' (d_layer d) = ll_rulesets st (d_layer d))
     \<and> (\<forall>y. y \<in> ll_handles st \<longrightarrow> ll_rulesets st' y = ll_rulesets st y)"

lemma ll_invD:
  assumes "ll_inv slots x st"
  shows "dm.heap_inv (ll_table st) (ll_domains st) x" "depth_inv (ll_domains st)"
    "layer_inv (ll_handles st) (ll_domains st) (ll_rulesets st)" "table_inv slots st"
  using assms by (auto simp: ll_inv_def)

lemma domain_put_inv:
  assumes "ll_inv slots x st"
  obtains h rss where "domain_put x st = Fine (st\<lparr>ll_domains := h, ll_rulesets := rss\<rparr>)"
    "ll_inv slots None (st\<lparr>ll_domains := h, ll_rulesets := rss\<rparr>)" "quiet st (st\<lparr>ll_domains := h, ll_rulesets := rss\<rparr>)"
proof -
  note i = ll_invD [OF assms]
  obtain h where h: "dm.dropped (ll_domains st) x h" "dm.heap_inv (ll_table st) h None"
    using dm.dropped_exists [OF i(1)] by blast
  obtain rss where rss: "loop domain_put_step (ll_domains st, ll_rulesets st, x) = Some (Fine (h, rss))"
    "layer_inv (ll_handles st) h rss"
    "\<And>y. y \<in> ll_handles st \<or> (\<exists>a d. h a = Some d \<and> d_layer d = y) \<Longrightarrow> rss y = ll_rulesets st y"
    using domain_put_loop [OF h(1) i(3)] by blast
  have "domain_put x st = Fine (st\<lparr>ll_domains := h, ll_rulesets := rss\<rparr>)"
    by (simp add: domain_put_def rss(1) returned_def)
  moreover have "ll_inv slots None (st\<lparr>ll_domains := h, ll_rulesets := rss\<rparr>)"
    using h(2) rss(2) i(4) depth_inv_same [OF i(2) dm.dropped_same [OF h(1)] dm.heap_invD(4) [OF h(2)]]
    by (simp add: ll_inv_def table_inv_def ll_table_def)
  moreover have "quiet st (st\<lparr>ll_domains := h, ll_rulesets := rss\<rparr>)"
    using dm.dropped_same [OF h(1)] rss(3) by (auto simp: quiet_def)
  ultimately show ?thesis using that by blast
qed

text \<open>Taking the domain of a task, and giving it back.\<close>

definition hold :: "nat option \<Rightarrow> ll_state \<Rightarrow> ll_state" where
  "hold p st = (case p of None \<Rightarrow> st
     | Some a \<Rightarrow> st\<lparr>ll_domains := (ll_domains st)(a := map_option (\<lambda>d. d\<lparr>d_refs := d_refs d + 1\<rparr>) (ll_domains st a))\<rparr>)"

lemma hold_simps [simp]:
  "ll_rulesets (hold p st) = ll_rulesets st" "g_task_domain (hold p st) = g_task_domain st"
  "g_domain_rows (hold p st) = g_domain_rows st" "ll_handles (hold p st) = ll_handles st" "ll_table (hold p st) = ll_table st"
  by (simp_all add: hold_def ll_table_def split: option.splits)

lemma domain_get_task_eq:
  assumes "ll_inv slots None st"
  shows "domain_get_task row st = Fine (ll_table st row, hold (ll_table st row) st)"
proof (cases "g_task_domain st")
  case None
  then show ?thesis by (simp add: domain_get_task_def ll_table_def hold_def)
next
  case (Some T)
  show ?thesis
  proof (cases "T row")
    case None
    then show ?thesis using Some by (simp add: domain_get_task_def ll_table_def hold_def)
  next
    case (Some a)
    with \<open>g_task_domain st = Some T\<close> have t: "ll_table st row = Some a" by (simp add: ll_table_def)
    obtain d where d: "ll_domains st a = Some d" using dm.heap_invD(5) [OF ll_invD(1) [OF assms] t] by blast
    have "row < g_domain_rows st" using ll_invD(4) [OF assms] t \<open>g_task_domain st = Some T\<close> by (auto simp: table_inv_def)
    then show ?thesis using Some \<open>g_task_domain st = Some T\<close> t d by (simp add: domain_get_task_def hold_def)
  qed
qed

lemma domain_current_eq:
  assumes "ll_inv slots None st"
  shows "domain_current (Some row) st = Fine (ll_table st row, hold (ll_table st row) st)"
  using domain_get_task_eq [OF assms, of row]
  by (cases "g_task_domain st") (simp_all add: domain_current_def ll_table_def hold_def)

lemma hold_inv:
  assumes "ll_inv slots None st" "ll_table st row = p"
  shows "ll_inv slots p (hold p st)"
proof (cases p)
  case None
  then show ?thesis using assms(1) by (simp add: hold_def)
next
  case (Some a)
  note i = ll_invD [OF assms(1)]
  obtain d where d: "ll_domains st a = Some d" using dm.heap_invD(5) [OF i(1)] assms(2) Some by blast
  let ?h = "(ll_domains st)(a \<mapsto> d\<lparr>d_refs := d_refs d + 1\<rparr>)"
  have inv: "dm.heap_inv (ll_table st) ?h (Some a)" using dm.heap_inv_hold [OF i(1) d] .
  have "dm.same_but_counts (ll_domains st) ?h" using d by (simp add: dm.same_but_counts_def)
  then have "depth_inv ?h" using depth_inv_same [OF i(2)] dm.heap_invD(4) [OF inv] by blast
  moreover have "layer_inv (ll_handles st) ?h (ll_rulesets st)" using layer_inv_same [OF i(3) d] by simp
  moreover have "hold p st = st\<lparr>ll_domains := ?h\<rparr>" using Some d by (simp add: hold_def)
  ultimately show ?thesis using inv i(4) Some by (simp add: ll_inv_def ll_table_def table_inv_def)
qed

lemma put_hold:
  assumes "ll_inv slots None st" "ll_table st row = p"
  shows "domain_put p (hold p st) = Fine st"
proof (cases p)
  case None
  then show ?thesis by (simp add: domain_put_def hold_def loop.simps [of _ "(_, _, None)"] domain_put_step_def returned_def)
next
  case (Some a)
  obtain d where d: "ll_domains st a = Some d" "0 < d_refs d"
    using dm.heap_invD(5,9) [OF ll_invD(1) [OF assms(1)]] assms(2) Some by blast
  let ?h = "(ll_domains st)(a \<mapsto> d\<lparr>d_refs := d_refs d + 1\<rparr>)"
  have "domain_put_step (?h, ll_rulesets st, Some a) = Inl (Fine (ll_domains st, ll_rulesets st))"
    using d by (simp add: domain_put_step_def Let_def fun_upd_idem)
  then have "loop domain_put_step (?h, ll_rulesets st, Some a) = Some (Fine (ll_domains st, ll_rulesets st))"
    by (simp only: loop.simps [of _ "(?h, _, _)"] sum.case)
  moreover have "hold p st = st\<lparr>ll_domains := ?h\<rparr>" using Some d by (simp add: hold_def)
  ultimately show ?thesis using Some by (simp add: domain_put_def returned_def)
qed


section \<open>Layers of a task\<close>

text \<open>\<open>ll_stack st p ls\<close>: the domain at \<open>p\<close> and those below it have the layers \<open>ls\<close>, newest first.\<close>

definition ll_stack :: "ll_state \<Rightarrow> nat option \<Rightarrow> ll_ruleset list \<Rightarrow> bool" where
  "ll_stack st p ls \<longleftrightarrow>
     (\<exists>vs. dm.chain (ll_domains st) p vs \<and> map (\<lambda>v. ll_rulesets st (snd v)) vs = map Some ls)"

lemma ll_stack_Nil [simp]: "ll_stack st p [] \<longleftrightarrow> p = None"
  by (auto simp: ll_stack_def)

lemma ll_stack_None [simp]: "ll_stack st None ls \<longleftrightarrow> ls = []"
  by (auto simp: ll_stack_def)

lemma ll_stack_Some:
  "ll_stack st (Some a) ls \<longleftrightarrow>
     (\<exists>d rs ls'. ls = rs # ls' \<and> ll_domains st a = Some d \<and> ll_rulesets st (d_layer d) = Some rs \<and> ll_stack st (d_parent d) ls')"
proof
  assume "ll_stack st (Some a) ls"
  then obtain vs where vs: "dm.chain (ll_domains st) (Some a) vs" "map (\<lambda>v. ll_rulesets st (snd v)) vs = map Some ls"
    by (auto simp: ll_stack_def)
  then show "\<exists>d rs ls'. ls = rs # ls' \<and> ll_domains st a = Some d \<and> ll_rulesets st (d_layer d) = Some rs \<and> ll_stack st (d_parent d) ls'"
    by (cases vs; cases ls) (auto simp: ll_stack_def)
next
  assume "\<exists>d rs ls'. ls = rs # ls' \<and> ll_domains st a = Some d \<and> ll_rulesets st (d_layer d) = Some rs \<and> ll_stack st (d_parent d) ls'"
  then obtain d rs ls' vs where "ls = rs # ls'" "ll_domains st a = Some d" "ll_rulesets st (d_layer d) = Some rs"
    "dm.chain (ll_domains st) (d_parent d) vs" "map (\<lambda>v. ll_rulesets st (snd v)) vs = map Some ls'"
    by (auto simp: ll_stack_def)
  then show "ll_stack st (Some a) ls"
    unfolding ll_stack_def by (intro exI [of _ "(d_depth d, d_layer d) # vs"]) simp
qed

lemma ll_stack_unique: "ll_stack st p ls \<Longrightarrow> ll_stack st p ks \<Longrightarrow> ls = ks"
proof (induction ls arbitrary: p ks)
  case (Cons rs ls)
  then show ?case by (cases p) (auto simp: ll_stack_Some)
qed auto

lemma ll_stack_exists:
  assumes "ll_inv slots x st" "\<And>a. p = Some a \<Longrightarrow> ll_domains st a \<noteq> None"
  shows "\<exists>ls. ll_stack st p ls \<and> list_all canonical_rules ls"
proof -
  note i = ll_invD [OF assms(1)]
  obtain vs where vs: "dm.chain (ll_domains st) p vs" using dm.chain_exists [OF i(1) assms(2)] by blast
  have "\<exists>ls. map (\<lambda>v. ll_rulesets st (snd v)) vs = map Some ls \<and> list_all canonical_rules ls"
    using vs
  proof (induction vs arbitrary: p)
    case (Cons v vs)
    then obtain a d where d: "ll_domains st a = Some d" "v = (d_depth d, d_layer d)" "dm.chain (ll_domains st) (d_parent d) vs"
      by auto
    obtain rs where rs: "ll_rulesets st (d_layer d) = Some rs" using layer_invD(3) [OF i(3) d(1)] by blast
    obtain ls where "map (\<lambda>v. ll_rulesets st (snd v)) vs = map Some ls" "list_all canonical_rules ls"
      using Cons.IH [OF d(3)] by blast
    then show ?case using rs d(2) layer_invD(7) [OF i(3) rs] by (intro exI [of _ "rs # ls"]) simp
  qed simp
  then show ?thesis using vs by (auto simp: ll_stack_def)
qed

lemma ll_stack_depth:
  assumes "ll_inv slots x st" "ll_stack st (Some a) ls" "ll_domains st a = Some d"
  shows "length ls = d_depth d"
  using assms(2,3)
proof (induction ls arbitrary: a d)
  case (Cons rs ls)
  note i = ll_invD [OF assms(1)]
  have ls: "ll_stack st (d_parent d) ls" using Cons.prems by (auto simp: ll_stack_Some)
  show ?case
  proof (cases "d_parent d")
    case None
    then show ?thesis using ls depth_invD(1) [OF i(2) Cons.prems(2)] by simp
  next
    case (Some b)
    obtain e where e: "ll_domains st b = Some e" using ls Some by (auto simp: ll_stack_Some)
    show ?thesis using Cons.IH [OF ls [unfolded Some] e] depth_invD(2) [OF i(2) Cons.prems(2) Some e] by simp
  qed
qed simp

text \<open>The stack of a slot that stays does not change when the rest changes quietly.\<close>

lemma ll_stack_quiet:
  assumes "ll_stack st p ls" "quiet st st'" "ll_inv slots x st'" "\<And>a. p = Some a \<Longrightarrow> ll_domains st' a \<noteq> None"
  shows "ll_stack st' p ls"
  using assms(1,4)
proof (induction ls arbitrary: p)
  case (Cons rs ls)
  then obtain a d where p: "p = Some a" "ll_domains st a = Some d" "ll_rulesets st (d_layer d) = Some rs"
    "ll_stack st (d_parent d) ls" by (cases p) (auto simp: ll_stack_Some)
  obtain d' where d': "ll_domains st' a = Some d'" using Cons.prems(2) [OF p(1)] by blast
  obtain n where n: "d' = d\<lparr>d_refs := n\<rparr>"
    using assms(2) p(2) d' dm.same_but_countsD unfolding quiet_def by (metis option.inject)
  have "ll_domains st' b \<noteq> None" if "d_parent d = Some b" for b
    using links_closedD [OF dm.heap_invD(4) [OF ll_invD(1) [OF assms(3)]] d', of b] that n by simp
  then have "ll_stack st' (d_parent d) ls" using Cons.IH [OF p(4)] by blast
  moreover have "ll_rulesets st' (d_layer d') = ll_rulesets st (d_layer d')" using assms(2) d' unfolding quiet_def by blast
  then have "ll_rulesets st' (d_layer d) = Some rs" using n p(3) by simp
  ultimately show ?case using p(1) d' n by (auto simp: ll_stack_Some)
qed simp

section \<open>What a check answers\<close>

definition ll_allows :: "ll_ruleset list \<Rightarrow> string \<Rightarrow> u64 \<Rightarrow> bool" where
  "ll_allows ls canon access = list_all (\<lambda>rs. layer_check rs canon access) ls"

definition ll_answer :: "ll_ruleset list \<Rightarrow> string \<Rightarrow> u64 \<Rightarrow> unit result" where
  "ll_answer ls canon access = (if ll_allows ls canon access then Inr () else Inl EACCES)"

lemma ll_check_canon_eq:
  "ll_stack st p ls \<Longrightarrow> ll_check_canon st p canon access = Fine (ll_answer ls canon access)"
  unfolding ll_check_canon_def ll_answer_def ll_allows_def
proof (induction ls arbitrary: p)
  case (Cons rs ls)
  then obtain a d where p: "p = Some a" "ll_domains st a = Some d" "ll_rulesets st (d_layer d) = Some rs"
    "ll_stack st (d_parent d) ls" by (cases p) (auto simp: ll_stack_Some)
  show ?case
    using Cons.IH [OF p(4)] p(1-3)
    by (cases "layer_check rs canon access") (simp_all add: loop.simps [of _ "Some a"] ll_check_step_def returned_def)
qed (simp add: loop.simps [of _ None] ll_check_step_def returned_def)

text \<open>The four checks, as functions of the layers.\<close>

datatype ll_query =
  CheckPath string u64 | CheckParent string u64 | CheckOpen string u32 | CheckMove string string bool bool

fun landlock_check :: "path_view \<Rightarrow> nat option \<Rightarrow> ll_query \<Rightarrow> ll_state \<Rightarrow> (unit result \<times> ll_state) mem_result" where
  "landlock_check pv current (CheckPath p a) st = landlock_check_path pv current p a st"
| "landlock_check pv current (CheckParent p a) st = landlock_check_parent pv current p a st"
| "landlock_check pv current (CheckOpen p f) st = landlock_check_open pv current p f st"
| "landlock_check pv current (CheckMove p q d l) st = landlock_check_move pv current p q d l st"

definition answer_unless_missing :: "string result \<Rightarrow> u64 \<Rightarrow> ll_ruleset list \<Rightarrow> unit result" where
  "answer_unless_missing canon access ls =
     (case canon of Inr c \<Rightarrow> ll_answer ls c access | Inl e \<Rightarrow> if e = ENOENT then Inr () else Inl e)"

definition open_rights :: "path_view \<Rightarrow> string \<Rightarrow> u32 \<Rightarrow> u64" where
  "open_rights pv path flags =
     (if flags AND 3 = B1NIX_O_WRONLY \<or> flags AND 3 = B1NIX_O_RDWR then LL_WRITE_FILE else 0)
     OR (if flags AND B1NIX_O_TRUNC \<noteq> 0 then LL_TRUNCATE else 0)
     OR (if flags AND 3 = B1NIX_O_RDONLY \<or> flags AND 3 = B1NIX_O_RDWR
         then (case pv_find pv path of Inr n \<Rightarrow> if pv_is_dir pv n then LL_READ_DIR else LL_READ_FILE | Inl _ \<Rightarrow> LL_READ_FILE)
         else 0)"

definition answer_open :: "path_view \<Rightarrow> string \<Rightarrow> u32 \<Rightarrow> ll_ruleset list \<Rightarrow> unit result" where
  "answer_open pv path flags ls =
     (if flags AND B1NIX_O_PATH \<noteq> 0 then Inr ()
      else case pv_find pv path of
        Inr n \<Rightarrow> (case vfs_get_node_path (pv_tree pv) (Some n) VFS_MAX_PATH of
                   Inl e \<Rightarrow> Inl e | Inr canon \<Rightarrow> ll_answer ls canon (open_rights pv path flags))
      | Inl e \<Rightarrow>
          if flags AND B1NIX_O_CREAT \<noteq> 0
          then answer_unless_missing (ll_canon_parent pv path) (open_rights pv path flags OR LL_MAKE_REG) ls
          else Inr ())"

definition answer_move :: "path_view \<Rightarrow> string \<Rightarrow> string \<Rightarrow> bool \<Rightarrow> bool \<Rightarrow> ll_ruleset list \<Rightarrow> unit result" where
  "answer_move pv old_path new_path is_dir is_link ls =
     (case (ll_canon_parent pv old_path, ll_canon_parent pv new_path) of
        (Inr op, Inr np) \<Rightarrow>
          if \<not> is_link \<and> \<not> ll_allows ls op (if is_dir then LL_REMOVE_DIR else LL_REMOVE_FILE) then Inl EACCES
          else if \<not> ll_allows ls np (if is_dir then LL_MAKE_DIR else LL_MAKE_REG) then Inl EACCES
          else if op \<noteq> np \<and> (\<not> ll_allows ls op LL_REFER \<or> \<not> ll_allows ls np LL_REFER) then Inl EXDEV
          else Inr ()
      | _ \<Rightarrow> Inr ())"

fun ll_verdict :: "path_view \<Rightarrow> ll_query \<Rightarrow> ll_ruleset list \<Rightarrow> unit result" where
  "ll_verdict pv (CheckPath p a) ls = answer_unless_missing (ll_canon_existing pv p) a ls"
| "ll_verdict pv (CheckParent p a) ls = answer_unless_missing (ll_canon_parent pv p) a ls"
| "ll_verdict pv (CheckOpen p f) ls = answer_open pv p f ls"
| "ll_verdict pv (CheckMove p q d l) ls = answer_move pv p q d l ls"

lemma with_domain_eq:
  assumes "ll_inv slots None st" "ll_stack st (ll_table st t) ls"
    and "\<And>st1 d. ll_stack st1 d ls \<Longrightarrow> decide st1 d = Fine (g ls)"
  shows "with_domain (Some t) decide st = Fine (if ls = [] then Inr () else g ls, st)"
proof (cases "ll_table st t")
  case None
  then show ?thesis using assms(2) domain_current_eq [OF assms(1), of t] by (simp add: with_domain_def hold_def)
next
  case (Some a)
  let ?st = "hold (Some a) st"
  have inv: "ll_inv slots (Some a) ?st" using hold_inv [OF assms(1) Some] .
  obtain d where d: "ll_domains st a = Some d" using assms(2) Some by (auto simp: ll_stack_Some)
  have "quiet st ?st" using d by (simp add: quiet_def dm.same_but_counts_def hold_def)
  then have "ll_stack ?st (Some a) ls"
    using ll_stack_quiet [OF assms(2) [unfolded Some] _ inv] dm.heap_invD(6) [OF ll_invD(1) [OF inv]] by blast
  from assms(3) [OF this] have "with_domain (Some t) decide st = Fine (g ls, st)"
    using domain_current_eq [OF assms(1), of t] put_hold [OF assms(1) Some] Some by (simp add: with_domain_def)
  then show ?thesis using assms(2) Some by (cases ls) auto
qed

lemma check_unless_missing_eq:
  "ll_stack st d ls \<Longrightarrow> check_unless_missing canon access st d = Fine (answer_unless_missing canon access ls)"
  by (simp add: check_unless_missing_def answer_unless_missing_def ll_check_canon_eq split: sum.splits)

lemma ll_allows_0 [simp]: "ll_allows ls canon 0"
  by (simp add: ll_allows_def layer_check_def list_all_iff)

lemma decide_open_eq:
  assumes "ll_stack st d ls" "flags AND B1NIX_O_PATH = 0"
  shows "decide_open pv path flags st d = Fine (answer_open pv path flags ls)"
  using assms
  by (auto simp: decide_open_def answer_open_def open_rights_def Let_def ll_check_canon_eq check_unless_missing_eq or.assoc
      ll_answer_def split: sum.splits)

lemma decide_move_eq:
  "ll_stack st d ls \<Longrightarrow> decide_move pv old_path new_path is_dir is_link st d = Fine (answer_move pv old_path new_path is_dir is_link ls)"
  by (simp add: decide_move_def answer_move_def ll_check_canon_eq ll_answer_def split: sum.splits)

lemma landlock_check_eq:
  assumes inv: "ll_inv slots None st" and ls: "ll_stack st (ll_table st t) ls"
  shows "landlock_check pv (Some t) q st = Fine (if ls = [] then Inr () else ll_verdict pv q ls, st)"
proof (cases q)
  case (CheckOpen path flags)
  consider "flags AND B1NIX_O_PATH \<noteq> 0" | "g_task_domain st = None" | "flags AND B1NIX_O_PATH = 0" "g_task_domain st \<noteq> None"
    by blast
  then show ?thesis
  proof cases
    case 2
    then have "ls = []" using ls by (simp add: ll_table_def)
    then show ?thesis using CheckOpen 2 by (simp add: landlock_check_open_def)
  next
    case 3
    have "with_domain (Some t) (decide_open pv path flags) st = Fine (if ls = [] then Inr () else answer_open pv path flags ls, st)"
      by (rule with_domain_eq [OF inv ls]) (rule decide_open_eq [OF _ 3(1)])
    then show ?thesis using CheckOpen 3 by (auto simp: landlock_check_open_def)
  qed (simp add: CheckOpen landlock_check_open_def answer_open_def)
next
  case (CheckPath path access)
  show ?thesis unfolding CheckPath landlock_check.simps landlock_check_path_def ll_verdict.simps
    by (rule with_domain_eq [OF inv ls]) (rule check_unless_missing_eq)
next
  case (CheckParent path access)
  show ?thesis unfolding CheckParent landlock_check.simps landlock_check_parent_def ll_verdict.simps
    by (rule with_domain_eq [OF inv ls]) (rule check_unless_missing_eq)
next
  case (CheckMove old_path new_path is_dir is_link)
  show ?thesis unfolding CheckMove landlock_check.simps landlock_check_move_def ll_verdict.simps
    by (rule with_domain_eq [OF inv ls]) (rule decide_move_eq)
qed

text \<open>More layers never allow more.\<close>

lemma ll_allows_append [simp]: "ll_allows (ks @ ls) canon access \<longleftrightarrow> ll_allows ks canon access \<and> ll_allows ls canon access"
  by (simp add: ll_allows_def)

lemma ll_verdict_append: "ll_verdict pv q ls \<noteq> Inr () \<Longrightarrow> ll_verdict pv q (ks @ ls) \<noteq> Inr ()"
  by (cases q) (auto simp: answer_unless_missing_def answer_open_def answer_move_def ll_answer_def split: sum.splits if_splits)


section \<open>Histories\<close>

text \<open>
  What happens to rulesets and domains, as a sequence of operations: the three
  system calls, fork, the reset of a reused task slot and the last close of a
  ruleset descriptor. New objects get free addresses, descriptors name open
  rulesets, and the names in the tree are those of files.
\<close>

datatype ll_op = LCreate | LAddRule | LRestrict nat | LFork nat nat | LReset nat | LClose nat

definition fd_live :: "ll_fd \<Rightarrow> ll_state \<Rightarrow> bool" where
  "fd_live rfd st \<longleftrightarrow> (case rfd of RulesetHandle a \<Rightarrow> a \<in> ll_handles st | _ \<Rightarrow> True)"

inductive ll_step :: "nat \<Rightarrow> ll_op \<Rightarrow> ll_state \<Rightarrow> ll_state \<Rightarrow> bool" for slots where
  create_step: "ll_create_ruleset um al slots uattr sz flags st = Fine (r, st') \<Longrightarrow>
     (\<And>a. la_ruleset al = Some a \<Longrightarrow> ll_rulesets st a = None) \<Longrightarrow> ll_step slots LCreate st st'"
| add_step: "ll_add_rule pv um alloc_path rfd rtype uattr flags st = Fine (r, st') \<Longrightarrow> fd_live rfd st \<Longrightarrow>
     tree_names_ok (pv_tree pv) \<Longrightarrow> ll_step slots LAddRule st st'"
| restrict_step: "ll_restrict_self ns sec co snap_alloc dom_alloc copies t rfd flags st = Fine (r, st') \<Longrightarrow>
     fd_live rfd st \<Longrightarrow> t < slots \<Longrightarrow> (\<And>a. snap_alloc = Some a \<Longrightarrow> ll_rulesets st a = None) \<Longrightarrow>
     (\<And>a. dom_alloc = Some a \<Longrightarrow> ll_domains st a = None) \<Longrightarrow> ll_step slots (LRestrict t) st st'"
| lfork_step: "landlock_fork p c st = Fine st' \<Longrightarrow> c < slots \<Longrightarrow> ll_step slots (LFork p c) st st'"
| reset_step: "landlock_task_reset t st = Fine st' \<Longrightarrow> ll_step slots (LReset t) st st'"
| close_step: "ruleset_release a st = Fine st' \<Longrightarrow> a \<in> ll_handles st \<Longrightarrow> ll_step slots (LClose a) st st'"

fun ll_steps :: "nat \<Rightarrow> ll_state \<Rightarrow> ll_op list \<Rightarrow> ll_state \<Rightarrow> bool" where
  "ll_steps slots st [] st' \<longleftrightarrow> st' = st"
| "ll_steps slots st (oper # ops) st' \<longleftrightarrow> (\<exists>st1. ll_step slots oper st st1 \<and> ll_steps slots st1 ops st')"

definition ll_init :: ll_state where
  "ll_init = \<lparr>ll_domains = Map.empty, ll_rulesets = Map.empty, g_task_domain = None, g_domain_rows = 0, ll_handles = {}\<rparr>"

definition ll_reachable :: "nat \<Rightarrow> ll_state \<Rightarrow> bool" where
  "ll_reachable slots st \<longleftrightarrow> (\<exists>ops. ll_steps slots ll_init ops st)"

text \<open>The layers of a domain that is still there do not change.\<close>

definition keeps :: "ll_state \<Rightarrow> ll_state \<Rightarrow> bool" where
  "keeps st st' \<longleftrightarrow> (\<forall>a ls. ll_stack st (Some a) ls \<longrightarrow> ll_domains st' a \<noteq> None \<longrightarrow> ll_stack st' (Some a) ls)"

lemma keeps_refl [simp]: "keeps st st"
  by (simp add: keeps_def)

lemma quiet_keeps: "quiet st st' \<Longrightarrow> ll_inv slots x st' \<Longrightarrow> keeps st st'"
  unfolding keeps_def using ll_stack_quiet by (metis option.inject)

lemma swap_row_inv:
  assumes "ll_inv slots x st" "g_task_domain st \<noteq> None" "row < slots"
  obtains st' where "swap_row row x st = Fine st'" "ll_inv slots None st'" "quiet st st'"
    "ll_table st' = (ll_table st)(row := x)" "g_task_domain st' \<noteq> None"
proof -
  obtain T where T: "g_task_domain st = Some T" using assms(2) by blast
  note i = ll_invD [OF assms(1)]
  let ?st = "st\<lparr>g_task_domain := Some (T(row := x))\<rparr>"
  have tab: "ll_table ?st = (ll_table st)(row := x)" "ll_table st = T" using T by (simp_all add: ll_table_def)
  have "ll_inv slots (T row) ?st"
    using dm.heap_inv_swap [OF i(1), of row] i(2-4) assms(3) T tab
    by (auto simp: ll_inv_def table_inv_def)
  from domain_put_inv [OF this] obtain h rss where
    put: "domain_put (T row) ?st = Fine (?st\<lparr>ll_domains := h, ll_rulesets := rss\<rparr>)"
    "ll_inv slots None (?st\<lparr>ll_domains := h, ll_rulesets := rss\<rparr>)" "quiet ?st (?st\<lparr>ll_domains := h, ll_rulesets := rss\<rparr>)"
    by blast
  let ?st' = "?st\<lparr>ll_domains := h, ll_rulesets := rss\<rparr>"
  have "swap_row row x st = Fine ?st'"
    using put(1) T i(4) assms(3) by (simp add: swap_row_def table_inv_def)
  moreover have "quiet st ?st'" using put(3) by (simp add: quiet_def)
  moreover have "ll_table ?st' = (ll_table st)(row := x)" using tab by (simp add: ll_table_def)
  ultimately show ?thesis using that [of ?st'] put(2) by simp
qed

lemma quiet_hold:
  assumes "ll_inv slots None st" "ll_table st t = p"
  shows "quiet st (hold p st)"
proof (cases p)
  case (Some a)
  then obtain d where "ll_domains st a = Some d" using dm.heap_invD(5) [OF ll_invD(1) [OF assms(1)]] assms(2) by blast
  then show ?thesis using Some by (simp add: quiet_def dm.same_but_counts_def hold_def)
qed (simp add: quiet_def hold_def dm.same_but_counts_def)

lemma same_but_counts_trans:
  assumes "dm.same_but_counts h1 h2" "dm.same_but_counts h2 h3"
  shows "dm.same_but_counts h1 h3"
  unfolding dm.same_but_counts_def
proof (intro allI impI)
  fix b g
  assume "h3 b = Some g"
  then obtain f where f: "h2 b = Some f" "g = f\<lparr>d_refs := d_refs g\<rparr>" using dm.same_but_countsD [OF assms(2)] by blast
  obtain e where e: "h1 b = Some e" "f = e\<lparr>d_refs := d_refs f\<rparr>" using dm.same_but_countsD [OF assms(1) f(1)] by blast
  have "g = e\<lparr>d_refs := d_refs g\<rparr>" by (subst f(2), subst e(2)) simp
  then show "\<exists>f. h1 b = Some f \<and> g = f\<lparr>d_refs := d_refs g\<rparr>" using e(1) by blast
qed

lemma quietD:
  assumes "quiet st st'"
  shows "dm.same_but_counts (ll_domains st) (ll_domains st')" "ll_handles st' = ll_handles st"
    and "ll_domains st' a = Some d \<Longrightarrow> ll_rulesets st' (d_layer d) = ll_rulesets st (d_layer d)"
    and "y \<in> ll_handles st \<Longrightarrow> ll_rulesets st' y = ll_rulesets st y"
  using assms by (auto simp: quiet_def)

lemma quiet_trans:
  assumes "quiet st st1" "quiet st1 st2"
  shows "quiet st st2"
proof -
  have "ll_rulesets st2 (d_layer d) = ll_rulesets st (d_layer d)" if at2: "ll_domains st2 a = Some d" for a d
  proof -
    obtain e where e: "ll_domains st1 a = Some e" "d = e\<lparr>d_refs := d_refs d\<rparr>"
      using dm.same_but_countsD [OF quietD(1) [OF assms(2)], of a d] at2 by blast
    have "d_layer d = d_layer e" by (subst e(2)) simp
    then show ?thesis using quietD(3) [OF assms(2) at2] quietD(3) [OF assms(1) e(1)] by simp
  qed
  then show ?thesis
    unfolding quiet_def
    using same_but_counts_trans [OF quietD(1) [OF assms(1)] quietD(1) [OF assms(2)]] quietD(2,4) [OF assms(1)] quietD(2,4) [OF assms(2)]
    by simp
qed

lemma landlock_fork_inv:
  assumes "ll_inv slots None st" "c < slots"
  obtains st' where "landlock_fork p c st = Fine st'" "ll_inv slots None st'" "quiet st st'"
    "ll_table st' = (ll_table st)(c := ll_table st p)"
proof (cases "g_task_domain st = None")
  case True
  then have "landlock_fork p c st = Fine st" "ll_table st = (ll_table st)(c := ll_table st p)"
    using domain_get_task_eq [OF assms(1), of p] put_hold [OF assms(1), of p None]
    by (auto simp: landlock_fork_def ll_table_def hold_def)
  then show ?thesis using that [of st] assms(1) quiet_hold [OF assms(1), of p None] True
    by (simp add: hold_def ll_table_def)
next
  case False
  let ?st = "hold (ll_table st p) st"
  have inv: "ll_inv slots (ll_table st p) ?st" using hold_inv [OF assms(1)] by blast
  obtain st' where st': "swap_row c (ll_table st p) ?st = Fine st'" "ll_inv slots None st'" "quiet ?st st'"
    "ll_table st' = (ll_table ?st)(c := ll_table st p)"
    using swap_row_inv [OF inv, of c] False assms(2) by auto
  have "landlock_fork p c st = Fine st'"
    using st'(1) domain_get_task_eq [OF assms(1), of p] False ll_invD(4) [OF assms(1)] assms(2)
    by (auto simp: landlock_fork_def table_inv_def)
  then show ?thesis using that st'(2,4) quiet_trans [OF quiet_hold [OF assms(1) refl] st'(3)] by simp
qed

lemma landlock_task_reset_inv:
  assumes "ll_inv slots None st"
  obtains st' where "landlock_task_reset t st = Fine st'" "ll_inv slots None st'" "quiet st st'"
    "ll_table st' = (ll_table st)(t := None)"
proof (cases "g_task_domain st = None \<or> t \<ge> slots")
  case True
  then have "ll_table st t = None" using ll_invD(4) [OF assms] by (auto simp: table_inv_def ll_table_def split: option.splits)
  moreover have "landlock_task_reset t st = Fine st"
    using True ll_invD(4) [OF assms] by (auto simp: landlock_task_reset_def table_inv_def)
  moreover have "(ll_table st)(t := None) = ll_table st" using calculation(1) by auto
  ultimately show ?thesis using that [of st] assms quiet_hold [OF assms, of t None] by (simp add: hold_def)
next
  case False
  then obtain st' where "swap_row t None st = Fine st'" "ll_inv slots None st'" "quiet st st'" "ll_table st' = (ll_table st)(t := None)"
    using swap_row_inv [OF assms, of t] by auto
  then show ?thesis using that [of st'] False ll_invD(4) [OF assms] by (auto simp: landlock_task_reset_def table_inv_def)
qed


text \<open>Putting a new domain with a snapshot of a ruleset on top of the one in hand.\<close>

lemma push_domain_inv:
  assumes inv: "ll_inv slots x st" and d: "ll_domains st d = None" and snap: "ll_rulesets st snap = None" "rs_refs rs = 1"
      "length (rs_rules rs) \<le> LANDLOCK_MAX_RULES" "canonical_rules rs"
    and depth: "depth = (case x of None \<Rightarrow> 1 | Some c \<Rightarrow> Suc (d_depth (the (ll_domains st c))))" "depth \<le> LANDLOCK_MAX_LAYERS"
  defines "st2 \<equiv> st\<lparr>ll_rulesets := (ll_rulesets st)(snap \<mapsto> rs),
      ll_domains := (ll_domains st)(d \<mapsto> \<lparr>d_refs = 1, d_parent = x, d_depth = depth, d_layer = snap\<rparr>)\<rparr>"
  shows "ll_inv slots (Some d) st2" and "keeps st st2" and "ll_stack st x ls \<Longrightarrow> ll_stack st2 (Some d) (rs # ls)"
proof -
  note i = ll_invD [OF inv]
  let ?k = "\<lparr>d_refs = 1, d_parent = x, d_depth = depth, d_layer = snap\<rparr>"
  have heap: "dm.heap_inv (ll_table st) ((ll_domains st)(d \<mapsto> ?k)) (Some d)"
    by (rule dm.heap_inv_link [OF i(1) d]) (use depth(2) in simp_all)
  have parent: "b \<noteq> d" if "ll_domains st a = Some e" "d_parent e = Some b" for a b e
    using links_closedD [OF dm.heap_invD(4) [OF i(1)] that] d by auto
  have old: "ll_domains st c \<noteq> None \<and> c \<noteq> d" if "x = Some c" for c
    using dm.heap_invD(6) [OF i(1) that] d by auto
  have "depth_inv ((ll_domains st)(d \<mapsto> ?k))"
    using i(2) parent old depth(1) unfolding depth_inv_def by (auto split: option.splits if_splits)
  moreover have "layer_inv (ll_handles st) ((ll_domains st)(d \<mapsto> ?k)) ((ll_rulesets st)(snap \<mapsto> rs))"
  proof -
    note l = layer_invD [OF i(3)]
    have nosnap: "d_layer e \<noteq> snap" if "ll_domains st a = Some e" for a e using l(3) [OF that] snap(1) by auto
    have noH: "snap \<notin> ll_handles st" using l(4) [of snap] snap(1) by auto
    show ?thesis
    proof (rule layer_invI)
      show "a = b" if "((ll_domains st)(d \<mapsto> ?k)) a = Some e" "((ll_domains st)(d \<mapsto> ?k)) b = Some f" "d_layer e = d_layer f" for a b e f
        using that l(1) nosnap [of a e] nosnap [of b f] by (cases "a = d"; cases "b = d") auto
      show "d_layer e \<notin> ll_handles st \<and> ((ll_rulesets st)(snap \<mapsto> rs)) (d_layer e) \<noteq> None"
        if "((ll_domains st)(d \<mapsto> ?k)) a = Some e" for a e
        using that l(2,3) noH by (auto split: if_splits)
      show "y \<in> ll_handles st \<or> (\<exists>a e. ((ll_domains st)(d \<mapsto> ?k)) a = Some e \<and> d_layer e = y)"
        if "((ll_rulesets st)(snap \<mapsto> rs)) y = Some r" for y r
      proof (cases "y = snap")
        case True
        then show ?thesis by (intro disjI2 exI [of _ d] exI [of _ ?k]) simp
      next
        case False
        then have "ll_rulesets st y = Some r" using that by simp
        from l(8) [OF this] show ?thesis using d by (metis fun_upd_apply option.distinct(1))
      qed
    qed (use l(4-7) snap(2-4) in \<open>auto split: if_splits\<close>)
  qed
  ultimately show "ll_inv slots (Some d) st2"
    using heap i(4) by (simp add: st2_def ll_inv_def ll_table_def table_inv_def)
  have kept: "ll_stack st p ls \<Longrightarrow> ll_stack st2 p ls" for p ls
  proof (induction ls arbitrary: p)
    case (Cons r ls)
    then obtain a e where p: "p = Some a" "ll_domains st a = Some e" "ll_rulesets st (d_layer e) = Some r" "ll_stack st (d_parent e) ls"
      by (cases p) (auto simp: ll_stack_Some)
    then have "a \<noteq> d" "d_layer e \<noteq> snap" using d snap(1) by auto
    then show ?case using p Cons.IH [OF p(4)] by (auto simp: ll_stack_Some st2_def)
  qed simp
  then show "keeps st st2" by (simp add: keeps_def)
  show "ll_stack st x ls \<Longrightarrow> ll_stack st2 (Some d) (rs # ls)"
    using kept [of x ls] by (simp add: ll_stack_Some) (simp add: st2_def)
qed

lemma keeps_trans:
  assumes "keeps st st1" "keeps st1 st2" "\<And>a. ll_domains st a \<noteq> None \<Longrightarrow> ll_domains st2 a \<noteq> None \<Longrightarrow> ll_domains st1 a \<noteq> None"
  shows "keeps st st2"
  unfolding keeps_def
proof (intro allI impI)
  fix a ls
  assume "ll_stack st (Some a) ls" "ll_domains st2 a \<noteq> None"
  then show "ll_stack st2 (Some a) ls"
    using assms(1,2) assms(3) [of a] unfolding keeps_def by (auto simp: ll_stack_Some [of st])
qed

lemma canonical_take: "canonical_rules rs \<Longrightarrow> rs_rules rs' = take k (rs_rules rs) \<Longrightarrow> canonical_rules rs'"
  by (auto simp: canonical_rules_def dest: in_set_takeD)

lemma hold_live: "ll_domains (hold p st) a \<noteq> None \<longleftrightarrow> ll_domains st a \<noteq> None"
  by (auto simp: hold_def split: option.splits)

lemma ll_install_inv:
  fixes copies :: nat
  assumes inv: "ll_inv slots None st" and x: "ll_table st t = x" and t: "t < slots"
    and src: "src \<in> ll_handles st" "ll_rulesets st src = Some rs"
    and fresh: "ll_rulesets st snap = None" "ll_domains st d = None"
    and room: "\<And>c. x = Some c \<Longrightarrow> d_depth (the (ll_domains (hold x st) c)) < LANDLOCK_MAX_LAYERS"
  defines "rs' \<equiv> \<lparr>rs_refs = 1, handled_fs = handled_fs rs, rs_rules = take copies (rs_rules rs)\<rparr>"
  obtains st' where "ll_install src snap d copies t x (hold x st) = Fine st'"
    "ll_inv slots None st'" "keeps st st'" "ll_table st' = (ll_table st)(t \<mapsto> d)"
    "\<And>ls. ll_stack st x ls \<Longrightarrow> ll_stack st' (Some d) (rs' # ls)"
proof -
  let ?st = "hold x st" and ?depth = "case x of None \<Rightarrow> 1 | Some c \<Rightarrow> Suc (d_depth (the (ll_domains (hold x st) c)))"
  have inv1: "ll_inv slots x ?st" using hold_inv [OF inv x] .
  note r = layer_invD(5-7) [OF ll_invD(3) [OF inv] src(2)]
  define st2 where "st2 = ?st\<lparr>ll_rulesets := (ll_rulesets ?st)(snap \<mapsto> rs'),
    ll_domains := (ll_domains ?st)(d \<mapsto> \<lparr>d_refs = 1, d_parent = x, d_depth = ?depth, d_layer = snap\<rparr>)\<rparr>"
  have free: "ll_domains ?st d = None" "ll_rulesets ?st snap = None" using hold_live [of x st d] fresh by auto
  have deep: "?depth \<le> LANDLOCK_MAX_LAYERS"
    using room by (auto simp: LANDLOCK_MAX_LAYERS_def split: option.splits intro: Suc_leI)
  have rs': "rs_refs rs' = 1" "length (rs_rules rs') \<le> LANDLOCK_MAX_RULES" "canonical_rules rs'"
    using r(2) canonical_take [OF r(3), of rs' copies] by (simp_all add: rs'_def)
  note p = push_domain_inv [OF inv1 free rs' refl deep, folded st2_def]
  have "g_task_domain st2 \<noteq> None" using src(1) ll_invD(4) [OF inv] by (auto simp: table_inv_def st2_def)
  then obtain st' where s: "swap_row t (Some d) st2 = Fine st'" "ll_inv slots None st'" "quiet st2 st'"
    "ll_table st' = (ll_table st2)(t := Some d)"
    using swap_row_inv [OF p(1) _ t] by blast
  have live: "ll_domains ?st c \<noteq> None" if "x = Some c" for c using dm.heap_invD(6) [OF ll_invD(1) [OF inv1] that] .
  have run: "ll_install src snap d copies t x ?st = Fine st'"
    using src(2) r(2) live s(1) unfolding ll_install_def st2_def rs'_def by (auto split: option.splits)
  have tab: "ll_table st2 = ll_table st" by (simp add: st2_def) (simp add: ll_table_def)
  have k1: "keeps st ?st" using quiet_keeps [OF quiet_hold [OF inv x] inv1] .
  have k2: "keeps st st2" using keeps_trans [OF k1 p(2)] hold_live by blast
  have k3: "keeps st st'"
    by (rule keeps_trans [OF k2 quiet_keeps [OF s(3,2)]]) (use dm.same_but_countsD [OF quietD(1) [OF s(3)]] in fastforce)
  have "ll_stack st' (Some d) (rs' # ls)" if "ll_stack st x ls" for ls
  proof -
    have "ll_stack ?st x ls" using ll_stack_quiet [OF that quiet_hold [OF inv x] inv1] live by blast
    moreover have "ll_domains st' d \<noteq> None" using dm.heap_invD(5) [OF ll_invD(1) [OF s(2)], of t d] s(4) by simp
    ultimately show ?thesis using p(3) quiet_keeps [OF s(3,2)] by (simp add: keeps_def)
  qed
  then show ?thesis using that [OF run s(2) k3] s(4) tab by simp
qed

text \<open>
  \<open>ll_restrict_self\<close> either changes nothing or puts one layer on top of those of
  the task: as many rules of the ruleset as there was memory for.
\<close>

lemma ll_restrict_self_inv:
  assumes inv: "ll_inv slots None st" and rfd: "fd_live rfd st" and t: "t < slots"
    and fresh: "\<And>a. snap_alloc = Some a \<Longrightarrow> ll_rulesets st a = None" "\<And>a. dom_alloc = Some a \<Longrightarrow> ll_domains st a = None"
  obtains (err) e where "ll_restrict_self ns sec co snap_alloc dom_alloc copies t rfd flags st = Fine (Inl e, st)"
  | (ok) st' src rs d where "ll_restrict_self ns sec co snap_alloc dom_alloc copies t rfd flags st = Fine (Inr 0, st')"
      "rfd = RulesetHandle src" "ll_rulesets st src = Some rs"
      "ll_inv slots None st'" "keeps st st'" "ll_table st' = (ll_table st)(t \<mapsto> d)"
      "\<And>ls. ll_stack st (ll_table st t) ls \<Longrightarrow>
        ll_stack st' (Some d) (\<lparr>rs_refs = 1, handled_fs = handled_fs rs, rs_rules = take copies (rs_rules rs)\<rparr> # ls)"
proof -
  let ?x = "ll_table st t" and ?run = "ll_restrict_self ns sec co snap_alloc dom_alloc copies t rfd flags st"
  let ?st = "hold ?x st"
  let ?full = "case ?x of None \<Rightarrow> False | Some c \<Rightarrow> d_depth (the (ll_domains ?st c)) \<ge> LANDLOCK_MAX_LAYERS"
  let ?may = "task_no_new_privs sec (Some t) \<or> co \<noteq> None \<and> ns_capable_cred ns co (cred_userns co) CAP_SYS_ADMIN"
  have put: "domain_put ?x ?st = Fine st" using put_hold [OF inv] by blast
  have cur: "domain_current (Some t) st = Fine (?x, ?st)" using domain_current_eq [OF inv] .
  show ?thesis
  proof (cases "flags = 0 \<and> ?may \<and> (\<exists>src. rfd = RulesetHandle src) \<and> \<not> ?full \<and> snap_alloc \<noteq> None \<and> dom_alloc \<noteq> None")
    case False
    then have "\<exists>e. ?run = Fine (Inl e, st)"
      using cur put
      by (auto simp: ll_restrict_self_def ruleset_from_fd_def split: ll_fd.splits option.splits if_splits)
    then show ?thesis using err by blast
  next
    case True
    then obtain src snap d where *: "rfd = RulesetHandle src" "snap_alloc = Some snap" "dom_alloc = Some d" by blast
    have src: "src \<in> ll_handles st" using rfd *(1) by (simp add: fd_live_def)
    obtain rs where rs: "ll_rulesets st src = Some rs" using layer_invD(4) [OF ll_invD(3) [OF inv] src] by blast
    obtain st' where st': "ll_install src snap d copies t ?x ?st = Fine st'"
      "ll_inv slots None st'" "keeps st st'" "ll_table st' = (ll_table st)(t \<mapsto> d)"
      "\<And>ls. ll_stack st ?x ls \<Longrightarrow>
        ll_stack st' (Some d) (\<lparr>rs_refs = 1, handled_fs = handled_fs rs, rs_rules = take copies (rs_rules rs)\<rparr> # ls)"
      by (rule ll_install_inv [OF inv refl t src rs fresh(1) [OF *(2)] fresh(2) [OF *(3)]]) (use True in auto)
    have "?run = Fine (Inr 0, st')"
      using True * cur st'(1) by (auto simp: ll_restrict_self_def ruleset_from_fd_def)
    then show ?thesis using ok *(1) rs st'(2-5) by blast
  qed
qed


text \<open>The calls that change rulesets of descriptors only.\<close>

definition rules_only :: "ll_state \<Rightarrow> ll_state \<Rightarrow> bool" where
  "rules_only st st' \<longleftrightarrow> ll_domains st' = ll_domains st \<and> ll_table st' = ll_table st
     \<and> (\<forall>a d. ll_domains st a = Some d \<longrightarrow> ll_rulesets st' (d_layer d) = ll_rulesets st (d_layer d))"

lemma rules_only_keeps: "rules_only st st' \<Longrightarrow> keeps st st'"
proof -
  assume r: "rules_only st st'"
  have "ll_stack st p ls \<Longrightarrow> ll_stack st' p ls" for p ls
  proof (induction ls arbitrary: p)
    case (Cons rs ls)
    then show ?case using r by (cases p) (auto simp: ll_stack_Some rules_only_def)
  qed simp
  then show ?thesis by (simp add: keeps_def)
qed

lemma layer_inv_add:
  assumes "layer_inv H h rss" "rss a = None" "rs_refs rs = 1" "length (rs_rules rs) \<le> LANDLOCK_MAX_RULES" "canonical_rules rs"
  shows "layer_inv (insert a H) h (rss(a \<mapsto> rs))"
proof -
  note i = layer_invD [OF assms(1)]
  have "d_layer d \<noteq> a" if "h b = Some d" for b d using i(3) [OF that] assms(2) by auto
  then show ?thesis
    by (intro layer_invI) (use i assms(3-5) in \<open>auto split: if_splits\<close>)
qed

lemma layer_inv_close:
  assumes "layer_inv H h rss" "a \<in> H"
  shows "layer_inv (H - {a}) h (rss(a := None))"
proof -
  note i = layer_invD [OF assms(1)]
  have "d_layer d \<noteq> a" if "h b = Some d" for b d using i(2) [OF that] assms(2) by auto
  then show ?thesis
    by (intro layer_invI) (use i in \<open>auto split: if_splits\<close>)
qed

lemma layer_inv_rule:
  assumes "layer_inv H h rss" "a \<in> H" "rss a = Some rs" "length (rs_rules rs) < LANDLOCK_MAX_RULES"
    "names_ok cs" "lr_path r = path_string cs"
  shows "layer_inv H h (rss(a \<mapsto> rs\<lparr>rs_rules := rs_rules rs @ [r]\<rparr>))"
proof -
  note i = layer_invD [OF assms(1)]
  have "canonical_rules (rs\<lparr>rs_rules := rs_rules rs @ [r]\<rparr>)"
    using i(7) [OF assms(3)] assms(5,6) by (auto simp: canonical_rules_def)
  then show ?thesis
    by (intro layer_invI) (use i i(5) [OF assms(3)] assms(2,4) in \<open>auto split: if_splits\<close>)
qed

lemma layer_not_handle: "layer_inv H h rss \<Longrightarrow> a \<in> H \<or> rss a = None \<Longrightarrow> h b = Some d \<Longrightarrow> d_layer d \<noteq> a"
  using layer_invD(2,3) by fastforce

lemma ll_new_ruleset_inv:
  assumes inv: "ll_inv slots None st" and fresh: "\<And>a. la_ruleset al = Some a \<Longrightarrow> ll_rulesets st a = None"
  shows "\<exists>r st'. ll_new_ruleset al slots handled st = Fine (r, st') \<and> ll_inv slots None st' \<and> rules_only st st'"
proof -
  note i = ll_invD [OF inv]
  define st1 where "st1 = (if g_task_domain st = None then st\<lparr>g_task_domain := Some (\<lambda>_. None), g_domain_rows := slots\<rparr> else st)"
  have tab: "ll_table st1 = ll_table st" "g_task_domain st1 \<noteq> None" by (auto simp: st1_def ll_table_def)
  have st1: "ll_domains st1 = ll_domains st" "ll_rulesets st1 = ll_rulesets st" "ll_handles st1 = ll_handles st"
    by (simp_all add: st1_def)
  have inv1: "ll_inv slots None st1"
    using i tab by (auto simp: ll_inv_def table_inv_def st1 st1_def)
  have same: "rules_only st st1" using tab st1 by (simp add: rules_only_def)
  show ?thesis
  proof (cases "la_ruleset al")
    case None
    then show ?thesis using inv inv1 same by (auto simp: ll_new_ruleset_def st1_def rules_only_def)
  next
    case (Some a)
    note a = fresh [OF Some]
    let ?rs = "\<lparr>rs_refs = 1, handled_fs = handled, rs_rules = []\<rparr>"
    let ?st2 = "st1\<lparr>ll_rulesets := (ll_rulesets st1)(a \<mapsto> ?rs), ll_handles := insert a (ll_handles st1)\<rparr>"
    have "layer_inv (ll_handles ?st2) (ll_domains ?st2) (ll_rulesets ?st2)"
      using layer_inv_add [OF i(3) a, of ?rs] st1 by (simp add: canonical_rules_def)
    moreover have "ll_table ?st2 = ll_table st" using tab by (simp add: ll_table_def)
    ultimately have inv2: "ll_inv slots None ?st2" using inv1 tab by (simp add: ll_inv_def table_inv_def)
    have same2: "rules_only st ?st2"
      using tab st1 a layer_not_handle [OF i(3), of a] by (auto simp: rules_only_def ll_table_def)
    have "a \<notin> ll_handles st" using layer_invD(4) [OF i(3), of a] a by auto
    then have undone: "ruleset_release a ?st2 = Fine st1"
      using a st1 by (simp add: ruleset_release_def ruleset_put_def fun_upd_idem)
    show ?thesis
      using Some inv inv1 inv2 same same2 undone
      by (cases "la_handle al"; cases "la_fd al")
         (auto simp: ll_new_ruleset_def Let_def rules_only_def simp flip: st1_def)
  qed
qed

lemma ll_create_ruleset_inv:
  assumes inv: "ll_inv slots None st" and fresh: "\<And>a. la_ruleset al = Some a \<Longrightarrow> ll_rulesets st a = None"
  shows "\<exists>r st'. ll_create_ruleset um al slots uattr sz flags st = Fine (r, st') \<and> ll_inv slots None st' \<and> rules_only st st'"
  using inv ll_new_ruleset_inv [OF assms]
  by (auto simp: ll_create_ruleset_def Let_def rules_only_def split: option.splits sum.splits)

lemma ll_add_rule_inv:
  assumes inv: "ll_inv slots None st" and fd: "fd_live rfd st" and names: "tree_names_ok (pv_tree pv)"
  shows "\<exists>r st'. ll_add_rule pv um alloc_path rfd rtype uattr flags st = Fine (r, st') \<and> ll_inv slots None st' \<and> rules_only st st'"
proof (cases "\<exists>e. ll_add_rule pv um alloc_path rfd rtype uattr flags st = Fine (Inl e, st)")
  case True
  then show ?thesis using inv by (auto simp: rules_only_def)
next
  case False
  note i = ll_invD [OF inv]
  obtain a where a: "rfd = RulesetHandle a"
    using False by (cases rfd) (auto simp: ll_add_rule_def ruleset_from_fd_def split: if_splits)
  then have H: "a \<in> ll_handles st" using fd by (simp add: fd_live_def)
  obtain rs where rs: "ll_rulesets st a = Some rs" using layer_invD(4) [OF i(3) H] by blast
  obtain n canon allowed where run: "vfs_get_node_path (pv_tree pv) (Some n) VFS_MAX_PATH = Inr canon"
    "length (rs_rules rs) < LANDLOCK_MAX_RULES"
    "ll_add_rule pv um alloc_path rfd rtype uattr flags st = Fine (Inr 0, st\<lparr>ll_rulesets := (ll_rulesets st)(a \<mapsto>
       rs\<lparr>rs_rules := rs_rules rs @ [\<lparr>lr_path = canon, lr_access = allowed\<rparr>]\<rparr>)\<rparr>)"
    using False a rs that
    by (fastforce simp: ll_add_rule_def ruleset_from_fd_def Let_def not_le split: if_splits option.splits sum.splits)
  obtain cs where cs: "names_ok cs" "canon = path_string cs" using vfs_get_node_path_canonical [OF names run(1)] by blast
  let ?r = "\<lparr>lr_path = canon, lr_access = allowed\<rparr>"
  let ?st = "st\<lparr>ll_rulesets := (ll_rulesets st)(a \<mapsto> rs\<lparr>rs_rules := rs_rules rs @ [?r]\<rparr>)\<rparr>"
  have "layer_inv (ll_handles st) (ll_domains st) ((ll_rulesets st)(a \<mapsto> rs\<lparr>rs_rules := rs_rules rs @ [?r]\<rparr>))"
    by (rule layer_inv_rule [OF i(3) H rs run(2) cs(1)]) (simp add: cs(2))
  then have "ll_inv slots None ?st" using i by (simp add: ll_inv_def ll_table_def table_inv_def)
  moreover have "rules_only st ?st"
    using layer_not_handle [OF i(3) disjI1 [OF H]] by (auto simp: rules_only_def ll_table_def)
  ultimately show ?thesis using run(3) by blast
qed

lemma ruleset_release_inv:
  assumes inv: "ll_inv slots None st" and a: "a \<in> ll_handles st"
  shows "\<exists>st'. ruleset_release a st = Fine st' \<and> ll_inv slots None st' \<and> rules_only st st'"
proof -
  note i = ll_invD [OF inv]
  obtain rs where rs: "ll_rulesets st a = Some rs" "rs_refs rs = 1" using layer_invD(4,5) [OF i(3)] a by blast
  let ?st = "st\<lparr>ll_rulesets := (ll_rulesets st)(a := None), ll_handles := ll_handles st - {a}\<rparr>"
  have "ruleset_release a st = Fine ?st" using rs by (simp add: ruleset_release_def ruleset_put_def)
  moreover have "ll_inv slots None ?st"
    using layer_inv_close [OF i(3) a] i by (auto simp: ll_inv_def ll_table_def table_inv_def)
  moreover have "rules_only st ?st"
    using layer_not_handle [OF i(3) disjI1 [OF a]] by (auto simp: rules_only_def ll_table_def)
  ultimately show ?thesis by blast
qed

section \<open>Every step\<close>

fun ll_heirs :: "ll_op \<Rightarrow> nat set \<Rightarrow> nat set" where
  "ll_heirs (LFork p c) ts = (if p \<in> ts then insert c ts else ts - {c})"
| "ll_heirs (LReset t) ts = ts - {t}"
| "ll_heirs _ ts = ts"

definition ll_lineage :: "ll_op list \<Rightarrow> nat set \<Rightarrow> nat set" where
  "ll_lineage = fold ll_heirs"

definition ll_carry :: "ll_ruleset list \<Rightarrow> nat set \<Rightarrow> ll_state \<Rightarrow> bool" where
  "ll_carry ls ts st \<longleftrightarrow> (\<forall>t\<in>ts. \<exists>ks. ll_stack st (ll_table st t) (ks @ ls))"

lemma slot_kept:
  assumes "ll_inv slots None st'" "keeps st st'" "ll_stack st (ll_table st' u) ls"
  shows "ll_stack st' (ll_table st' u) ls"
  using assms(2,3) dm.heap_invD(5) [OF ll_invD(1) [OF assms(1)], of u]
  by (cases "ll_table st' u") (auto simp: keeps_def)

lemma ll_carry_kept:
  assumes "ll_inv slots None st'" "keeps st st'" "ll_carry ls ts st" "\<And>u. u \<in> ts' \<Longrightarrow> \<exists>t\<in>ts. ll_table st' u = ll_table st t"
  shows "ll_carry ls ts' st'"
  unfolding ll_carry_def
proof
  fix u
  assume "u \<in> ts'"
  then obtain t where "t \<in> ts" "ll_table st' u = ll_table st t" using assms(4) by blast
  then show "\<exists>ks. ll_stack st' (ll_table st' u) (ks @ ls)"
    using slot_kept [OF assms(1,2), of u] assms(3) unfolding ll_carry_def by metis
qed

lemma ll_carry_rules:
  assumes "ll_inv slots None st'" "rules_only st st'" "ll_carry ls ts st"
  shows "ll_carry ls ts st'"
  by (rule ll_carry_kept [OF assms(1) rules_only_keeps [OF assms(2)] assms(3)]) (use assms(2) in \<open>auto simp: rules_only_def\<close>)

lemma ll_step_inv:
  assumes inv: "ll_inv slots None st" and step: "ll_step slots oper st st'"
  shows "ll_inv slots None st' \<and> (ll_carry ls ts st \<longrightarrow> ll_carry ls (ll_heirs oper ts) st')"
  using step
proof (cases rule: ll_step.cases)
  case (create_step um al uattr sz flags r)
  then have *: "ll_inv slots None st'" "rules_only st st'"
    using ll_create_ruleset_inv [OF inv, of al um uattr sz flags] by auto
  then show ?thesis using create_step(1) ll_carry_rules by simp
next
  case (add_step pv um alloc_path rfd rtype uattr flags r)
  then have *: "ll_inv slots None st'" "rules_only st st'"
    using ll_add_rule_inv [OF inv, of rfd pv um alloc_path rtype uattr flags] by auto
  then show ?thesis using add_step(1) ll_carry_rules by simp
next
  case (restrict_step ns sec co snap_alloc dom_alloc copies t rfd flags r)
  show ?thesis
  proof (rule ll_restrict_self_inv [OF inv restrict_step(3,4,5,6)])
    fix e
    assume "ll_restrict_self ns sec co snap_alloc dom_alloc copies t rfd flags st = Fine (Inl e, st)"
    then show ?thesis using restrict_step(1,2) inv by simp
  next
    fix st2 src rs d
    assume *: "ll_restrict_self ns sec co snap_alloc dom_alloc copies t rfd flags st = Fine (Inr 0, st2)"
      "ll_inv slots None st2" "keeps st st2" "ll_table st2 = (ll_table st)(t \<mapsto> d)"
      "\<And>ls. ll_stack st (ll_table st t) ls \<Longrightarrow>
        ll_stack st2 (Some d) (\<lparr>rs_refs = 1, handled_fs = handled_fs rs, rs_rules = take copies (rs_rules rs)\<rparr> # ls)"
    have st2: "st' = st2" using restrict_step(2) *(1) by simp
    have "\<exists>ks. ll_stack st2 (ll_table st2 u) (ks @ ls)" if carry: "ll_carry ls ts st" and u: "u \<in> ts" for u
    proof (cases "u = t")
      case True
      then obtain ks where "ll_stack st (ll_table st t) (ks @ ls)" using carry u unfolding ll_carry_def by blast
      from *(5) [OF this] True *(4) show ?thesis by (metis append_Cons fun_upd_same)
    next
      case False
      then show ?thesis using slot_kept [OF *(2,3), of u] carry u *(4) unfolding ll_carry_def by (metis fun_upd_other)
    qed
    then show ?thesis using *(2) st2 restrict_step(1) by (simp add: ll_carry_def)
  qed auto
next
  case (lfork_step p c)
  obtain st2 where "landlock_fork p c st = Fine st2" "ll_inv slots None st2" "quiet st st2"
    "ll_table st2 = (ll_table st)(c := ll_table st p)" by (rule landlock_fork_inv [OF inv lfork_step(3)])
  then have *: "ll_inv slots None st'" "keeps st st'" "ll_table st' = (ll_table st)(c := ll_table st p)"
    using lfork_step(2) quiet_keeps by auto
  have "\<exists>t\<in>ts. ll_table st' u = ll_table st t" if "u \<in> ll_heirs (LFork p c) ts" for u
    using that *(3) by (auto split: if_splits)
  then show ?thesis using ll_carry_kept [OF *(1,2)] *(1) lfork_step(1) by blast
next
  case (reset_step t)
  obtain st2 where "landlock_task_reset t st = Fine st2" "ll_inv slots None st2" "quiet st st2" "ll_table st2 = (ll_table st)(t := None)"
    by (rule landlock_task_reset_inv [OF inv])
  then have *: "ll_inv slots None st'" "keeps st st'" "ll_table st' = (ll_table st)(t := None)"
    using reset_step(2) quiet_keeps by auto
  have "\<exists>v\<in>ts. ll_table st' u = ll_table st v" if "u \<in> ll_heirs (LReset t) ts" for u
    using that *(3) by auto
  then show ?thesis using ll_carry_kept [OF *(1,2)] *(1) reset_step(1) by blast
next
  case (close_step a)
  then have *: "ll_inv slots None st'" "rules_only st st'" using ruleset_release_inv [OF inv close_step(3)] by auto
  then show ?thesis using close_step(1) ll_carry_rules by simp
qed

lemma ll_steps_inv:
  "ll_steps slots st ops st' \<Longrightarrow> ll_inv slots None st \<Longrightarrow>
     ll_inv slots None st' \<and> (ll_carry ls ts st \<longrightarrow> ll_carry ls (ll_lineage ops ts) st')"
proof (induction ops arbitrary: st ts)
  case (Cons oper ops)
  then obtain st1 where "ll_step slots oper st st1" "ll_steps slots st1 ops st'" by auto
  then show ?case using Cons.IH [of st1 "ll_heirs oper ts"] ll_step_inv [OF Cons.prems(2)] by (simp add: ll_lineage_def)
qed (simp add: ll_lineage_def)

lemma ll_reachable_inv: "ll_reachable slots st \<Longrightarrow> ll_inv slots None st"
proof -
  have "ll_inv slots None ll_init"
    using dm.heap_inv_empty
    by (simp add: ll_inv_def ll_init_def depth_inv_def layer_inv_def table_inv_def ll_table_def)
  then show "ll_reachable slots st \<Longrightarrow> ll_inv slots None st"
    unfolding ll_reachable_def using ll_steps_inv by blast
qed


section \<open>What the code and its comments do not agree on\<close>

text \<open>
  A layer that does not handle REFER does not stop a move between directories,
  whatever else it handles, and a move is not checked at all when the path of
  one of the two directories cannot be built.
\<close>

lemma refer_unhandled:
  assumes "\<And>rs. rs \<in> set ls \<Longrightarrow> handled_fs rs AND LL_REFER = 0"
  shows "ll_allows ls canon LL_REFER"
  using assms by (simp add: ll_allows_def layer_check_def list_all_iff and.commute)

lemma move_unnamed_allowed:
  "ll_canon_parent pv new_path = Inl e \<Longrightarrow> answer_move pv old_path new_path is_dir is_link ls = Inr ()"
  by (auto simp: answer_move_def split: sum.splits)

section \<open>Properties\<close>

text \<open>
  C15. What a Landlock check means: in every reachable state a task has at most
  16 layers, and an access to a canonical path is allowed exactly when every
  layer grants each requested right it handles, through a rule whose directory
  is, name by name, an ancestor of the path or the path itself; otherwise the
  answer is EACCES.
\<close>

theorem landlock_access_meaning:
  assumes "ll_reachable slots st" "names_ok ps"
  shows "\<exists>ls. ll_stack st (ll_table st t) ls \<and> length ls \<le> LANDLOCK_MAX_LAYERS
    \<and> ll_check_canon st (ll_table st t) (path_string ps) access =
        Fine (if \<forall>rs\<in>set ls. \<forall>i. bit access i \<longrightarrow> bit (handled_fs rs) i \<longrightarrow>
                   (\<exists>r\<in>set (rs_rules rs). bit (lr_access r) i \<and> (\<exists>cs. names_ok cs \<and> lr_path r = path_string cs \<and> prefix cs ps))
              then Inr () else Inl EACCES)"
proof -
  note inv = ll_reachable_inv [OF assms(1)]
  obtain ls where ls: "ll_stack st (ll_table st t) ls" "list_all canonical_rules ls"
    using ll_stack_exists [OF inv, of "ll_table st t"] dm.heap_invD(5) [OF ll_invD(1) [OF inv], of t] by blast
  have "layer_check rs (path_string ps) access \<longleftrightarrow> (\<forall>i. bit access i \<longrightarrow> bit (handled_fs rs) i \<longrightarrow>
      (\<exists>r\<in>set (rs_rules rs). bit (lr_access r) i \<and> (\<exists>cs. names_ok cs \<and> lr_path r = path_string cs \<and> prefix cs ps)))"
    if "rs \<in> set ls" for rs
  proof -
    have "ll_beneath (path_string ps) (lr_path r) \<longleftrightarrow> (\<exists>cs. names_ok cs \<and> lr_path r = path_string cs \<and> prefix cs ps)"
      if "r \<in> set (rs_rules rs)" for r
    proof -
      have "\<exists>cs. names_ok cs \<and> lr_path r = path_string cs"
        using ls(2) \<open>rs \<in> set ls\<close> that by (auto simp: list_all_iff canonical_rules_def)
      then show ?thesis using ll_beneath_prefix [OF assms(2)] by metis
    qed
    then show ?thesis unfolding layer_check_iff by blast
  qed
  then have eq: "ll_allows ls (path_string ps) access \<longleftrightarrow> (\<forall>rs\<in>set ls. \<forall>i. bit access i \<longrightarrow> bit (handled_fs rs) i \<longrightarrow>
      (\<exists>r\<in>set (rs_rules rs). bit (lr_access r) i \<and> (\<exists>cs. names_ok cs \<and> lr_path r = path_string cs \<and> prefix cs ps)))"
    by (simp add: ll_allows_def list_all_iff)
  have "length ls \<le> LANDLOCK_MAX_LAYERS"
  proof (cases "ll_table st t")
    case (Some a)
    then obtain d where d: "ll_domains st a = Some d" using ls(1) by (auto simp: ll_stack_Some)
    then show ?thesis
      using ll_stack_depth [OF inv ls(1) [unfolded Some] d] dm.heap_invD(7) [OF ll_invD(1) [OF inv] d] by simp
  qed (use ls(1) in simp)
  then show ?thesis using ls(1) ll_check_canon_eq [OF ls(1), of "path_string ps" access, unfolded ll_answer_def eq] by blast
qed

text \<open>
  C29. A Landlock restriction is never lifted. Of one file system, seen from one root
  directory (\<open>pv\<close>): whatever check -- of a path, of the
  directory of a new or removed name, of an open, of a move -- fails for a task
  fails from then on for the task and for every descendant, through any
  sequence of new rulesets, rules added to the very ruleset that was used,
  further restrictions, forks, reused task slots and closed descriptors.
\<close>

theorem landlock_restricted_forever:
  assumes "ll_reachable slots st" "landlock_check pv (Some t) q st = Fine (Inl e, st1)"
    and "ll_steps slots st ops st'" "u \<in> ll_lineage ops {t}"
  shows "\<exists>e'. landlock_check pv (Some u) q st' = Fine (Inl e', st')"
proof -
  note inv = ll_reachable_inv [OF assms(1)]
  obtain ls where ls: "ll_stack st (ll_table st t) ls"
    using ll_stack_exists [OF inv, of "ll_table st t"] dm.heap_invD(5) [OF ll_invD(1) [OF inv], of t] by blast
  have denied: "ls \<noteq> []" "ll_verdict pv q ls \<noteq> Inr ()"
    using landlock_check_eq [OF inv ls, of pv q] assms(2) by (auto split: if_splits)
  have "ll_carry ls {t} st" using ls by (auto simp: ll_carry_def intro: exI [of _ "[]"])
  then have inv': "ll_inv slots None st'" and "ll_carry ls (ll_lineage ops {t}) st'"
    using ll_steps_inv [OF assms(3) inv] by blast+
  then obtain ks where ks: "ll_stack st' (ll_table st' u) (ks @ ls)" using assms(4) unfolding ll_carry_def by blast
  obtain e' where "ll_verdict pv q (ks @ ls) = Inl e'"
    using ll_verdict_append [OF denied(2), of ks] by (cases "ll_verdict pv q (ks @ ls)") auto
  then show ?thesis using landlock_check_eq [OF inv' ks, of pv q] denied(1) by auto
qed



section \<open>Witnesses\<close>

text \<open>
  Task 1 has no_new_privs, makes a ruleset that handles reading and writing of
  files, allows reading beneath \<^verbatim>\<open>/pub\<close> and restricts itself with it; it then adds
  a rule for \<^verbatim>\<open>/etc\<close> to the ruleset and forks task 2.
\<close>

definition example_tree :: vfs_tree where
  "example_tree = \<lparr>vn_parent = (\<lambda>n. if n = 1 \<or> n = 3 then Some 0 else if n = 2 then Some 1 else None),
     vn_name = (\<lambda>n. if n = 1 then ''pub'' else if n = 2 then ''a'' else ''etc''),
     vn_mount_point = (\<lambda>_. None), task_root = Some 0, detached_root = None\<rparr>"

definition example_view :: path_view where
  "example_view = \<lparr>pv_tree = example_tree, pv_resolve = id,
     pv_find = (\<lambda>p. if p = ''/etc'' then Inr 3 else if p = ''/pub/a'' then Inr 2 else Inl ENOENT),
     pv_by_fd = (\<lambda>fd. if fd = 3 then Inr 1 else if fd = 4 then Inr 3 else Inl EBADF), pv_is_dir = (\<lambda>n. n \<noteq> 2)\<rparr>"

definition example_user_bytes :: "u8 \<Rightarrow> user_bytes" where
  "example_user_bytes fd p = Some (if p = 0x1000 then 6 else if p = 0x2000 then 4 else if p = 0x2008 then fd else 0)"

definition example_rule :: "string \<Rightarrow> ll_rule" where
  "example_rule p = \<lparr>lr_path = p, lr_access = 4\<rparr>"

definition example_rules :: "ll_rule list \<Rightarrow> ll_ruleset" where
  "example_rules rules = \<lparr>rs_refs = 1, handled_fs = 6, rs_rules = rules\<rparr>"

definition example_ruleset :: "ll_rule list \<Rightarrow> ll_state" where
  "example_ruleset rules = \<lparr>ll_domains = Map.empty, ll_rulesets = [0 \<mapsto> example_rules rules],
     g_task_domain = Some (\<lambda>_. None), g_domain_rows = 8, ll_handles = {0}\<rparr>"

definition example_sandbox :: "ll_rule list \<Rightarrow> int \<Rightarrow> nat option table \<Rightarrow> ll_state" where
  "example_sandbox rules n T = \<lparr>ll_domains = [0 \<mapsto> \<lparr>d_refs = n, d_parent = None, d_depth = 1, d_layer = 1\<rparr>],
     ll_rulesets = [0 \<mapsto> example_rules rules, 1 \<mapsto> example_rules [example_rule ''/pub'']],
     g_task_domain = Some T, g_domain_rows = 8, ll_handles = {0}\<rparr>"

lemma example_paths:
  "vfs_get_node_path example_tree (Some 1) VFS_MAX_PATH = Inr ''/pub''"
  "vfs_get_node_path example_tree (Some 2) VFS_MAX_PATH = Inr ''/pub/a''"
  "vfs_get_node_path example_tree (Some 3) VFS_MAX_PATH = Inr ''/etc''"
  by code_simp+

lemma example_names: "tree_names_ok (pv_tree example_view)"
  by (auto simp: tree_names_ok_def example_view_def example_tree_def)

lemma example_attr:
  "copyin_bytes (example_user_bytes fd) 0x1000 8 = Some [6, 0, 0, 0, 0, 0, 0, 0]"
  "copyin_bytes (example_user_bytes fd) 0x2000 12 = Some [4, 0, 0, 0, 0, 0, 0, 0, fd, 0, 0, 0]"
  by (simp_all add: copyin_bytes_def example_user_bytes_def upt_rec)

lemma example_words:
  "le_word [6, 0, 0, 0, 0, 0, 0, 0] = 6" "le_word [4, 0, 0, 0, 0, 0, 0, 0] = 4" "le_word [0, 0, 0, 0, 0, 0, 0, 0] = 0"
  "le_word [3, 0, 0, 0] = 3" "le_word [4, 0, 0, 0] = 4"
  by code_simp+

lemma example_create: "ll_step 8 LCreate ll_init (example_ruleset [])"
proof (rule create_step)
  have "replicate 16 (0 :: u8) = [0, 0, 0, 0, 0, 0, 0, 0, 0, 0, 0, 0, 0, 0, 0, 0]" by code_simp
  then show "ll_create_ruleset (example_user_bytes 3) \<lparr>la_table = True, la_ruleset = Some 0, la_handle = True, la_fd = Inr 3\<rparr> 8 0x1000 8 0 ll_init
      = Fine (Inr 3, example_ruleset [])"
    by (simp add: ll_create_ruleset_def LANDLOCK_CREATE_RULESET_VERSION_def PAGE_SIZE_def example_attr example_words
        LL_ACCESS_FS_ALL_def ll_new_ruleset_def ll_init_def example_ruleset_def example_rules_def)
qed (simp add: ll_init_def)

lemma example_add_rule:
  "ll_add_rule example_view (example_user_bytes 3) True (RulesetHandle 0) 1 0x2000 0 (example_ruleset [])
     = Fine (Inr 0, example_ruleset [example_rule ''/pub''])"
  "ll_add_rule example_view (example_user_bytes 4) True (RulesetHandle 0) 1 0x2000 0 (example_sandbox [example_rule ''/pub''] 1 T)
     = Fine (Inr 0, example_sandbox [example_rule ''/pub'', example_rule ''/etc''] 1 T)"
  by (simp_all add: ll_add_rule_def ruleset_from_fd_def LANDLOCK_RULE_PATH_BENEATH_def example_attr example_words example_rules_def
      example_ruleset_def example_sandbox_def example_view_def example_paths example_paths(1) [unfolded One_nat_def]
      LANDLOCK_MAX_RULES_def example_rule_def fun_upd_twist)

lemma example_restrict:
  "ll_restrict_self ns (seccomp_init\<lparr>g_task_nnp := (\<lambda>_. False)(1 := True)\<rparr>) co (Some 1) (Some 0) 5 1 (RulesetHandle 0) 0
     (example_ruleset [example_rule ''/pub'']) = Fine (Inr 0, example_sandbox [example_rule ''/pub''] 1 ((\<lambda>_. None)(1 := Some 0)))"
  by (simp add: ll_restrict_self_def task_no_new_privs_def ruleset_from_fd_def domain_current_def domain_get_task_def ll_install_def
      example_ruleset_def example_rules_def LANDLOCK_MAX_RULES_def swap_row_def domain_put_def loop.simps [of _ "(_, _, None)"]
      domain_put_step_def returned_def example_sandbox_def fun_upd_twist)

lemma example_ll_fork:
  "landlock_fork 1 2 (example_sandbox rules 1 ((\<lambda>_. None)(1 := Some 0)))
     = Fine (example_sandbox rules 2 ((\<lambda>_. None)(1 := Some 0, 2 := Some 0)))"
  by (simp add: landlock_fork_def domain_get_task_def example_sandbox_def swap_row_def domain_put_def loop.simps [of _ "(_, _, None)"]
      domain_put_step_def returned_def)

lemma example_sandbox_reachable: "ll_reachable 8 (example_sandbox [example_rule ''/pub''] 1 ((\<lambda>_. None)(1 := Some 0)))"
proof -
  have "ll_step 8 LAddRule (example_ruleset []) (example_ruleset [example_rule ''/pub''])"
    by (rule add_step [OF example_add_rule(1) _ example_names]) (simp add: fd_live_def example_ruleset_def)
  moreover have "ll_step 8 (LRestrict 1) (example_ruleset [example_rule ''/pub''])
      (example_sandbox [example_rule ''/pub''] 1 ((\<lambda>_. None)(1 := Some 0)))"
    by (rule restrict_step [OF example_restrict]) (simp_all add: fd_live_def example_ruleset_def)
  ultimately have "ll_steps 8 ll_init [LCreate, LAddRule, LRestrict 1] (example_sandbox [example_rule ''/pub''] 1 ((\<lambda>_. None)(1 := Some 0)))"
    using example_create by auto
  then show ?thesis unfolding ll_reachable_def by blast
qed

lemma example_sandbox_goes_on:
  "ll_steps 8 (example_sandbox [example_rule ''/pub''] 1 ((\<lambda>_. None)(1 := Some 0))) [LAddRule, LFork 1 2]
     (example_sandbox [example_rule ''/pub'', example_rule ''/etc''] 2 ((\<lambda>_. None)(1 := Some 0, 2 := Some 0)))"
proof -
  let ?T = "(\<lambda>_. None)(1 := Some 0) :: nat option table"
  have "ll_step 8 LAddRule (example_sandbox [example_rule ''/pub''] 1 ?T) (example_sandbox [example_rule ''/pub'', example_rule ''/etc''] 1 ?T)"
    by (rule add_step [OF example_add_rule(2) _ example_names]) (simp add: fd_live_def example_sandbox_def)
  moreover have "ll_step 8 (LFork 1 2) (example_sandbox [example_rule ''/pub'', example_rule ''/etc''] 1 ?T)
      (example_sandbox [example_rule ''/pub'', example_rule ''/etc''] 2 (?T(2 := Some 0)))"
    by (rule lfork_step [OF example_ll_fork]) simp
  ultimately show ?thesis by (auto simp only: ll_steps.simps)
qed

text \<open>Reading \<^verbatim>\<open>/pub/a\<close> is allowed, reading \<^verbatim>\<open>/etc\<close> is not.\<close>

lemma example_denied_open:
  "landlock_check example_view (Some 1) (CheckPath ''/etc'' LL_READ_FILE) (example_sandbox [example_rule ''/pub''] 1 ((\<lambda>_. None)(1 := Some 0)))
     = Fine (Inl EACCES, example_sandbox [example_rule ''/pub''] 1 ((\<lambda>_. None)(1 := Some 0)))"
proof -
  let ?st = "example_sandbox [example_rule ''/pub''] 1 ((\<lambda>_. None)(1 := Some 0))"
  have s: "ll_stack ?st (ll_table ?st 1) [example_rules [example_rule ''/pub'']]"
    by (simp add: ll_table_def example_sandbox_def ll_stack_Some)
  have "ll_canon_existing example_view ''/etc'' = Inr ''/etc''"
    by (simp add: ll_canon_existing_def example_view_def example_paths)
  moreover have "\<not> ll_allows [example_rules [example_rule ''/pub'']] ''/etc'' LL_READ_FILE" by code_simp
  ultimately show ?thesis
    using landlock_check_eq [OF ll_reachable_inv [OF example_sandbox_reachable] s, of example_view "CheckPath ''/etc'' LL_READ_FILE"]
    by (simp add: answer_unless_missing_def ll_answer_def del: landlock_check.simps)
qed

theorem landlock_access_meaning_witness:
  "ll_check_canon (example_sandbox [example_rule ''/pub''] 1 ((\<lambda>_. None)(1 := Some 0))) (Some 0) ''/pub/a'' LL_READ_FILE = Fine (Inr ())"
proof -
  let ?st = "example_sandbox [example_rule ''/pub''] 1 ((\<lambda>_. None)(1 := Some 0))"
  have s: "ll_stack ?st (Some 0) ls \<longleftrightarrow> ls = [example_rules [example_rule ''/pub'']]" for ls
    by (auto simp: example_sandbox_def ll_stack_Some)
  have t: "ll_table ?st 1 = Some 0" by (simp add: ll_table_def example_sandbox_def)
  have p: "path_string [''pub'', ''a''] = ''/pub/a''" "''/pub'' = path_string [''pub'']" by (simp_all add: path_string_def)
  have "names_ok [''pub'', ''a'']" "names_ok [''pub'']" by simp_all
  then have "\<exists>cs. names_ok cs \<and> ''/pub'' = path_string cs \<and> prefix cs [''pub'', ''a'']"
    using p(2) by (intro exI [of _ "[''pub'']"]) simp
  then show ?thesis
    using landlock_access_meaning [OF example_sandbox_reachable, of "[''pub'', ''a'']" 1 LL_READ_FILE]
    unfolding t s p(1) by (simp add: example_rules_def example_rule_def LL_READ_FILE_def)
qed

theorem landlock_restricted_forever_witness:
  "\<exists>e. landlock_check example_view (Some 2) (CheckPath ''/etc'' LL_READ_FILE)
     (example_sandbox [example_rule ''/pub'', example_rule ''/etc''] 2 ((\<lambda>_. None)(1 := Some 0, 2 := Some 0)))
   = Fine (Inl e, example_sandbox [example_rule ''/pub'', example_rule ''/etc''] 2 ((\<lambda>_. None)(1 := Some 0, 2 := Some 0)))"
  by (rule landlock_restricted_forever [OF example_sandbox_reachable example_denied_open example_sandbox_goes_on])
     (simp add: ll_lineage_def)


end
