(* ===== verification/Lz4.thy ===== *)
theory Lz4
  imports Prelude
begin

text \<open>
  The LZ4 block codec of \<^verbatim>\<open>kernel/lib/lz4.c\<close>, which keeps compressed pages for
  swap and for the compressed block device. The compressor is greedy, with a
  hash table of the last position of each four-byte group; the decompressor
  checks every read and write. Sizes are C ints that the code keeps
  non-negative: they are natural numbers here. The compressor's lengths are all
  bounded by the size it is given. The decompressor's are read from the input
  and can exceed an int: the sums it forms are checked against the largest int,
  and a sum that overflows, which C leaves undefined, is \<open>Wild\<close> like an access
  out of bounds.
\<close>

section \<open>Compressor\<close>

definition LZ4_HASH_LOG :: nat where "LZ4_HASH_LOG = 12"

definition LZ4_COMPRESS_BOUND :: "nat \<Rightarrow> nat" where
  "LZ4_COMPRESS_BOUND n = n + n div 255 + 16"

text \<open>\<open>memcpy(&v, p + i, 4)\<close> on a little-endian machine.\<close>

definition le32 :: "u8 list \<Rightarrow> nat \<Rightarrow> u32" where
  "le32 p i = ucast (p ! i) OR push_bit 8 (ucast (p ! (i + 1)))
     OR push_bit 16 (ucast (p ! (i + 2))) OR push_bit 24 (ucast (p ! (i + 3)))"

definition lz4_hash4 :: "u8 list \<Rightarrow> nat \<Rightarrow> nat" where
  "lz4_hash4 p i =
     unat (drop_bit (32 - LZ4_HASH_LOG) (le32 p i * 0x9E3779B1) AND (push_bit LZ4_HASH_LOG 1 - 1))"

text \<open>\<open>while (ip + len < srcSize && src[cand + len] == src[ip + len]) len++;\<close>\<close>

function match_len :: "u8 list \<Rightarrow> nat \<Rightarrow> nat \<Rightarrow> nat \<Rightarrow> nat \<Rightarrow> nat" where
  "match_len src srcSize cand ip len =
     (if ip + len < srcSize \<and> src ! (cand + len) = src ! (ip + len)
      then match_len src srcSize cand ip (len + 1) else len)"
  by auto
termination match_len
  by (relation "measure (\<lambda>(src, n, c, ip, len). n - (ip + len))") auto

declare match_len.simps [simp del]

text \<open>\<open>while (e >= 255) { dst[op++] = 255; e -= 255; } dst[op++] = (u8)e;\<close>\<close>

fun put_ext :: "nat \<Rightarrow> u8 list" where
  "put_ext e = (if e \<ge> 255 then 255 # put_ext (e - 255) else [of_nat e])"

declare put_ext.simps [simp del]

text \<open>
  A sequence is appended to the bytes written so far, so that \<open>op\<close> is their
  number: the token with the count of literals, the literals, the low nibble of
  the token, the offset and the rest of the match length.
\<close>

definition put_literals :: "u8 list \<Rightarrow> nat \<Rightarrow> nat \<Rightarrow> u8 list \<Rightarrow> u8 list" where
  "put_literals src anchor litLen out =
     out @ [of_nat ((if litLen \<ge> 15 then 15 else litLen) * 16)]
     @ (if litLen \<ge> 15 then put_ext (litLen - 15) else []) @ take litLen (drop anchor src)"

definition put_match :: "nat \<Rightarrow> nat \<Rightarrow> nat \<Rightarrow> u8 list \<Rightarrow> u8 list" where
  "put_match tok mlen off out =
     out[tok := out ! tok OR of_nat (if mlen \<ge> 15 then 15 else mlen)]
     @ [of_nat off, of_nat (off div 256)] @ (if mlen \<ge> 15 then put_ext (mlen - 15) else [])"

text \<open>
  One iteration of the main loop over \<open>ip\<close>, \<open>anchor\<close>, the output and the hash
  table. The loop ends with \<^term>\<open>None\<close> for \<open>return 0\<close> or with the start of the
  pending literals.
\<close>

type_synonym lz4_state = "nat \<times> nat \<times> u8 list \<times> u16 table"

definition lz4_compress_iter ::
    "u8 list \<Rightarrow> nat \<Rightarrow> nat \<Rightarrow> lz4_state \<Rightarrow> (nat option \<times> u8 list + lz4_state) mem_result" where
  "lz4_compress_iter src srcSize dstCapacity s =
     (case s of (ip, anchor, out, ht) \<Rightarrow>
      if \<not> ip < srcSize - 4 then Fine (Inl (Some anchor, out))
      else if ip + 4 > length src then Wild
      else let h = lz4_hash4 src ip; cand = unat (ht h); ht' = ht(h := of_nat ip) in
        if ht h \<noteq> 0xFFFF \<and> int ip - int cand > 0 \<and> int ip - int cand < 0x10000 then
          if cand + 4 > length src then Wild
          else if le32 src cand = le32 src ip then
            (let len = match_len src srcSize cand ip 4; litLen = ip - anchor; mlen = len - 4 in
             if length out + 1 + litLen div 255 + litLen + 2 + mlen div 255 > dstCapacity
             then Fine (Inl (None, out))
             else Fine (Inr (ip + len, ip + len,
                    put_match (length out) mlen (ip - cand) (put_literals src anchor litLen out), ht')))
          else Fine (Inr (ip + 1, anchor, out, ht'))
        else Fine (Inr (ip + 1, anchor, out, ht')))"

definition compress_step ::
    "u8 list \<Rightarrow> nat \<Rightarrow> nat \<Rightarrow> lz4_state \<Rightarrow> (nat option \<times> u8 list) mem_result + lz4_state" where
  "compress_step src srcSize dstCapacity s = stepped (lz4_compress_iter src srcSize dstCapacity s)"

text \<open>
  The return value and the bytes written to \<open>dst\<close>; a null pointer is \<^term>\<open>None\<close>
  for \<open>src\<close> and a flag for the two others.
\<close>

definition lz4_compress ::
    "u8 list option \<Rightarrow> int \<Rightarrow> bool \<Rightarrow> int \<Rightarrow> bool \<Rightarrow> (nat \<times> u8 list) mem_result" where
  "lz4_compress src srcSize dst_null dstCapacity scratch_null =
     (case src of
        None \<Rightarrow> Fine (0, [])
      | Some s \<Rightarrow>
          if dst_null \<or> scratch_null \<or> srcSize < 5 \<or> dstCapacity \<le> 0 then Fine (0, [])
          else mem_bind
            (returned (loop (compress_step s (nat srcSize) (nat dstCapacity)) (0, 0, [], (\<lambda>_. 0xFFFF))))
            (\<lambda>r. case r of
               (None, out) \<Rightarrow> Fine (0, out)
             | (Some anchor, out) \<Rightarrow>
                 (let litLen = nat srcSize - anchor in
                  if length out + 1 + litLen div 255 + litLen > nat dstCapacity then Fine (0, out)
                  else let out' = put_literals s anchor litLen out in Fine (length out', out'))))"

section \<open>Decompressor\<close>

definition INT_MAX :: nat where "INT_MAX = 2 ^ 31 - 1"

text \<open>
  The largest value of the code's ints: \<open>INT_MAX\<close> for any two sizes that are
  ints themselves. (For sizes that are not, which no call passes, it is the
  larger of the two.)
\<close>

definition int_limit :: "nat \<Rightarrow> nat \<Rightarrow> nat" where
  "int_limit srcSize dstSize = max INT_MAX (max srcSize dstSize)"

text \<open>
  The loop that adds up the bytes of a long length: \<^term>\<open>None\<close> is \<open>return -1\<close> at
  the end of the input, and a length above \<open>lim\<close> overflows.
\<close>

function get_ext :: "nat \<Rightarrow> u8 list \<Rightarrow> nat \<Rightarrow> nat \<Rightarrow> nat \<Rightarrow> (nat \<times> nat) option mem_result" where
  "get_ext lim src srcSize ip len =
     (if ip \<ge> srcSize then Fine None
      else if ip \<ge> length src then Wild
      else let b = src ! ip in
        if len + unat b > lim then Wild
        else if b \<noteq> 255 then Fine (Some (ip + 1, len + unat b))
        else get_ext lim src srcSize (ip + 1) (len + unat b))"
  by auto
termination get_ext
  by (relation "measure (\<lambda>(lim, src, n, ip, len). n - ip)") auto

declare get_ext.simps [simp del]

definition mem_copy :: "u8 list \<Rightarrow> nat \<Rightarrow> u8 list \<Rightarrow> nat \<Rightarrow> nat \<Rightarrow> u8 list mem_result" where
  "mem_copy dst dpos src spos n =
     (if n = 0 then Fine dst
      else if dpos + n \<le> length dst \<and> spos + n \<le> length src
      then Fine (take dpos dst @ take n (drop spos src) @ drop (dpos + n) dst) else Wild)"

text \<open>\<open>for (i = 0; i < mlen; i++) dst[op + i] = dst[op + i - off];\<close>\<close>

primrec copy_match :: "nat \<Rightarrow> nat \<Rightarrow> nat \<Rightarrow> u8 list \<Rightarrow> u8 list mem_result" where
  "copy_match op off 0 dst = Fine dst"
| "copy_match op off (Suc i) dst =
     mem_bind (copy_match op off i dst) (\<lambda>d.
       if op + i < length d \<and> off \<le> op + i then Fine (d[op + i := d ! (op + i - off)]) else Wild)"

text \<open>\<open>src[ip] | (src[ip + 1] << 8)\<close>\<close>

definition le16 :: "u8 list \<Rightarrow> nat \<Rightarrow> nat" where
  "le16 p i = unat (ucast (p ! i) OR push_bit 8 (ucast (p ! (i + 1))) :: u32)"

text \<open>
  One iteration, first from the offset on, then from the token. \<open>Inl (r, dst)\<close>
  returns \<open>r\<close>; \<open>Inr\<close> goes on with \<open>ip\<close>, \<open>op\<close> and \<open>dst\<close>.
\<close>

definition lz4_match ::
    "u8 list \<Rightarrow> nat \<Rightarrow> nat \<Rightarrow> u8 \<Rightarrow> nat \<times> nat \<times> u8 list \<Rightarrow> (int \<times> u8 list + nat \<times> nat \<times> u8 list) mem_result" where
  "lz4_match src srcSize dstSize token s =
     (case s of (ip, op, dst) \<Rightarrow>
      if ip + 2 > srcSize then Fine (Inl (- 1, dst))
      else if ip + 2 > length src then Wild
      else let off = le16 src ip; low = unat (token AND 0xF); lim = int_limit srcSize dstSize in
        if off = 0 \<or> off > op then Fine (Inl (- 1, dst))
        else mem_bind (if low = 15 then get_ext lim src srcSize (ip + 2) (low + 4) else Fine (Some (ip + 2, low + 4))) (\<lambda>r.
          case r of
            None \<Rightarrow> Fine (Inl (- 1, dst))
          | Some (ip', mlen) \<Rightarrow>
              if op + mlen > lim then Wild
              else if op + mlen > dstSize then Fine (Inl (- 1, dst))
              else mem_bind (copy_match op off mlen dst) (\<lambda>dst'. Fine (Inr (ip', op + mlen, dst')))))"

definition lz4_sequence ::
    "u8 list \<Rightarrow> nat \<Rightarrow> nat \<Rightarrow> nat \<times> nat \<times> u8 list \<Rightarrow> (int \<times> u8 list + nat \<times> nat \<times> u8 list) mem_result" where
  "lz4_sequence src srcSize dstSize s =
     (case s of (ip, op, dst) \<Rightarrow>
      if ip \<ge> srcSize then Fine (Inl (- 1, dst))
      else if ip \<ge> length src then Wild
      else let token = src ! ip; lit = unat (drop_bit 4 token); lim = int_limit srcSize dstSize in
        mem_bind (if lit = 15 then get_ext lim src srcSize (ip + 1) lit else Fine (Some (ip + 1, lit))) (\<lambda>r.
          case r of
            None \<Rightarrow> Fine (Inl (- 1, dst))
          | Some (ip', litLen) \<Rightarrow>
              if op + litLen > lim then Wild
              else if op + litLen > dstSize then Fine (Inl (- 1, dst))
              else if ip' + litLen > lim then Wild
              else if ip' + litLen > srcSize then Fine (Inl (- 1, dst))
              else mem_bind (mem_copy dst op src ip' litLen) (\<lambda>dst'.
                if op + litLen = dstSize then Fine (Inl (0, dst'))
                else lz4_match src srcSize dstSize token (ip' + litLen, op + litLen, dst'))))"

definition decompress_step ::
    "u8 list \<Rightarrow> nat \<Rightarrow> nat \<Rightarrow> nat \<times> nat \<times> u8 list \<Rightarrow> (int \<times> u8 list) mem_result + nat \<times> nat \<times> u8 list" where
  "decompress_step src srcSize dstSize s = stepped (lz4_sequence src srcSize dstSize s)"

definition lz4_decompress ::
    "u8 list option \<Rightarrow> int \<Rightarrow> u8 list option \<Rightarrow> int \<Rightarrow> (int \<times> u8 list option) mem_result" where
  "lz4_decompress src srcSize dst dstSize =
     (case (src, dst) of
        (Some s, Some d) \<Rightarrow>
          if srcSize \<le> 0 \<or> dstSize \<le> 0 then Fine (- 1, dst)
          else mem_bind (returned (loop (decompress_step s (nat srcSize) (nat dstSize)) (0, 0, d)))
                 (\<lambda>(r, d'). Fine (r, Some d'))
      | _ \<Rightarrow> Fine (- 1, dst))"

section \<open>Safety of the decompressor\<close>

lemma get_ext_safe:
  assumes "srcSize \<le> length src" "len + 255 * (srcSize - ip) \<le> lim"
  shows "get_ext lim src srcSize ip len = Fine None
     \<or> (\<exists>ip' len'. get_ext lim src srcSize ip len = Fine (Some (ip', len')) \<and> ip < ip' \<and> ip' \<le> srcSize
          \<and> len \<le> len' \<and> len' \<le> len + 255 * (ip' - ip))"
  using assms
proof (induction lim src srcSize ip len rule: get_ext.induct)
  case (1 lim src srcSize ip len)
  have b: "unat b \<le> 255" for b :: u8
    using unsigned_less [of b, where ?'a = nat] by simp
  show ?case
  proof (cases "ip < srcSize \<and> src ! ip = 255")
    case True
    then have le: "len + 255 + 255 * (srcSize - (ip + 1)) \<le> lim" "len + 255 \<le> lim"
      using "1.prems"(2) Suc_diff_Suc [of ip srcSize] by simp_all
    have eq: "get_ext lim src srcSize ip len = get_ext lim src srcSize (ip + 1) (len + 255)"
      using "1.prems" True le(2) by (subst get_ext.simps) (simp add: Let_def)
    from 1 True le have "get_ext lim src srcSize (ip + 1) (len + 255) = Fine None
       \<or> (\<exists>ip' len'. get_ext lim src srcSize (ip + 1) (len + 255) = Fine (Some (ip', len')) \<and> ip + 1 < ip' \<and> ip' \<le> srcSize
          \<and> len + 255 \<le> len' \<and> len' \<le> len + 255 + 255 * (ip' - (ip + 1)))" by simp
    then show ?thesis unfolding eq by fastforce
  next
    case False
    show ?thesis
    proof (cases "ip < srcSize")
      case True
      then have "len + unat (src ! ip) \<le> lim"
        using "1.prems"(2) b [of "src ! ip"] Suc_diff_Suc [of ip srcSize] by simp
      then show ?thesis
        using False True "1.prems"(1) b [of "src ! ip"] by (subst (1 2) get_ext.simps) (simp add: Let_def)
    qed (simp add: get_ext.simps)
  qed
qed

text \<open>Sizes for which no length the decompressor reads can overflow.\<close>

definition sizes_fit :: "nat \<Rightarrow> nat \<Rightarrow> bool" where
  "sizes_fit srcSize dstSize \<longleftrightarrow> 256 * srcSize + dstSize + 19 \<le> INT_MAX"

lemma sizes_fit_limit: "sizes_fit srcSize dstSize \<Longrightarrow> 256 * srcSize + dstSize + 19 \<le> int_limit srcSize dstSize"
  by (simp add: sizes_fit_def int_limit_def)

lemma mem_copy_inside:
  assumes "dpos + n \<le> length dst" "spos + n \<le> length src"
  shows "mem_copy dst dpos src spos n = Fine (take dpos dst @ take n (drop spos src) @ drop (dpos + n) dst)"
  using assms by (cases n) (simp_all add: mem_copy_def)

lemma copy_match_safe:
  assumes "op + m \<le> length dst" "off \<le> op"
  shows "\<exists>d. copy_match op off m dst = Fine d \<and> length d = length dst \<and> (\<forall>j. j < op \<or> op + m \<le> j \<longrightarrow> d ! j = dst ! j)"
  using assms
proof (induction m)
  case (Suc m)
  then obtain d where d: "copy_match op off m dst = Fine d" "length d = length dst"
    "\<And>j. j < op \<or> op + m \<le> j \<Longrightarrow> d ! j = dst ! j" by auto
  then show ?case using Suc.prems by auto
qed simp

text \<open>What an iteration of the decompressor does to its state.\<close>

definition decompressing :: "u8 list \<Rightarrow> nat \<Rightarrow> nat \<times> nat \<times> u8 list \<Rightarrow> bool" where
  "decompressing dst dstSize s = (case s of (ip, op, d) \<Rightarrow>
     op \<le> dstSize \<and> dstSize \<le> length d \<and> length d = length dst \<and> drop dstSize d = drop dstSize dst)"

lemma drop_eq_nth: "length d = length e \<Longrightarrow> (\<And>j. n \<le> j \<Longrightarrow> d ! j = e ! j) \<Longrightarrow> drop n d = drop n e"
  by (auto intro: nth_equalityI)

definition sequence_safe ::
    "u8 list \<Rightarrow> nat \<Rightarrow> nat \<Rightarrow> nat \<Rightarrow> (int \<times> u8 list + nat \<times> nat \<times> u8 list) mem_result \<Rightarrow> bool" where
  "sequence_safe dst dstSize srcSize ip r \<longleftrightarrow>
     (\<exists>v d. r = Fine (Inl (v, d)) \<and> (v = 0 \<or> v = - 1) \<and> length d = length dst \<and> drop dstSize d = drop dstSize dst)
     \<or> (\<exists>ip' op' d. r = Fine (Inr (ip', op', d)) \<and> ip < ip' \<and> ip' \<le> srcSize \<and> decompressing dst dstSize (ip', op', d))"

lemma sequence_safe_ret:
  "decompressing dst dstSize (ip, op, d) \<Longrightarrow> v = 0 \<or> v = - 1 \<Longrightarrow> sequence_safe dst dstSize srcSize ip' (Fine (Inl (v, d)))"
  by (auto simp: sequence_safe_def decompressing_def)

lemma lz4_match_safe:
  assumes src: "srcSize \<le> length src" and fit: "sizes_fit srcSize dstSize" and inv: "decompressing dst dstSize (ip, op, d)" and "ip0 \<le> ip"
  shows "sequence_safe dst dstSize srcSize ip0 (lz4_match src srcSize dstSize token (ip, op, d))"
proof -
  define off where "off = le16 src ip"
  define low where "low = unat (token AND 0xF)"
  define lim where "lim = int_limit srcSize dstSize"
  define r where "r = (if low = 15 then get_ext lim src srcSize (ip + 2) (low + 4) else Fine (Some (ip + 2, low + 4)))"
  have lim: "256 * srcSize + dstSize + 19 \<le> lim" using sizes_fit_limit [OF fit] by (simp add: lim_def)
  have low: "low \<le> 15" unfolding low_def using word_and_le1 [of token "0xF"] by (simp add: word_le_nat_alt)
  note stop = sequence_safe_ret [OF inv, of "- 1"]
  show ?thesis
  proof (cases "ip + 2 > srcSize \<or> off = 0 \<or> off > op")
    case True
    then show ?thesis using src stop by (auto simp: lz4_match_def Let_def off_def)
  next
    case False
    then have eq: "lz4_match src srcSize dstSize token (ip, op, d) = mem_bind r (\<lambda>r. case r of
        None \<Rightarrow> Fine (Inl (- 1, d))
      | Some (ip', mlen) \<Rightarrow> if op + mlen > lim then Wild else if op + mlen > dstSize then Fine (Inl (- 1, d))
          else mem_bind (copy_match op off mlen d) (\<lambda>d'. Fine (Inr (ip', op + mlen, d'))))"
      using src unfolding off_def r_def low_def lim_def by (simp add: lz4_match_def Let_def)
    have op: "op \<le> dstSize" using inv by (simp add: decompressing_def)
    have room: "low + 4 + 255 * (srcSize - (ip + 2)) \<le> lim" using lim low by simp
    have "r = Fine None \<or> (\<exists>ip' n. r = Fine (Some (ip', n)) \<and> ip < ip' \<and> ip' \<le> srcSize \<and> n \<le> low + 4 + 255 * (ip' - (ip + 2)))"
      using get_ext_safe [OF src room] False unfolding r_def by (cases "low = 15") fastforce+
    moreover have "op + n \<le> lim" if "ip' \<le> srcSize" "n \<le> low + 4 + 255 * (ip' - (ip + 2))" for ip' n
      using that low op lim by simp
    ultimately consider "r = Fine None"
      | ip' mlen where "r = Fine (Some (ip', mlen))" "ip < ip'" "ip' \<le> srcSize" "op + mlen \<le> lim" by blast
    then show ?thesis
    proof cases
      case (2 ip' mlen)
      show ?thesis
      proof (cases "op + mlen > dstSize")
        case le: False
        then obtain d' where "copy_match op off mlen d = Fine d'" "length d' = length d"
          "\<forall>j. j < op \<or> op + mlen \<le> j \<longrightarrow> d' ! j = d ! j"
          using copy_match_safe [of op mlen d off] inv False by (auto simp: decompressing_def)
        moreover from this have "drop dstSize d' = drop dstSize d" using le by (intro drop_eq_nth) auto
        ultimately show ?thesis
          using 2 le eq inv \<open>ip0 \<le> ip\<close> by (auto simp: sequence_safe_def decompressing_def)
      qed (use 2 eq stop in simp)
    qed (use eq stop in simp)
  qed
qed

lemma lz4_sequence_safe:
  assumes src: "srcSize \<le> length src" and fit: "sizes_fit srcSize dstSize" and inv: "decompressing dst dstSize (ip, op, d)"
  shows "sequence_safe dst dstSize srcSize ip (lz4_sequence src srcSize dstSize (ip, op, d))"
proof -
  define lit where "lit = unat (drop_bit 4 (src ! ip))"
  define lim where "lim = int_limit srcSize dstSize"
  define r where "r = (if lit = 15 then get_ext lim src srcSize (ip + 1) lit else Fine (Some (ip + 1, lit)))"
  have lim: "256 * srcSize + dstSize + 19 \<le> lim" using sizes_fit_limit [OF fit] by (simp add: lim_def)
  have lit: "lit \<le> 15" unfolding lit_def using unsigned_less [of "src ! ip", where ?'a = nat]
    by (subst unsigned_drop_bit_eq) (simp add: take_bit_nat_eq_self drop_bit_eq_div)
  note stop = sequence_safe_ret [OF inv, of "- 1"]
  show ?thesis
  proof (cases "ip < srcSize")
    case True
    then have eq: "lz4_sequence src srcSize dstSize (ip, op, d) = mem_bind r (\<lambda>r. case r of
        None \<Rightarrow> Fine (Inl (- 1, d))
      | Some (ip', n) \<Rightarrow> if op + n > lim then Wild else if op + n > dstSize then Fine (Inl (- 1, d))
          else if ip' + n > lim then Wild else if ip' + n > srcSize then Fine (Inl (- 1, d))
          else mem_bind (mem_copy d op src ip' n) (\<lambda>d'. if op + n = dstSize then Fine (Inl (0, d'))
            else lz4_match src srcSize dstSize (src ! ip) (ip' + n, op + n, d')))"
      using src unfolding r_def lit_def lim_def by (simp add: lz4_sequence_def Let_def)
    have op: "op \<le> dstSize" using inv by (simp add: decompressing_def)
    have room: "lit + 255 * (srcSize - (ip + 1)) \<le> lim" using lim lit by simp
    have "r = Fine None \<or> (\<exists>ip' n. r = Fine (Some (ip', n)) \<and> ip < ip' \<and> ip' \<le> srcSize \<and> n \<le> lit + 255 * (ip' - (ip + 1)))"
      using get_ext_safe [OF src room] True unfolding r_def by (cases "lit = 15") fastforce+
    moreover have "n \<le> 15 + 255 * srcSize" if "ip' \<le> srcSize" "n \<le> lit + 255 * (ip' - (ip + 1))" for ip' n
      using that lit by simp
    ultimately consider "r = Fine None"
      | ip' n where "r = Fine (Some (ip', n))" "ip < ip'" "ip' \<le> srcSize" "n \<le> 15 + 255 * srcSize" by blast
    then show ?thesis
    proof cases
      case (2 ip' n)
      have "op + n \<le> lim" "ip' + n \<le> lim" using 2(3,4) op lim by simp_all
      note 2 = 2(1,2) this
      show ?thesis
      proof (cases "op + n > dstSize \<or> ip' + n > srcSize")
        case le: False
        define lits where "lits = take n (drop ip' src)"
        define d' where "d' = take op d @ lits @ drop (op + n) d"
        have lits: "length lits = n" using le src by (auto simp: lits_def)
        have "mem_copy d op src ip' n = Fine d'"
          using le src inv by (simp add: mem_copy_inside d'_def decompressing_def lits_def)
        moreover have "decompressing dst dstSize (ip' + n, op + n, d')"
          using le inv lits by (auto simp: decompressing_def d'_def)
        ultimately show ?thesis
          using 2 le eq lz4_match_safe [OF src fit, of dst "ip' + n" "op + n" d' ip]
            sequence_safe_ret [of dst dstSize "ip' + n" "op + n" d' 0] by simp
      qed (use 2 eq stop in auto)
    qed (use eq stop in simp)
  qed (use stop in \<open>simp add: lz4_sequence_def\<close>)
qed

interpretation lz4_out: bounded_loop "decompress_step src srcSize dstSize"
  "\<lambda>s. srcSize \<le> length src \<and> sizes_fit srcSize dstSize \<and> decompressing dst dstSize s" "\<lambda>(ip, op, d). srcSize - ip"
  for src srcSize dstSize dst
proof
  fix s t
  assume s: "srcSize \<le> length src \<and> sizes_fit srcSize dstSize \<and> decompressing dst dstSize s" and step: "decompress_step src srcSize dstSize s = Inr t"
  obtain ip op d where sq: "s = (ip, op, d)" by (cases s)
  have "sequence_safe dst dstSize srcSize ip (lz4_sequence src srcSize dstSize s)"
    using s lz4_sequence_safe by (simp add: sq)
  with step have "\<exists>ip' op' d'. t = (ip', op', d') \<and> ip < ip' \<and> ip' \<le> srcSize \<and> decompressing dst dstSize (ip', op', d')"
    by (auto simp: sequence_safe_def decompress_step_def)
  then show "srcSize \<le> length src \<and> sizes_fit srcSize dstSize \<and> decompressing dst dstSize t"
    and "(case t of (ip, op, d) \<Rightarrow> srcSize - ip) < (case s of (ip, op, d) \<Rightarrow> srcSize - ip)"
    using s by (auto simp: sq)
qed

lemma decompress_loop_safe:
  assumes "srcSize \<le> length src" "sizes_fit srcSize dstSize" "dstSize \<le> length dst"
  shows "\<exists>r d. loop (decompress_step src srcSize dstSize) (0, 0, dst) = Some (Fine (r, d))
     \<and> (r = 0 \<or> r = - 1) \<and> length d = length dst \<and> drop dstSize d = drop dstSize dst"
proof -
  have "srcSize \<le> length src \<and> sizes_fit srcSize dstSize \<and> decompressing dst dstSize (0, 0, dst)"
    using assms by (simp add: decompressing_def)
  from lz4_out.returns_last [OF this] obtain t r where t: "decompressing dst dstSize t"
    "decompress_step src srcSize dstSize t = Inl r" "loop (decompress_step src srcSize dstSize) (0, 0, dst) = Some r"
    by blast
  obtain ip op d where "t = (ip, op, d)" by (cases t)
  then have "sequence_safe dst dstSize srcSize ip (lz4_sequence src srcSize dstSize t)"
    using lz4_sequence_safe [OF assms(1,2)] t(1) by simp
  then show ?thesis using t(2,3) by (auto simp: sequence_safe_def decompress_step_def)
qed

section \<open>Encoding of one sequence\<close>

definition enc_ext :: "nat \<Rightarrow> u8 list" where
  "enc_ext n = (if n \<ge> 15 then put_ext (n - 15) else [])"

definition enc_token :: "nat \<Rightarrow> nat \<Rightarrow> u8" where
  "enc_token n m = of_nat (min n 15 * 16 + min m 15)"

definition enc_seq :: "u8 list \<Rightarrow> nat \<Rightarrow> nat \<Rightarrow> u8 list" where
  "enc_seq lits off mlen =
     enc_token (length lits) mlen # enc_ext (length lits) @ lits @ [of_nat off, of_nat (off div 256)] @ enc_ext mlen"

lemma length_put_ext: "length (put_ext e) = e div 255 + 1"
proof (induction e rule: put_ext.induct)
  case (1 e)
  then show ?case by (subst put_ext.simps) (auto simp: le_div_geq)
qed

lemma length_enc_ext: "length (enc_ext n) = (if n \<ge> 15 then (n - 15) div 255 + 1 else 0)"
  by (simp add: enc_ext_def length_put_ext)

lemma u8_shift_or:
  assumes "a < 16" "b < 16"
  shows "(of_nat (a * 16) :: u8) OR of_nat b = of_nat (a * 16 + b)"
proof -
  have "\<not> bit (of_nat (a * 16) :: u8) n \<or> \<not> bit (of_nat b :: u8) n" for n
  proof (cases "n < 4")
    case True
    have "a * 16 = push_bit 4 a" by (simp add: push_bit_eq_mult)
    then show ?thesis using True by (simp add: bit_simps)
  next
    case False
    then have "(16 :: nat) \<le> 2 ^ n" using power_increasing [of 4 n "2 :: nat"] by simp
    then have "\<not> bit b n" using assms(2) by (simp add: bit_iff_odd)
    then show ?thesis by (simp add: bit_simps)
  qed
  then show ?thesis by (simp add: disjunctive_add)
qed

lemma unat_token: "unat (enc_token n m) = min n 15 * 16 + min m 15"
proof -
  have "min n 15 * 16 + min m 15 < 256" by linarith
  then show ?thesis unfolding enc_token_def by (simp only: unsigned_of_nat) (simp add: take_bit_nat_eq_self)
qed

lemma token_literals: "unat (drop_bit 4 (enc_token n m)) = min n 15"
  by (simp only: unsigned_drop_bit_eq unat_token) (simp add: drop_bit_eq_div take_bit_nat_eq_self)

lemma token_match: "unat (enc_token n m AND 0xF) = min m 15"
proof -
  have "(0xF :: u8) = mask 4" by (simp add: mask_eq_exp_minus_1)
  then have "enc_token n m AND 0xF = take_bit 4 (enc_token n m)" by (simp only: take_bit_eq_mask)
  then show ?thesis by (simp only: unsigned_take_bit_eq unat_token) (simp add: take_bit_eq_mod)
qed

lemma le16_unat: "le16 p i = unat (p ! i) + unat (p ! (i + 1)) * 256"
proof -
  have "ucast a OR push_bit 8 (ucast b) = (ucast a + push_bit 8 (ucast b) :: u32)" for a b :: u8
    by (rule disjunctive_add [symmetric]) (auto simp: bit_simps dest: bit_imp_le_length)
  moreover have "unat (ucast a + push_bit 8 (ucast b) :: u32) = unat a + unat b * 256" for a b :: u8
    using unsigned_less [of a, where ?'a = nat] unsigned_less [of b, where ?'a = nat]
    by (simp add: push_bit_eq_mult unat_word_ariths unsigned_ucast_eq take_bit_nat_eq_self)
  ultimately show ?thesis by (simp add: le16_def)
qed

lemma put_literals_last: "put_literals src anchor n out = out @ enc_token n 0 # enc_ext n @ take n (drop anchor src)"
  by (simp add: put_literals_def enc_token_def enc_ext_def min_def)

lemma put_sequence:
  assumes "anchor + n \<le> length src"
  shows "put_match (length out) mlen off (put_literals src anchor n out) = out @ enc_seq (take n (drop anchor src)) off mlen"
proof -
  have "(if 15 \<le> mlen then 15 else mlen) = min mlen 15" by simp
  then have tok: "enc_token n 0 OR of_nat (if mlen \<ge> 15 then 15 else mlen) = enc_token n mlen"
    using u8_shift_or [of "min n 15" "min mlen 15"] by (simp only: enc_token_def) simp
  define lits where "lits = take n (drop anchor src)"
  have "length lits = n" using assms by (auto simp: lits_def)
  then show ?thesis
    unfolding put_match_def put_literals_last lits_def [symmetric] enc_seq_def
    by (simp add: tok enc_ext_def)
qed

lemma get_ext_put_ext:
  assumes "drop ip src = put_ext e @ rest" "ip + length (put_ext e) \<le> srcSize" "srcSize \<le> length src" "len + e \<le> lim"
  shows "get_ext lim src srcSize ip len = Fine (Some (ip + length (put_ext e), len + e))"
  using assms
proof (induction e arbitrary: ip len rule: put_ext.induct)
  case (1 e)
  show ?case
  proof (cases "e \<ge> 255")
    case True
    then have put: "put_ext e = 255 # put_ext (e - 255)" by (subst put_ext.simps) simp
    have "drop (ip + 1) src = put_ext (e - 255) @ rest" using "1.prems"(1) put by (metis append_Cons drop_Suc drop_drop list.sel(3) tl_drop add.commute plus_1_eq_Suc)
    then have IH: "get_ext lim src srcSize (ip + 1) (len + 255) = Fine (Some (ip + 1 + length (put_ext (e - 255)), len + 255 + (e - 255)))"
      using "1.IH" [OF True] "1.prems"(2-4) put True by simp
    have "src ! ip = 255" using "1.prems"(1) put by (metis append_Cons hd_drop_conv_nth length_drop list.sel(1) list.size(3) not_le_imp_less drop_all list.distinct(1))
    then have "get_ext lim src srcSize ip len = get_ext lim src srcSize (ip + 1) (len + 255)"
      using "1.prems"(2-4) put True by (subst get_ext.simps) (simp add: Let_def)
    with IH put True show ?thesis by simp
  next
    case False
    then have put: "put_ext e = [of_nat e]" by (subst put_ext.simps) simp
    have "src ! ip = of_nat e" using "1.prems"(1) put by (metis append_Cons hd_drop_conv_nth list.sel(1) not_le_imp_less drop_all list.distinct(1))
    moreover have "unat (of_nat e :: u8) = e" using False by (simp add: unsigned_of_nat take_bit_nat_eq_self)
    moreover have "(of_nat e :: u8) \<noteq> 255" using False calculation(2) by auto
    ultimately show ?thesis
      using "1.prems"(2-4) put by (subst get_ext.simps) (simp add: Let_def)
  qed
qed

lemma get_length:
  assumes "drop ip src = enc_ext n @ rest" "ip + length (enc_ext n) \<le> srcSize" "srcSize \<le> length src" "n + k \<le> lim"
  shows "(if min n 15 = 15 then get_ext lim src srcSize ip (min n 15 + k) else Fine (Some (ip, min n 15 + k)))
     = Fine (Some (ip + length (enc_ext n), n + k))"
proof (cases "n \<ge> 15")
  case True
  then show ?thesis
    using get_ext_put_ext [of ip src "n - 15" rest srcSize "15 + k" lim] assms by (simp add: enc_ext_def)
qed (simp add: enc_ext_def)

section \<open>Decoding what was encoded\<close>

text \<open>
  \<open>seqs_ok orig k ss k'\<close>: the sequences \<open>ss\<close>, each a number of literals, an offset
  and a match length, describe the bytes of \<open>orig\<close> from \<open>k\<close> to \<open>k'\<close>.
\<close>

type_synonym lz4_seq = "nat \<times> nat \<times> nat"

fun seqs_ok :: "u8 list \<Rightarrow> nat \<Rightarrow> lz4_seq list \<Rightarrow> nat \<Rightarrow> bool" where
  "seqs_ok orig k [] k' \<longleftrightarrow> k = k'"
| "seqs_ok orig k ((n, off, m) # ss) k' \<longleftrightarrow>
     k + n + m \<le> length orig \<and> 4 \<le> m \<and> 0 < off \<and> off \<le> k + n \<and> off < 65536
     \<and> (\<forall>i < m. orig ! (k + n + i) = orig ! (k + n + i - off)) \<and> seqs_ok orig (k + n + m) ss k'"

fun enc_seqs :: "u8 list \<Rightarrow> nat \<Rightarrow> lz4_seq list \<Rightarrow> u8 list" where
  "enc_seqs orig k [] = []"
| "enc_seqs orig k ((n, off, m) # ss) =
     enc_seq (take n (drop k orig)) off (m - 4) @ enc_seqs orig (k + n + m) ss"

lemma seqs_ok_append: "seqs_ok orig k (ss @ ts) k'' \<longleftrightarrow> (\<exists>k'. seqs_ok orig k ss k' \<and> seqs_ok orig k' ts k'')"
  by (induction orig k ss k'' rule: seqs_ok.induct) auto

lemma enc_seqs_append: "seqs_ok orig k ss k' \<Longrightarrow> enc_seqs orig k (ss @ ts) = enc_seqs orig k ss @ enc_seqs orig k' ts"
  by (induction orig k ss k' rule: seqs_ok.induct) auto

lemma seqs_ok_le: "seqs_ok orig k ss k' \<Longrightarrow> k' \<le> length orig \<or> ss = []" "seqs_ok orig k ss k' \<Longrightarrow> k \<le> k'"
  by (induction orig k ss k' rule: seqs_ok.induct) auto

lemma copy_match_decodes:
  assumes "op + m \<le> length dst" "off \<le> op" "0 < off" "op + m \<le> length orig"
    and "\<And>i. i < m \<Longrightarrow> orig ! (op + i) = orig ! (op + i - off)" and "take op dst = take op orig"
  shows "\<exists>d. copy_match op off m dst = Fine d \<and> length d = length dst \<and> take (op + m) d = take (op + m) orig"
  using assms
proof (induction m)
  case (Suc m)
  have "op + m \<le> length dst" "op + m \<le> length orig" "\<And>i. i < m \<Longrightarrow> orig ! (op + i) = orig ! (op + i - off)"
    using Suc.prems(1,4,5) by simp_all
  from Suc.IH [OF this(1) Suc.prems(2,3) this(2,3) Suc.prems(6)]
  obtain d where d: "copy_match op off m dst = Fine d" "length d = length dst" "take (op + m) d = take (op + m) orig"
    by blast
  have "op + m - off < op + m" using Suc.prems(2,3) by simp
  then have "d ! (op + m - off) = orig ! (op + m - off)" using d(3) by (metis nth_take)
  then have "d ! (op + m - off) = orig ! (op + m)" using Suc.prems(5) [of m] by simp
  then have "take (op + Suc m) (d[op + m := d ! (op + m - off)]) = take (op + Suc m) orig"
    using d(2,3) Suc.prems(1,4) by (simp add: take_Suc_conv_app_nth)
  then show ?case using d Suc.prems(1,2) by simp
qed simp

lemma nth_drop_append:
  assumes "drop ip src = xs @ rest" "i < length xs"
  shows "src ! (ip + i) = xs ! i"
proof -
  have "ip \<le> length src" using assms by (cases "ip \<le> length src") auto
  then have "src ! (ip + i) = drop ip src ! i" by simp
  then show ?thesis using assms by (simp add: nth_append)
qed

lemma drop_append_drop: "drop ip src = xs @ rest \<Longrightarrow> drop (ip + length xs) src = rest"
  by (metis add.commute append_eq_conv_conj drop_drop)

lemma literals_decode:
  assumes blob: "drop ip src = enc_token n m # enc_ext n @ lits @ rest" and lits: "lits = take n (drop op orig)"
    and size: "ip + 1 + length (enc_ext n) + n \<le> srcSize" "srcSize \<le> length src"
    and dst: "dstSize \<le> length dst" "op + n \<le> dstSize" "dstSize \<le> length orig" "take op dst = take op orig"
  defines "ip' \<equiv> ip + 1 + length (enc_ext n) + n"
  shows "\<exists>d. length d = length dst \<and> take (op + n) d = take (op + n) orig \<and> drop ip' src = rest
     \<and> lz4_sequence src srcSize dstSize (ip, op, dst) =
         (if op + n = dstSize then Fine (Inl (0, d))
          else lz4_match src srcSize dstSize (enc_token n m) (ip', op + n, d))"
proof -
  have len: "length lits = n" using dst by (auto simp: lits)
  have tok: "src ! ip = enc_token n m"
    using nth_drop_append [of ip src "[enc_token n m]" "enc_ext n @ lits @ rest" 0] blob by simp
  have ext: "drop (ip + 1) src = enc_ext n @ lits @ rest"
    using drop_append_drop [of ip src "[enc_token n m]" "enc_ext n @ lits @ rest"] blob by simp
  then have body: "drop (ip + 1 + length (enc_ext n)) src = lits @ rest" by (rule drop_append_drop)
  then have rest: "drop ip' src = rest" using drop_append_drop [OF body] len by (simp add: ip'_def)
  have "n \<le> int_limit srcSize dstSize" using dst(2) by (simp add: int_limit_def)
  then have ext_len: "(if min n 15 = 15 then get_ext (int_limit srcSize dstSize) src srcSize (ip + 1) (min n 15) else Fine (Some (ip + 1, min n 15)))
      = Fine (Some (ip + 1 + length (enc_ext n), n))"
    using get_length [OF ext _ size(2), of 0 "int_limit srcSize dstSize"] size(1) by (simp only: add_0_right)
  define d where "d = take op dst @ lits @ drop (op + n) dst"
  have copy: "mem_copy dst op src (ip + 1 + length (enc_ext n)) n = Fine d"
    using mem_copy_inside [of op n dst "ip + 1 + length (enc_ext n)" src] dst size body len by (simp add: d_def)
  have "lz4_sequence src srcSize dstSize (ip, op, dst) =
         (if op + n = dstSize then Fine (Inl (0, d))
          else lz4_match src srcSize dstSize (enc_token n m) (ip', op + n, d))"
    unfolding lz4_sequence_def prod.case tok token_literals Let_def ext_len
    using size dst copy by (simp add: ip'_def int_limit_def)
  moreover have "length d = length dst" using dst len by (simp add: d_def)
  moreover have "take (op + n) d = take (op + n) orig"
    using dst len by (simp add: d_def lits take_add)
  ultimately show ?thesis using rest by blast
qed

lemma match_decode:
  assumes blob: "drop ip src = of_nat off # of_nat (off div 256) # enc_ext (m - 4) @ rest"
    and size: "ip + 2 + length (enc_ext (m - 4)) \<le> srcSize" "srcSize \<le> length src"
    and dst: "dstSize \<le> length dst" "op + m \<le> dstSize" "dstSize \<le> length orig" "take op dst = take op orig"
    and m: "4 \<le> m" "0 < off" "off \<le> op" "off < 65536" "\<And>i. i < m \<Longrightarrow> orig ! (op + i) = orig ! (op + i - off)"
  defines "ip' \<equiv> ip + 2 + length (enc_ext (m - 4))"
  shows "\<exists>d. length d = length dst \<and> take (op + m) d = take (op + m) orig \<and> drop ip' src = rest
     \<and> lz4_match src srcSize dstSize (enc_token n (m - 4)) (ip, op, dst) = Fine (Inr (ip', op + m, d))"
proof -
  have b: "src ! ip = of_nat off" "src ! (ip + 1) = of_nat (off div 256)"
    using nth_drop_append [of ip src "[of_nat off, of_nat (off div 256)]" "enc_ext (m - 4) @ rest" 0]
      nth_drop_append [of ip src "[of_nat off, of_nat (off div 256)]" "enc_ext (m - 4) @ rest" 1] blob by simp_all
  have "off div 256 < 256" using m(4) by simp
  then have off: "le16 src ip = off"
    unfolding le16_unat b unsigned_of_nat by (simp add: take_bit_nat_eq_self) (simp add: take_bit_eq_mod)
  have ext: "drop (ip + 2) src = enc_ext (m - 4) @ rest"
    using drop_append_drop [of ip src "[of_nat off, of_nat (off div 256)]" "enc_ext (m - 4) @ rest"] blob by simp
  have "m - 4 + 4 \<le> int_limit srcSize dstSize" using dst(2) m(1) by (simp add: int_limit_def)
  then have ext_len: "(if min (m - 4) 15 = 15 then get_ext (int_limit srcSize dstSize) src srcSize (ip + 2) (min (m - 4) 15 + 4)
        else Fine (Some (ip + 2, min (m - 4) 15 + 4))) = Fine (Some (ip', m))"
    unfolding ip'_def using get_length [OF ext size, of 4 "int_limit srcSize dstSize"] m(1) by (simp only: le_add_diff_inverse2)
  obtain d where d: "copy_match op off m dst = Fine d" "length d = length dst" "take (op + m) d = take (op + m) orig"
    using copy_match_decodes [of op m dst off orig] dst m by auto
  have "lz4_match src srcSize dstSize (enc_token n (m - 4)) (ip, op, dst) = Fine (Inr (ip', op + m, d))"
    unfolding lz4_match_def prod.case off token_match Let_def ext_len
    using size dst m d by (simp add: int_limit_def)
  moreover have "drop ip' src = rest" using drop_append_drop [OF ext] by (simp add: ip'_def)
  ultimately show ?thesis using d by blast
qed

lemma sequences_decode:
  assumes "seqs_ok orig k ss k'" "k' \<le> n" "n \<le> length orig" "n \<le> length dst" "take k dst = take k orig"
    and "drop ip src = enc_seqs orig k ss @ put_literals orig k' (n - k') [] @ rest"
    and "ip + length (enc_seqs orig k ss @ put_literals orig k' (n - k') []) \<le> srcSize" "srcSize \<le> length src"
  shows "\<exists>d. loop (decompress_step src srcSize n) (ip, k, dst) = Some (Fine (0, d)) \<and> length d = length dst \<and> take n d = take n orig"
  using assms
proof (induction ss arbitrary: k ip dst)
  case Nil
  then have k: "k = k'" by simp
  have size: "ip + 1 + length (enc_ext (n - k)) + (n - k) \<le> srcSize"
    using Nil.prems(3,7) by (simp add: k put_literals_last)
  obtain d where "length d = length dst" "take (k + (n - k)) d = take (k + (n - k)) orig"
    "lz4_sequence src srcSize n (ip, k, dst) = Fine (Inl (0, d))"
    using literals_decode [of ip src "n - k" 0 _ rest k orig srcSize n dst] Nil.prems size
    by (auto simp: k put_literals_last)
  then show ?case using Nil.prems(2) k by (auto simp: loop.simps decompress_step_def)
next
  case (Cons s ss)
  obtain l off m where s: "s = (l, off, m)" by (cases s)
  define lits where "lits = take l (drop k orig)"
  define tail where "tail = enc_seqs orig (k + l + m) ss @ put_literals orig k' (n - k') [] @ rest"
  have ok: "k + l + m \<le> length orig" "4 \<le> m" "0 < off" "off \<le> k + l" "off < 65536"
    "\<And>i. i < m \<Longrightarrow> orig ! (k + l + i) = orig ! (k + l + i - off)" "seqs_ok orig (k + l + m) ss k'"
    using Cons.prems(1) by (auto simp: s)
  have le: "k + l + m \<le> n" using seqs_ok_le(2) [OF ok(7)] Cons.prems(2) by simp
  have len: "length lits = l" using ok(1) by (auto simp: lits_def)
  have blob: "drop ip src = enc_token l (m - 4) # enc_ext l @ lits @ (of_nat off # of_nat (off div 256) # enc_ext (m - 4) @ tail)"
    using Cons.prems(6) len by (simp add: s enc_seq_def lits_def [symmetric] tail_def)
  have size: "ip + 1 + length (enc_ext l) + l + 2 + length (enc_ext (m - 4))
      + length (enc_seqs orig (k + l + m) ss @ put_literals orig k' (n - k') []) \<le> srcSize"
    using Cons.prems(7) len by (simp add: s enc_seq_def lits_def [symmetric])
  obtain d where d: "length d = length dst" "take (k + l) d = take (k + l) orig"
    "drop (ip + 1 + length (enc_ext l) + l) src = of_nat off # of_nat (off div 256) # enc_ext (m - 4) @ tail"
    "lz4_sequence src srcSize n (ip, k, dst) =
       lz4_match src srcSize n (enc_token l (m - 4)) (ip + 1 + length (enc_ext l) + l, k + l, d)"
    using literals_decode [OF blob lits_def, of srcSize n dst] size Cons.prems(3-5,8) le ok(2) by auto
  obtain d' where d': "length d' = length dst" "take (k + l + m) d' = take (k + l + m) orig"
    "drop (ip + 1 + length (enc_ext l) + l + 2 + length (enc_ext (m - 4))) src = tail"
    "lz4_sequence src srcSize n (ip, k, dst) = Fine (Inr (ip + 1 + length (enc_ext l) + l + 2 + length (enc_ext (m - 4)), k + l + m, d'))"
    using match_decode [OF d(3), of srcSize n d "k + l" orig l] d size Cons.prems(3,4,8) le ok by auto
  from Cons.IH [OF ok(7) Cons.prems(2,3) _ d'(2) d'(3) [unfolded tail_def] size Cons.prems(8)]
  obtain d2 where "loop (decompress_step src srcSize n) (ip + 1 + length (enc_ext l) + l + 2 + length (enc_ext (m - 4)), k + l + m, d')
      = Some (Fine (0, d2))" "length d2 = length d'" "take n d2 = take n orig"
    using Cons.prems(4) d'(1) by auto
  moreover have "decompress_step src srcSize n (ip, k, dst)
      = Inr (ip + 1 + length (enc_ext l) + l + 2 + length (enc_ext (m - 4)), k + l + m, d')"
    unfolding decompress_step_def d'(4) by simp
  ultimately show ?case using d'(1) by (simp add: loop.simps [of _ "(ip, k, dst)"])
qed

section \<open>What the compressor writes\<close>

lemma match_len_spec:
  "ip + len \<le> n \<Longrightarrow> len \<le> match_len src n cand ip len \<and> ip + match_len src n cand ip len \<le> n
     \<and> (\<forall>j. len \<le> j \<and> j < match_len src n cand ip len \<longrightarrow> src ! (cand + j) = src ! (ip + j))"
proof (induction src n cand ip len rule: match_len.induct)
  case (1 src n cand ip len)
  show ?case
  proof (cases "ip + len < n \<and> src ! (cand + len) = src ! (ip + len)")
    case True
    then have eq: "match_len src n cand ip len = match_len src n cand ip (len + 1)"
      by (subst match_len.simps) simp
    have j: "j = len \<or> len + 1 \<le> j" if "len \<le> j" for j using that by auto
    show ?thesis
      unfolding eq using "1.IH" [OF True] True j by (metis Suc_eq_plus1 Suc_leD Suc_leI add_Suc_right)
  next
    case False
    then have "match_len src n cand ip len = len" by (subst match_len.simps) auto
    then show ?thesis using "1.prems" by auto
  qed
qed

lemma bit_u8: "8 \<le> n \<Longrightarrow> \<not> bit (w :: u8) n"
  using bit_imp_le_length [of w n] by auto

lemma le32_byte:
  assumes "j < 4"
  shows "ucast (drop_bit (8 * j) (le32 p i)) = p ! (i + j)"
proof -
  have "j \<in> {0, 1, 2, 3}" using assms by auto
  then show ?thesis
    by (auto simp: le32_def intro!: bit_word_eqI simp: bit_simps bit_u8)
qed

lemma le32_eq_bytes: "le32 p a = le32 p b \<Longrightarrow> j < 4 \<Longrightarrow> p ! (a + j) = p ! (b + j)"
  by (metis le32_byte)

lemma ext_le: "length (enc_ext n) \<le> n div 255 + 1"
proof (cases "n \<ge> 15")
  case True
  have "(n - 15) div 255 \<le> n div 255" by (rule div_le_mono) simp
  then show ?thesis using True by (simp only: length_enc_ext if_True)
qed (simp add: length_enc_ext)

lemma seq_cost:
  assumes "4 \<le> m"
  shows "length (enc_ext l) + 3 + length (enc_ext (m - 4)) \<le> l div 255 + m"
proof -
  have 1: "length (enc_ext l) \<le> l div 255 + 1" by (rule ext_le)
  have 2: "length (enc_ext (m - 4)) + 4 \<le> m"
    using assms div_le_dividend [of "m - 4 - 15" 255] by (auto simp: length_enc_ext)
  show ?thesis using 1 2 by linarith
qed

lemma div_super: "a div k + b div k \<le> (a + b) div (k :: nat)"
proof (cases "k = 0")
  case False
  have "a div k * k + b div k * k \<le> a + b" by (intro add_mono div_times_less_eq_dividend)
  then show ?thesis using False by (simp add: less_eq_div_iff_mult_less_eq add_mult_distrib)
qed simp

definition compressing :: "u8 list \<Rightarrow> nat \<Rightarrow> nat \<Rightarrow> lz4_state \<Rightarrow> bool" where
  "compressing src n cap s = (case s of (ip, anchor, out, ht) \<Rightarrow>
     anchor \<le> ip \<and> ip \<le> n \<and> n \<le> length src \<and> length out \<le> anchor + anchor div 255 \<and> length out \<le> cap + 2
     \<and> (\<exists>ss. seqs_ok src 0 ss anchor \<and> out = enc_seqs src 0 ss))"

lemma compress_sequence:
  assumes inv: "compressing src n cap (ip, anchor, out, ht)" and ip: "ip + 4 \<le> n" and cand: "cand < ip" "ip - cand < 65536"
    and eq: "le32 src cand = le32 src ip" and len: "len = match_len src n cand ip 4"
    and room: "length out + 1 + (ip - anchor) div 255 + (ip - anchor) + 2 + (len - 4) div 255 \<le> cap"
  shows "compressing src n cap
     (ip + len, ip + len, put_match (length out) (len - 4) (ip - cand) (put_literals src anchor (ip - anchor) out), ht')"
proof -
  define l where "l = ip - anchor"
  obtain ss where i: "anchor \<le> ip" "n \<le> length src" "length out \<le> anchor + anchor div 255"
    and ss: "seqs_ok src 0 ss anchor" "out = enc_seqs src 0 ss"
    using inv by (auto simp: compressing_def)
  have spec: "4 \<le> len" "ip + len \<le> n" "\<And>j. 4 \<le> j \<Longrightarrow> j < len \<Longrightarrow> src ! (cand + j) = src ! (ip + j)"
    using match_len_spec [OF ip, of src cand] len by auto
  have al: "anchor + l = ip" using i(1) by (simp add: l_def)
  have same: "src ! (ip + j) = src ! (ip + j - (ip - cand))" if "j < len" for j
  proof -
    have "src ! (cand + j) = src ! (ip + j)"
      using that spec(3) le32_eq_bytes [OF eq, of j] by (cases "j < 4") auto
    then show ?thesis using cand(1) by (simp add: add.commute)
  qed
  let ?new = "out @ enc_seq (take l (drop anchor src)) (ip - cand) (len - 4)"
  have ok: "seqs_ok src 0 (ss @ [(l, ip - cand, len)]) (ip + len)"
    unfolding seqs_ok_append using ss(1) spec i cand same al by (auto intro!: exI [of _ anchor])
  have enc: "?new = enc_seqs src 0 (ss @ [(l, ip - cand, len)])"
    using enc_seqs_append [OF ss(1)] ss(2) by simp
  have lits: "length (take l (drop anchor src)) = l" using al spec(2) i(2) by simp
  have new: "length ?new = length out + 3 + length (enc_ext l) + l + length (enc_ext (len - 4))"
    using lits by (simp add: enc_seq_def)
  have "length ?new \<le> (ip + len) + (ip + len) div 255"
    using new i(3) seq_cost [OF spec(1), of l] al div_super [of anchor 255 l] div_le_mono [of ip "ip + len" 255] by linarith
  moreover have "length ?new \<le> cap + 2"
    using new room [folded l_def] ext_le [of l] ext_le [of "len - 4"] by linarith
  moreover have "put_match (length out) (len - 4) (ip - cand) (put_literals src anchor l out) = ?new"
    using al spec(2) i(2) by (intro put_sequence) linarith
  ultimately show ?thesis
    using ok enc spec(2) i(2) unfolding compressing_def l_def [symmetric] by auto
qed

lemma compress_full:
  assumes "compressing src n cap (ip, anchor, out, ht)" "ip + 4 \<le> n" "len = match_len src n cand ip 4"
    and "length out + 1 + (ip - anchor) div 255 + (ip - anchor) + 2 + (len - 4) div 255 > cap"
  shows "cap < LZ4_COMPRESS_BOUND n"
proof -
  have i: "anchor \<le> ip" "length out \<le> anchor + anchor div 255" using assms(1) by (auto simp: compressing_def)
  have "4 \<le> len" "ip + len \<le> n" using match_len_spec [OF assms(2), of src cand] assms(3) by auto
  then have "ip + (len - 4) \<le> n" by simp
  then have "ip div 255 + (len - 4) div 255 \<le> n div 255"
    using div_super [of ip 255 "len - 4"] div_le_mono [of "ip + (len - 4)" n 255] by linarith
  moreover have "anchor div 255 + (ip - anchor) div 255 \<le> ip div 255" using div_super [of anchor 255 "ip - anchor"] i(1) by simp
  ultimately have "length out + 1 + (ip - anchor) div 255 + (ip - anchor) + 2 + (len - 4) div 255 \<le> n + n div 255 + 3"
    using i assms(2) by linarith
  then show ?thesis using assms(4) by (simp add: LZ4_COMPRESS_BOUND_def)
qed

lemma compress_iter_cases:
  assumes inv: "compressing src n cap (ip, anchor, out, ht)" and n: "5 \<le> n"
  obtains (last) "lz4_compress_iter src n cap (ip, anchor, out, ht) = Fine (Inl (Some anchor, out))"
  | (full) "lz4_compress_iter src n cap (ip, anchor, out, ht) = Fine (Inl (None, out))" "cap < LZ4_COMPRESS_BOUND n"
  | (cont) ip' anchor' out' ht' where "lz4_compress_iter src n cap (ip, anchor, out, ht) = Fine (Inr (ip', anchor', out', ht'))"
      "ip < ip'" "compressing src n cap (ip', anchor', out', ht')"
proof (cases "ip < n - 4")
  case False
  then show ?thesis using last by (simp add: lz4_compress_iter_def)
next
  case True
  then have ip: "ip + 4 \<le> n" by simp
  have src: "n \<le> length src" using inv by (simp add: compressing_def)
  have skip: "compressing src n cap (ip + 1, anchor, out, ht')" for ht'
    using inv ip by (auto simp: compressing_def)
  define h where "h = lz4_hash4 src ip"
  define cand where "cand = unat (ht h)"
  define len where "len = match_len src n cand ip 4"
  show ?thesis
  proof (cases "ht h \<noteq> 0xFFFF \<and> cand < ip \<and> ip - cand < 65536 \<and> le32 src cand = le32 src ip")
    case hit: True
    let ?full = "length out + 1 + (ip - anchor) div 255 + (ip - anchor) + 2 + (len - 4) div 255 > cap"
    have c: "int ip - int cand > 0" "int ip - int cand < 0x10000" using hit by auto
    have eq: "lz4_compress_iter src n cap (ip, anchor, out, ht) = (if ?full then Fine (Inl (None, out))
       else Fine (Inr (ip + len, ip + len, put_match (length out) (len - 4) (ip - cand) (put_literals src anchor (ip - anchor) out),
              ht(h := of_nat ip))))"
      using True hit ip src c unfolding lz4_compress_iter_def prod.case h_def [symmetric] Let_def cand_def [symmetric] len_def [symmetric]
      by simp
    have "4 \<le> len" using match_len_spec [OF ip, of src cand] by (simp add: len_def)
    show ?thesis
    proof (cases ?full)
      case True
      then show ?thesis using full eq compress_full [OF inv ip len_def] by simp
    next
      case False
      then show ?thesis
        using cont [OF eq [unfolded if_not_P [OF False]]] compress_sequence [OF inv ip _ _ _ len_def] hit \<open>4 \<le> len\<close> by simp
    qed
  next
    case False
    then have "lz4_compress_iter src n cap (ip, anchor, out, ht) = Fine (Inr (ip + 1, anchor, out, ht(h := of_nat ip)))"
      using True ip src unfolding lz4_compress_iter_def prod.case h_def [symmetric] Let_def cand_def [symmetric] by auto
    then show ?thesis using cont skip by simp
  qed
qed

interpretation lz4_in: bounded_loop "compress_step src n cap" "\<lambda>s. 5 \<le> n \<and> compressing src n cap s" "\<lambda>(ip, anchor, out, ht). n - ip"
  for src n cap
proof
  fix s t
  assume s: "5 \<le> n \<and> compressing src n cap s" and step: "compress_step src n cap s = Inr t"
  obtain ip anchor out ht where sq: "s = (ip, anchor, out, ht)" by (cases s)
  from s have "compressing src n cap (ip, anchor, out, ht)" "5 \<le> n" by (simp_all add: sq)
  then have "\<exists>ip' a o' h. t = (ip', a, o', h) \<and> ip < ip' \<and> compressing src n cap t"
    by (cases rule: compress_iter_cases) (use step in \<open>auto simp: compress_step_def sq\<close>)
  then show "5 \<le> n \<and> compressing src n cap t"
    and "(case t of (ip, anchor, out, ht) \<Rightarrow> n - ip) < (case s of (ip, anchor, out, ht) \<Rightarrow> n - ip)"
    using s by (auto simp: sq compressing_def)
qed

lemma compress_cases:
  assumes n: "5 \<le> n" "n \<le> length src" and cap: "0 < cap"
  obtains (full) out where "lz4_compress (Some src) (int n) False (int cap) False = Fine (0, out)" "length out \<le> cap + 2"
      "cap < LZ4_COMPRESS_BOUND n"
  | (finished) anchor ss out where "lz4_compress (Some src) (int n) False (int cap) False = Fine (length out, out)"
      "seqs_ok src 0 ss anchor" "anchor \<le> n" "out = enc_seqs src 0 ss @ put_literals src anchor (n - anchor) []"
      "length out \<le> cap + 2" "length out \<le> n + n div 255 + 2"
proof -
  have "5 \<le> n \<and> compressing src n cap (0, 0, [], \<lambda>_. 0xFFFF)"
    using n by (auto simp: compressing_def intro: exI [of _ "[]"])
  from lz4_in.returns_last [OF this] obtain t r where t: "compressing src n cap t" "compress_step src n cap t = Inl r"
    "loop (compress_step src n cap) (0, 0, [], \<lambda>_. 0xFFFF) = Some r" by blast
  obtain ip anchor out ht where tq: "t = (ip, anchor, out, ht)" by (cases t)
  have run: "lz4_compress (Some src) (int n) False (int cap) False = mem_bind r (\<lambda>r. case r of
       (None, out) \<Rightarrow> Fine (0, out)
     | (Some anchor, out) \<Rightarrow>
         if length out + 1 + (n - anchor) div 255 + (n - anchor) > cap then Fine (0, out)
         else Fine (length (put_literals src anchor (n - anchor) out), put_literals src anchor (n - anchor) out))"
    unfolding lz4_compress_def Let_def nat_int using n cap t(3) by (simp add: returned_def)
  from t(1) have inv: "compressing src n cap (ip, anchor, out, ht)" by (simp add: tq)
  from inv n(1) show thesis
  proof (cases rule: compress_iter_cases)
    case last
    then have r: "r = Fine (Some anchor, out)" using t(2) by (simp add: compress_step_def tq)
    obtain ss where i: "anchor \<le> n" "length out \<le> anchor + anchor div 255" "length out \<le> cap + 2"
      and ss: "seqs_ok src 0 ss anchor" "out = enc_seqs src 0 ss"
      using inv by (auto simp: compressing_def)
    have sup: "anchor div 255 + (n - anchor) div 255 \<le> n div 255" using div_super [of anchor 255 "n - anchor"] i(1) by simp
    have put: "put_literals src anchor (n - anchor) out = out @ put_literals src anchor (n - anchor) []"
      by (simp add: put_literals_last)
    have len: "length (put_literals src anchor (n - anchor) out) = length out + 1 + length (enc_ext (n - anchor)) + (n - anchor)"
      using n(2) by (simp add: put_literals_last)
    show thesis
    proof (cases "length out + 1 + (n - anchor) div 255 + (n - anchor) > cap")
      case True
      then have "cap < LZ4_COMPRESS_BOUND n" using i(1,2) sup by (simp add: LZ4_COMPRESS_BOUND_def)
      then show thesis using full [of out] run r True i(3) by simp
    next
      case False
      show thesis
      proof (rule finished)
        show "lz4_compress (Some src) (int n) False (int cap) False
            = Fine (length (put_literals src anchor (n - anchor) out), put_literals src anchor (n - anchor) out)"
          using run r False by simp
        show "length (put_literals src anchor (n - anchor) out) \<le> cap + 2"
          using len False ext_le [of "n - anchor"] by linarith
        show "length (put_literals src anchor (n - anchor) out) \<le> n + n div 255 + 2"
          using len i(1,2) sup ext_le [of "n - anchor"] by linarith
      qed (use put ss i(1) in simp_all)
    qed
  next
    case full
    then have "r = Fine (None, out)" using t(2) by (simp add: compress_step_def tq)
    then show thesis using that(1) [of out] run inv full(2) by (simp add: compressing_def)
  next
    case (cont ip' anchor' out' ht')
    then show thesis using t(2) by (simp add: compress_step_def tq)
  qed
qed

section \<open>Properties\<close>

text \<open>
  C34. Decompressing what the compressor produced gives the original bytes back:
  whenever \<open>lz4_compress\<close> returns a positive size, \<open>lz4_decompress\<close> succeeds on the
  bytes written, followed by anything, and leaves the input in the destination.
\<close>

theorem lz4_round_trip:
  assumes "lz4_compress (Some src) (int n) False (int cap) False = Fine (r, out)" and "0 < r" and "n \<le> length src"
    and "r \<le> blobSize" and "blobSize \<le> length (out @ rest)" and "n \<le> length dst"
  shows "\<exists>d. lz4_decompress (Some (out @ rest)) (int blobSize) (Some dst) (int n) = Fine (0, Some d) \<and> take n d = take n src"
proof -
  have n: "5 \<le> n" "0 < cap" using assms(1,2) by (auto simp: lz4_compress_def split: if_splits)
  from n(1) assms(3) n(2) obtain anchor ss where "r = length out" "seqs_ok src 0 ss anchor" "anchor \<le> n"
    "out = enc_seqs src 0 ss @ put_literals src anchor (n - anchor) []"
    by (cases rule: compress_cases) (use assms(1,2) in auto)
  with sequences_decode [of src 0 ss anchor n dst 0 "out @ rest" rest blobSize] assms
  obtain d where "loop (decompress_step (out @ rest) blobSize n) (0, 0, dst) = Some (Fine (0, d))" "take n d = take n src"
    by auto
  then show ?thesis using n(1) assms(2,4) by (simp add: lz4_decompress_def returned_def)
qed

text \<open>
  C35. \<open>lz4_decompress\<close> is safe on any input of moderate size: when
  \<open>256 * srcSize + dstSize + 19\<close> is an int (4 MiB of input and 1 GiB of output
  will do, and the callers pass pages), it returns 0 or -1, no length it adds
  up overflows, it reads only the \<open>srcSize\<close> bytes of the source, writes only the
  \<open>dstSize\<close> bytes of the destination and leaves what follows them as it was.
\<close>

theorem lz4_decompress_safe:
  assumes "srcSize \<le> int (length src)" and "dstSize \<le> int (length dst)"
    and "256 * srcSize + dstSize + 19 \<le> int INT_MAX"
  shows "\<exists>r d. lz4_decompress (Some src) srcSize (Some dst) dstSize = Fine (r, Some d) \<and> (r = 0 \<or> r = - 1)
     \<and> length d = length dst \<and> drop (nat dstSize) d = drop (nat dstSize) dst"
proof (cases "srcSize \<le> 0 \<or> dstSize \<le> 0")
  case False
  have "nat srcSize \<le> length src" "nat dstSize \<le> length dst" using assms by auto
  moreover have "sizes_fit (nat srcSize) (nat dstSize)" using assms(3) False unfolding sizes_fit_def by linarith
  ultimately obtain r d where
    "loop (decompress_step src (nat srcSize) (nat dstSize)) (0, 0, dst) = Some (Fine (r, d))"
    "(r = 0 \<or> r = - 1) \<and> length d = length dst \<and> drop (nat dstSize) d = drop (nat dstSize) dst"
    using decompress_loop_safe [of "nat srcSize" src "nat dstSize" dst] by blast
  then show ?thesis using False by (simp add: lz4_decompress_def returned_def)
qed (simp add: lz4_decompress_def)

text \<open>
  The bound on the sizes is needed: about 8.4 million bytes 0xFF after a token
  with a long length make the sum overflow before the end of the input is seen.
\<close>

lemma get_ext_overflows:
  "ip < n \<Longrightarrow> lim < len + 255 * (n - ip) \<Longrightarrow> get_ext lim (replicate n 255) n ip len = Wild"
proof (induction "n - ip" arbitrary: ip len)
  case (Suc k)
  have "get_ext lim (replicate n 255) n ip len =
      (if lim < len + 255 then Wild else get_ext lim (replicate n 255) n (ip + 1) (len + 255))"
    using Suc.prems(1) by (subst get_ext.simps) (simp add: Let_def)
  moreover have "get_ext lim (replicate n 255) n (ip + 1) (len + 255) = Wild" if "\<not> lim < len + 255"
    using Suc.hyps Suc.prems that by (intro Suc.hyps(1)) auto
  ultimately show ?case by simp
qed simp

text \<open>
  C36. With the capacity the callers provide, \<open>LZ4_COMPRESS_BOUND\<close> of the size,
  compression of five bytes or more never fails, reads only the source and
  writes as many bytes as it returns, at most one for each 255 of the input and
  two more than the input has.
\<close>

theorem lz4_compress_bound:
  assumes "5 \<le> n" and "n \<le> length src" and "LZ4_COMPRESS_BOUND n \<le> cap"
  shows "\<exists>out. lz4_compress (Some src) (int n) False (int cap) False = Fine (length out, out)
     \<and> 0 < length out \<and> length out \<le> n + n div 255 + 2 \<and> length out \<le> cap"
proof -
  have "0 < cap" using assms(3) by (simp add: LZ4_COMPRESS_BOUND_def)
  with assms(1,2) show ?thesis
  proof (cases rule: compress_cases)
    case (finished anchor ss out)
    moreover have "length out \<le> cap" using finished(6) assms(3) by (simp add: LZ4_COMPRESS_BOUND_def)
    ultimately show ?thesis by (auto simp: put_literals_last)
  qed (use assms(3) in simp)
qed

section \<open>Witnesses\<close>

text \<open>Twelve equal bytes: one literal and a match that overlaps itself.\<close>

definition example_bytes :: "u8 list" where
  "example_bytes = replicate 12 7"

theorem lz4_compress_bound_witness:
  "\<exists>out. lz4_compress (Some example_bytes) 12 False 28 False = Fine (length out, out) \<and> 0 < length out \<and> length out \<le> 14"
  using lz4_compress_bound [of 12 example_bytes 28] by (auto simp: example_bytes_def LZ4_COMPRESS_BOUND_def)

theorem lz4_round_trip_witness:
  "\<exists>r out d. lz4_compress (Some example_bytes) 12 False 28 False = Fine (r, out) \<and> 0 < r
     \<and> lz4_decompress (Some out) (int r) (Some (replicate 12 0)) 12 = Fine (0, Some d) \<and> take 12 d = example_bytes"
proof -
  have "5 \<le> (12 :: nat)" "12 \<le> length example_bytes" "0 < (28 :: nat)" by (simp_all add: example_bytes_def)
  then obtain out where out: "lz4_compress (Some example_bytes) (int 12) False (int 28) False = Fine (length out, out)" "0 < length out"
    by (cases rule: compress_cases) (auto simp: LZ4_COMPRESS_BOUND_def put_literals_last)
  from lz4_round_trip [OF out, of "length out" "[]" "replicate 12 0"]
  show ?thesis using out by (auto simp: example_bytes_def)
qed

theorem lz4_decompress_safe_witness:
  "\<exists>r d. lz4_decompress (Some [0xFF, 0xFF]) 2 (Some [1, 2, 3]) 2 = Fine (r, Some d) \<and> length d = 3 \<and> drop 2 d = [3]"
  using lz4_decompress_safe [of 2 "[0xFF, 0xFF]" 2 "[1, 2, 3]"] by (auto simp: INT_MAX_def)

text \<open>
  Below that capacity the checks do not count the byte that ends a length of 15
  or more: twenty different bytes in a buffer of 21 are accepted and take 22.
\<close>

lemma compress_no_repeat:
  assumes "distinct src" "length src = n" "5 \<le> n"
  shows "loop (compress_step src n cap) (ip, 0, [], ht) = Some (Fine (Some 0, []))"
proof (induction "n - ip" arbitrary: ip ht rule: less_induct)
  case less
  show ?case
  proof (cases "ip < n - 4")
    case True
    define h where "h = lz4_hash4 src ip"
    have "le32 src c \<noteq> le32 src ip" if "c < ip" for c
      using le32_eq_bytes [of src c ip 0] that True assms(1,2) nth_eq_iff_index_eq [of src c ip] by auto
    then have "compress_step src n cap (ip, 0, [], ht) = Inr (ip + 1, 0, [], ht(h := of_nat ip))"
      using True assms(2) by (auto simp: compress_step_def lz4_compress_iter_def Let_def h_def)
    then show ?thesis
      using less [of "ip + 1" "ht(h := of_nat ip)"] True by (simp add: loop.simps [of _ "(ip, 0, [], ht)"])
  qed (simp add: loop.simps compress_step_def lz4_compress_iter_def)
qed

lemma lz4_compress_overruns:
  fixes src :: "u8 list"
  assumes "src = [0, 1, 2, 3, 4, 5, 6, 7, 8, 9, 10, 11, 12, 13, 14, 15, 16, 17, 18, 19]"
  shows "lz4_compress (Some src) 20 False 21 False = Fine (22, 0xF0 # 5 # src)"
  using compress_no_repeat [of src 20 21 0 "\<lambda>_. 0xFFFF"]
  by (simp add: assms lz4_compress_def returned_def put_literals_def put_ext.simps)

end
