(* ===== verification/RunQueue.thy ===== *)
theory RunQueue
  imports Prelude "HOL-Library.Multiset"
begin

text \<open>
  The run queues of \<^verbatim>\<open>kernel/sched/runqueue.c\<close> and the claiming of a task by a CPU
  (\<open>task_claim\<close> of \<^verbatim>\<open>kernel/sched/scheduler.c\<close>). A task pointer is the number of
  its slot; the queues are singly linked through the \<open>next_run\<close> field of the
  tasks, one for the machine and one for each CPU. Each operation on a queue
  runs under the lock of that queue and is one step of \<open>rq_step\<close>; the calls
  that take several locks one after the other (stealing, removal from every
  queue) are several steps, and their definitions give the run that nothing
  disturbs.
\<close>

section \<open>State\<close>

definition TASK_CHUNK_SIZE :: nat where "TASK_CHUNK_SIZE = 64"
definition TASK_MAX_CHUNKS :: nat where "TASK_MAX_CHUNKS = 64"
definition MAX_TASKS :: nat where "MAX_TASKS = TASK_CHUNK_SIZE * TASK_MAX_CHUNKS"
definition MAX_CPUS :: nat where "MAX_CPUS = 64"
definition RQ_WALK_LIMIT :: nat where "RQ_WALK_LIMIT = 4096"

datatype task_state =
  TASK_UNUSED | TASK_RUNNING | TASK_READY | TASK_BLOCKED | TASK_SLEEPING | TASK_STOPPED | TASK_DEAD | TASK_REAPING

record task =
  t_state :: task_state
  t_stealable :: bool
  t_stack_released :: bool
  t_affinity :: u64
  t_constructing :: bool

datatype rq_id = GlobalRq | CpuRq nat

text \<open>
  \<open>chunks\<close> is the number of allocated chunks of the task table (they are
  allocated in order); \<open>online\<close> says whether \<open>get_percpu_n\<close> finds the CPU.
\<close>

record rq_state =
  next_run :: "nat \<Rightarrow> nat option"
  rq_head :: "rq_id \<Rightarrow> nat option"
  rq_tail :: "rq_id \<Rightarrow> nat option"
  tasks :: "task table"
  chunks :: nat
  ap_idle :: "nat \<Rightarrow> nat option"
  online :: "nat \<Rightarrow> bool"
  cur_task :: "nat \<Rightarrow> nat option"
  max_cpus :: nat

definition sched_task_ptr_valid :: "rq_state \<Rightarrow> nat option \<Rightarrow> bool" where
  "sched_task_ptr_valid st p =
     (case p of
        None \<Rightarrow> False
      | Some t \<Rightarrow> t < TASK_CHUNK_SIZE * chunks st \<or> (\<exists>c < MAX_CPUS. ap_idle st c = Some t))"

section \<open>The table of lock owners\<close>

text \<open>
  The side table that names the holder of a run queue lock in a lockup report. It
  is separate from the queues: each operation sets its entry after taking the
  lock and clears it before releasing it. \<open>rq_describe_lock\<close> is the entry the
  report prints.
\<close>

definition RQ_OWNER_SLOTS :: nat where "RQ_OWNER_SLOTS = 16"

record rq_owner =
  ow_lock :: "rq_id option"
  ow_cpu :: u32
  ow_caller :: u64

definition rq_owner_set :: "nat option \<Rightarrow> rq_id \<Rightarrow> u64 \<Rightarrow> rq_owner table \<Rightarrow> rq_owner table" where
  "rq_owner_set self rq caller g =
     (case first_slot (\<lambda>i. ow_lock (g i) = None \<or> ow_lock (g i) = Some rq) RQ_OWNER_SLOTS of
        None \<Rightarrow> g
      | Some i \<Rightarrow>
          g(i := \<lparr>ow_lock = Some rq, ow_cpu = (case self of Some c \<Rightarrow> of_nat c | None \<Rightarrow> 0xffffffff), ow_caller = caller\<rparr>))"

definition rq_owner_clear :: "rq_id \<Rightarrow> rq_owner table \<Rightarrow> rq_owner table" where
  "rq_owner_clear rq g =
     (case first_slot (\<lambda>i. ow_lock (g i) = Some rq) RQ_OWNER_SLOTS of
        None \<Rightarrow> g | Some i \<Rightarrow> g(i := (g i)\<lparr>ow_lock := None\<rparr>))"

definition rq_describe_lock :: "rq_id \<Rightarrow> rq_owner table \<Rightarrow> rq_owner option" where
  "rq_describe_lock rq g = map_option g (first_slot (\<lambda>i. ow_lock (g i) = Some rq) RQ_OWNER_SLOTS)"

lemma rq_owner_set_describes:
  assumes "\<exists>i < RQ_OWNER_SLOTS. ow_lock (g i) = None" "rq_describe_lock rq g = None"
  shows "rq_describe_lock rq (rq_owner_set (Some c) rq caller g)
     = Some \<lparr>ow_lock = Some rq, ow_cpu = of_nat c, ow_caller = caller\<rparr>"
proof -
  have none: "ow_lock (g i) \<noteq> Some rq" if "i < RQ_OWNER_SLOTS" for i
    using assms(2) that by (auto simp: rq_describe_lock_def first_slot_None_iff)
  obtain k where "k < RQ_OWNER_SLOTS" "ow_lock (g k) = None" using assms(1) by blast
  then obtain i where i: "first_slot (\<lambda>i. ow_lock (g i) = None \<or> ow_lock (g i) = Some rq) RQ_OWNER_SLOTS = Some i"
    using first_slot_ex [of k RQ_OWNER_SLOTS "\<lambda>i. ow_lock (g i) = None \<or> ow_lock (g i) = Some rq"] by auto
  let ?g = "rq_owner_set (Some c) rq caller g"
  have g: "?g = g(i := \<lparr>ow_lock = Some rq, ow_cpu = of_nat c, ow_caller = caller\<rparr>)" by (simp add: rq_owner_set_def i)
  have "first_slot (\<lambda>j. ow_lock (?g j) = Some rq) RQ_OWNER_SLOTS = Some i"
  proof -
    have "i < RQ_OWNER_SLOTS" by (rule first_slot_SomeD(1) [OF i])
    moreover have "ow_lock (?g j) \<noteq> Some rq" if "j < i" for j
      using none [of j] that \<open>i < RQ_OWNER_SLOTS\<close> by (simp add: g)
    ultimately show ?thesis unfolding first_slot_Some_iff by (simp add: g)
  qed
  then show ?thesis by (simp add: rq_describe_lock_def g)
qed

lemma rq_owner_cleared:
  assumes "rq_describe_lock rq g = None"
  shows "rq_describe_lock rq (rq_owner_clear rq (rq_owner_set self rq caller g)) = None"
proof (cases "first_slot (\<lambda>i. ow_lock (g i) = None \<or> ow_lock (g i) = Some rq) RQ_OWNER_SLOTS")
  case None
  then show ?thesis using assms by (simp add: rq_owner_set_def rq_owner_clear_def rq_describe_lock_def)
next
  case (Some i)
  have none: "ow_lock (g j) \<noteq> Some rq" if "j < RQ_OWNER_SLOTS" for j
    using assms that by (auto simp: rq_describe_lock_def first_slot_None_iff)
  let ?g = "rq_owner_set self rq caller g"
  have other: "ow_lock (?g i) = Some rq" "\<And>j. j \<noteq> i \<Longrightarrow> ?g j = g j" using Some by (simp_all add: rq_owner_set_def)
  have "first_slot (\<lambda>j. ow_lock (?g j) = Some rq) RQ_OWNER_SLOTS = Some i"
  proof -
    have "i < RQ_OWNER_SLOTS" by (rule first_slot_SomeD(1) [OF Some])
    moreover have "ow_lock (?g j) \<noteq> Some rq" if "j < i" for j
      using none [of j] that \<open>i < RQ_OWNER_SLOTS\<close> other(2) [of j] by simp
    ultimately show ?thesis unfolding first_slot_Some_iff using other(1) by blast
  qed
  then have clear: "rq_owner_clear rq ?g = ?g(i := (?g i)\<lparr>ow_lock := None\<rparr>)" by (simp add: rq_owner_clear_def)
  have "ow_lock ((?g(i := (?g i)\<lparr>ow_lock := None\<rparr>)) j) \<noteq> Some rq" if "j < RQ_OWNER_SLOTS" for j
    using none [OF that] other(2) [of j] by (cases "j = i") simp_all
  then show ?thesis unfolding clear rq_describe_lock_def by (simp add: first_slot_None_iff del: fun_upd_apply)
qed

section \<open>Queue operations\<close>

text \<open>The walk of \<open>rq_enqueue\<close>: whether the task is in the chain from here on.\<close>

function rq_scan :: "rq_state \<Rightarrow> nat \<Rightarrow> nat \<Rightarrow> nat option \<Rightarrow> bool mem_result" where
  "rq_scan st t walked None = Fine False"
| "rq_scan st t walked (Some c) =
     (if c = t then Fine True
      else if walked + 1 > RQ_WALK_LIMIT then Panic
      else if next_run st c \<noteq> None \<and> \<not> sched_task_ptr_valid st (next_run st c) then Panic
      else rq_scan st t (walked + 1) (next_run st c))"
  by pat_completeness auto
termination rq_scan
  by (relation "measure (\<lambda>(st, t, walked, p). RQ_WALK_LIMIT - walked)") auto

definition rq_enqueue :: "rq_id \<Rightarrow> nat \<Rightarrow> rq_state \<Rightarrow> rq_state mem_result" where
  "rq_enqueue q t st =
     mem_bind (rq_scan st t 0 (rq_head st q)) (\<lambda>queued.
       if queued then Fine st
       else let st1 = st\<lparr>next_run := (next_run st)(t := None)\<rparr> in
         case rq_tail st1 q of
           Some l \<Rightarrow> Fine (st1\<lparr>next_run := (next_run st1)(l := Some t), rq_tail := (rq_tail st1)(q := Some t)\<rparr>)
         | None \<Rightarrow> Fine (st1\<lparr>rq_head := (rq_head st1)(q := Some t), rq_tail := (rq_tail st1)(q := Some t)\<rparr>))"

definition rq_dequeue :: "rq_id \<Rightarrow> rq_state \<Rightarrow> (nat option \<times> rq_state) mem_result" where
  "rq_dequeue q st =
     (case rq_head st q of
        None \<Rightarrow> Fine (None, st)
      | Some t \<Rightarrow>
          if \<not> sched_task_ptr_valid st (Some t) then Panic
          else if next_run st t \<noteq> None \<and> \<not> sched_task_ptr_valid st (next_run st t) then Panic
          else let h = next_run st t;
                   st1 = st\<lparr>rq_head := (rq_head st)(q := h), next_run := (next_run st)(t := None)\<rparr> in
            Fine (Some t, if h = None then st1\<lparr>rq_tail := (rq_tail st1)(q := None)\<rparr> else st1))"

text \<open>The body of \<open>rq_remove\<close> for the task itself: unlink it between \<open>prev\<close> and \<open>next\<close>.\<close>

definition rq_unlink :: "rq_id \<Rightarrow> nat option \<Rightarrow> nat \<Rightarrow> nat option \<Rightarrow> rq_state \<Rightarrow> rq_state" where
  "rq_unlink q prev cur nxt st =
     (let st1 = (case prev of
                   Some p \<Rightarrow> st\<lparr>next_run := (next_run st)(p := nxt)\<rparr>
                 | None \<Rightarrow> st\<lparr>rq_head := (rq_head st)(q := nxt)\<rparr>);
          st2 = (if rq_tail st1 q = Some cur then st1\<lparr>rq_tail := (rq_tail st1)(q := prev)\<rparr> else st1) in
      st2\<lparr>next_run := (next_run st2)(cur := None)\<rparr>)"

function rq_remove_walk ::
    "rq_id \<Rightarrow> nat \<Rightarrow> nat \<Rightarrow> bool \<Rightarrow> nat option \<Rightarrow> nat option \<Rightarrow> rq_state \<Rightarrow> (bool \<times> rq_state) mem_result" where
  "rq_remove_walk q t rwalked removed prev None st = Fine (removed, st)"
| "rq_remove_walk q t rwalked removed prev (Some cur) st =
     (let nxt = next_run st cur in
      if rwalked + 1 > RQ_WALK_LIMIT then Panic
      else if nxt \<noteq> None \<and> \<not> sched_task_ptr_valid st nxt then Panic
      else if cur = t then rq_remove_walk q t (rwalked + 1) True prev nxt (rq_unlink q prev cur nxt st)
      else rq_remove_walk q t (rwalked + 1) removed (Some cur) nxt st)"
  by pat_completeness auto
termination rq_remove_walk
  by (relation "measure (\<lambda>(q, t, rwalked, removed, prev, p, st). RQ_WALK_LIMIT - rwalked)") auto

definition rq_remove :: "rq_id \<Rightarrow> nat \<Rightarrow> rq_state \<Rightarrow> (bool \<times> rq_state) mem_result" where
  "rq_remove q t st = rq_remove_walk q t 0 False None (rq_head st q) st"

text \<open>\<open>self\<close> is the CPU that runs the code, \<^term>\<open>None\<close> before its per-CPU area exists.\<close>

definition sched_rq_enqueue_current :: "nat option \<Rightarrow> nat \<Rightarrow> rq_state \<Rightarrow> rq_state mem_result" where
  "sched_rq_enqueue_current self t st =
     (if t_stealable (tasks st t) then
        (case self of Some c \<Rightarrow> rq_enqueue (CpuRq c) t st | None \<Rightarrow> Fine st)
      else rq_enqueue GlobalRq t st)"

definition sched_rq_contains_task :: "nat option \<Rightarrow> rq_state \<Rightarrow> bool" where
  "sched_rq_contains_task p st =
     (case p of
        None \<Rightarrow> False
      | Some t \<Rightarrow>
          (\<exists>q \<in> set (GlobalRq # map CpuRq (filter (online st) [0..<MAX_CPUS])).
             rq_scan st t 0 (rq_head st q) = Fine True))"

text \<open>Removal from several queues, one after the other.\<close>

fun rq_remove_from :: "rq_id list \<Rightarrow> nat \<Rightarrow> rq_state \<Rightarrow> rq_state mem_result" where
  "rq_remove_from [] t st = Fine st"
| "rq_remove_from (q # qs) t st = mem_bind (rq_remove q t st) (\<lambda>(removed, st1). rq_remove_from qs t st1)"

definition online_rqs :: "rq_state \<Rightarrow> rq_id list" where
  "online_rqs st = map CpuRq (filter (online st) [0..<max_cpus st])"

definition sched_rq_remove_task_all :: "nat \<Rightarrow> rq_state \<Rightarrow> rq_state mem_result" where
  "sched_rq_remove_task_all t st = rq_remove_from (GlobalRq # online_rqs st) t st"

definition sched_rq_remove_task :: "nat \<Rightarrow> rq_state \<Rightarrow> rq_state mem_result" where
  "sched_rq_remove_task t st =
     (if t_stealable (tasks st t) then rq_remove_from (online_rqs st) t st else rq_remove_from [GlobalRq] t st)"

section \<open>Claiming and stealing\<close>

definition task_running_somewhere :: "nat \<Rightarrow> rq_state \<Rightarrow> bool" where
  "task_running_somewhere t st = (\<exists>c < max_cpus st. online st c \<and> cur_task st c = Some t)"

definition upd_task :: "nat \<Rightarrow> (task \<Rightarrow> task) \<Rightarrow> rq_state \<Rightarrow> rq_state" where
  "upd_task t f st = st\<lparr>tasks := (tasks st)(t := f (tasks st t))\<rparr>"

definition task_claim :: "nat \<Rightarrow> rq_state \<Rightarrow> bool \<times> rq_state" where
  "task_claim t st =
     (if t_constructing (tasks st t) then (False, st)
      else if task_running_somewhere t st then (False, st)
      else if \<not> t_stack_released (tasks st t) then (False, st)
      else let st1 = upd_task t (\<lambda>k. k\<lparr>t_stack_released := False\<rparr>) st in
        if task_running_somewhere t st1 \<or> t_state (tasks st1 t) \<noteq> TASK_READY
        then (False, upd_task t (\<lambda>k. k\<lparr>t_stack_released := True\<rparr>) st1)
        else (True, upd_task t (\<lambda>k. k\<lparr>t_state := TASK_RUNNING\<rparr>) st1))"

definition sched_task_allowed_on_cpu :: "nat \<Rightarrow> int \<Rightarrow> rq_state \<Rightarrow> bool" where
  "sched_task_allowed_on_cpu t cpu st =
     (if cpu < 0 \<or> cpu > 63 then True
      else let mask = t_affinity (tasks st t) in mask = 0 \<or> mask AND push_bit (nat cpu) 1 \<noteq> 0)"

definition stealable_now :: "nat \<Rightarrow> rq_state \<Rightarrow> bool" where
  "stealable_now t st =
     (t_state (tasks st t) = TASK_READY \<and> t_stealable (tasks st t) \<and> t_stack_released (tasks st t)
      \<and> \<not> task_running_somewhere t st)"

fun steal_from :: "nat option \<Rightarrow> nat list \<Rightarrow> rq_state \<Rightarrow> (nat option \<times> rq_state) mem_result" where
  "steal_from self [] st = Fine (None, st)"
| "steal_from self (i # cpus) st =
     (if \<not> online st i \<or> self = Some i \<or> rq_head st (CpuRq i) = None then steal_from self cpus st
      else mem_bind (rq_dequeue (CpuRq i) st) (\<lambda>(victim, st1).
        case victim of
          None \<Rightarrow> steal_from self cpus st1
        | Some t \<Rightarrow>
            (let back = (\<lambda>st2. mem_bind (rq_enqueue (CpuRq i) t st2) (steal_from self cpus)) in
             if (case self of None \<Rightarrow> False | Some c \<Rightarrow> \<not> sched_task_allowed_on_cpu t (int c) st1) then back st1
             else if stealable_now t st1 then
               (case task_claim t st1 of
                  (True, st2) \<Rightarrow> Fine (Some t, upd_task t (\<lambda>k. k\<lparr>t_stack_released := False\<rparr>) st2)
                | (False, st2) \<Rightarrow> back st2)
             else back st1)))"

definition sched_steal_task :: "nat option \<Rightarrow> rq_state \<Rightarrow> (nat option \<times> rq_state) mem_result" where
  "sched_steal_task self st = steal_from self [0..<max_cpus st] st"

definition sched_other_work_pending :: "rq_state \<Rightarrow> bool" where
  "sched_other_work_pending st = (\<exists>q \<in> set (GlobalRq # online_rqs st). rq_head st q \<noteq> None)"

section \<open>Queues as lists\<close>

text \<open>\<open>seg nx p xs r\<close>: the links \<open>nx\<close> lead from \<open>p\<close> through \<open>xs\<close> to \<open>r\<close>.\<close>

primrec seg :: "(nat \<Rightarrow> nat option) \<Rightarrow> nat option \<Rightarrow> nat list \<Rightarrow> nat option \<Rightarrow> bool" where
  "seg nx p [] r \<longleftrightarrow> p = r"
| "seg nx p (x # xs) r \<longleftrightarrow> p = Some x \<and> seg nx (nx x) xs r"

lemma seg_upd [simp]: "u \<notin> set xs \<Longrightarrow> seg (nx(u := v)) p xs r \<longleftrightarrow> seg nx p xs r"
  by (induction xs arbitrary: p) auto

lemma seg_append: "seg nx p (xs @ ys) r \<longleftrightarrow> (\<exists>m. seg nx p xs m \<and> seg nx m ys r)"
  by (induction xs arbitrary: p) auto

lemma seg_None: "seg nx None xs None \<longleftrightarrow> xs = []"
  by (cases xs) auto

lemma seg_unique: "seg nx p xs None \<Longrightarrow> seg nx p ys None \<Longrightarrow> xs = ys"
proof (induction xs arbitrary: p ys)
  case Nil
  then show ?case by (simp add: seg_None)
next
  case (Cons x xs)
  then show ?case by (cases ys) auto
qed

definition last_of :: "nat list \<Rightarrow> nat option" where
  "last_of xs = (if xs = [] then None else Some (last xs))"

text \<open>
  The queues hold the lists \<open>Q\<close>: no task is queued twice, on one queue or on two,
  and all of them are slots of the task table.
\<close>

definition rq_repr :: "rq_state \<Rightarrow> (rq_id \<Rightarrow> nat list) \<Rightarrow> bool" where
  "rq_repr st Q \<longleftrightarrow>
     (\<forall>q. seg (next_run st) (rq_head st q) (Q q) None \<and> rq_tail st q = last_of (Q q) \<and> distinct (Q q)
        \<and> (\<forall>t \<in> set (Q q). t < TASK_CHUNK_SIZE * chunks st))
     \<and> (\<forall>q q'. q \<noteq> q' \<longrightarrow> set (Q q) \<inter> set (Q q') = {}) \<and> chunks st \<le> TASK_MAX_CHUNKS"

lemma rq_reprD:
  assumes "rq_repr st Q"
  shows "seg (next_run st) (rq_head st q) (Q q) None" "rq_tail st q = last_of (Q q)" "distinct (Q q)"
    and "t \<in> set (Q q) \<Longrightarrow> t < TASK_CHUNK_SIZE * chunks st" "q \<noteq> q' \<Longrightarrow> set (Q q) \<inter> set (Q q') = {}"
    and "chunks st \<le> TASK_MAX_CHUNKS"
  using assms unfolding rq_repr_def by blast+

lemma rq_repr_unique:
  assumes "rq_repr st Q" "rq_repr st Q'"
  shows "Q = Q'"
proof
  fix q
  show "Q q = Q' q" using seg_unique rq_reprD(1) [OF assms(1)] rq_reprD(1) [OF assms(2)] by blast
qed

lemma rq_repr_length:
  assumes "rq_repr st Q"
  shows "length (Q q) \<le> RQ_WALK_LIMIT"
proof -
  have "set (Q q) \<subseteq> {..<TASK_CHUNK_SIZE * chunks st}" using rq_reprD(4) [OF assms] by auto
  then have "card (set (Q q)) \<le> TASK_CHUNK_SIZE * chunks st"
    using card_mono [OF finite_lessThan] by (metis card_lessThan)
  then have "length (Q q) \<le> TASK_CHUNK_SIZE * chunks st"
    unfolding distinct_card [OF rq_reprD(3) [OF assms, of q]] .
  moreover have "chunks st \<le> 64" using rq_reprD(6) [OF assms] by (simp only: TASK_MAX_CHUNKS_def)
  ultimately show ?thesis unfolding RQ_WALK_LIMIT_def TASK_CHUNK_SIZE_def by linarith
qed

definition all_valid :: "rq_state \<Rightarrow> nat list \<Rightarrow> bool" where
  "all_valid st xs \<longleftrightarrow> (\<forall>t \<in> set xs. t < TASK_CHUNK_SIZE * chunks st)"

lemma all_valid_simps [simp]:
  "all_valid st []" "all_valid st (x # xs) \<longleftrightarrow> x < TASK_CHUNK_SIZE * chunks st \<and> all_valid st xs"
  "all_valid st (xs @ ys) \<longleftrightarrow> all_valid st xs \<and> all_valid st ys"
  by (simp_all add: all_valid_def ball_Un)

lemma valid_head:
  assumes "seg nx p xs None" "all_valid st xs"
  shows "p = None \<or> sched_task_ptr_valid st p"
  using assms by (cases xs) (auto simp: sched_task_ptr_valid_def)

lemma rq_scan_seg:
  assumes "seg (next_run st) p xs None" "all_valid st xs" "walked + length xs \<le> RQ_WALK_LIMIT"
  shows "rq_scan st t walked p = Fine (t \<in> set xs)"
  using assms
proof (induction xs arbitrary: p walked)
  case (Cons x xs)
  have "next_run st x = None \<or> sched_task_ptr_valid st (next_run st x)"
    using valid_head [of "next_run st" "next_run st x" xs st] Cons.prems by simp
  then show ?case using Cons by auto
qed simp

lemma rq_scan_repr:
  assumes "rq_repr st Q"
  shows "rq_scan st t 0 (rq_head st q) = Fine (t \<in> set (Q q))"
  using rq_scan_seg [OF rq_reprD(1) [OF assms]] rq_reprD(4) [OF assms] rq_repr_length [OF assms]
  by (simp add: all_valid_def)

lemma rq_repr_frame:
  assumes "rq_repr st Q" and seg: "seg (next_run st') (rq_head st' q) xs None" and "rq_tail st' q = last_of xs"
    and xs: "distinct xs" "all_valid st xs" "\<And>q'. q' \<noteq> q \<Longrightarrow> set xs \<inter> set (Q q') = {}"
    and other: "\<And>q' t. q' \<noteq> q \<Longrightarrow> t \<in> set (Q q') \<Longrightarrow> next_run st' t = next_run st t"
    and same: "\<And>q'. q' \<noteq> q \<Longrightarrow> rq_head st' q' = rq_head st q'" "\<And>q'. q' \<noteq> q \<Longrightarrow> rq_tail st' q' = rq_tail st q'"
    and "chunks st' = chunks st"
  shows "rq_repr st' (Q(q := xs))"
proof -
  have cong: "seg nx p ys r \<Longrightarrow> (\<And>t. t \<in> set ys \<Longrightarrow> nx' t = nx t) \<Longrightarrow> seg nx' p ys r" for nx nx' p ys r
    by (induction ys arbitrary: p) auto
  have "seg (next_run st') (rq_head st' q') (Q q') None" if "q' \<noteq> q" for q'
    unfolding same(1) [OF that] by (rule cong [OF rq_reprD(1) [OF assms(1)]]) (use other that in blast)
  then show ?thesis
    using assms(2,3,10) xs rq_reprD [OF assms(1)] same
    unfolding rq_repr_def all_valid_def by (auto simp: Int_commute)
qed

text \<open>The queue operations touch only the links.\<close>

definition links_only :: "rq_state \<Rightarrow> rq_state \<Rightarrow> bool" where
  "links_only st st' \<longleftrightarrow> tasks st' = tasks st \<and> chunks st' = chunks st \<and> online st' = online st
     \<and> cur_task st' = cur_task st \<and> max_cpus st' = max_cpus st"

lemma links_only_refl [simp]: "links_only st st"
  by (simp add: links_only_def)

lemma links_only_trans: "links_only st st1 \<Longrightarrow> links_only st1 st2 \<Longrightarrow> links_only st st2"
  by (simp add: links_only_def)

lemma rq_enqueue_queued:
  assumes "rq_repr st Q" "t \<in> set (Q q)"
  shows "rq_enqueue q t st = Fine st"
  using rq_scan_repr [OF assms(1), of t q] assms(2) by (simp add: rq_enqueue_def)

lemma rq_enqueue_new:
  assumes repr: "rq_repr st Q" and new: "\<And>q. t \<notin> set (Q q)" and t: "t < TASK_CHUNK_SIZE * chunks st"
  shows "\<exists>st'. rq_enqueue q t st = Fine st' \<and> rq_repr st' (Q(q := Q q @ [t])) \<and> links_only st st'"
proof -
  have scan: "rq_scan st t 0 (rq_head st q) = Fine False"
    using rq_scan_repr [OF repr, of t q] new by simp
  have xs: "distinct (Q q @ [t])" "all_valid st (Q q @ [t])" "\<And>q'. q' \<noteq> q \<Longrightarrow> set (Q q @ [t]) \<inter> set (Q q') = {}"
    using rq_reprD(3,4,5) [OF repr] new t by (auto simp: all_valid_def)
  show ?thesis
  proof (cases "Q q = []")
    case True
    define st' where "st' = st\<lparr>next_run := (next_run st)(t := None), rq_head := (rq_head st)(q := Some t), rq_tail := (rq_tail st)(q := Some t)\<rparr>"
    have run: "rq_enqueue q t st = Fine st'"
      using scan rq_reprD(2) [OF repr, of q] True by (simp add: rq_enqueue_def last_of_def st'_def)
    have "rq_repr st' (Q(q := Q q @ [t]))"
      by (rule rq_repr_frame [OF repr]) (use xs True new in \<open>auto simp: st'_def last_of_def\<close>)
    then show ?thesis using run by (simp add: st'_def links_only_def)
  next
    case False
    then obtain ys l where q: "Q q = ys @ [l]" by (metis rev_exhaust)
    define st' where "st' = st\<lparr>next_run := (next_run st)(t := None, l := Some t), rq_tail := (rq_tail st)(q := Some t)\<rparr>"
    have run: "rq_enqueue q t st = Fine st'"
      using scan rq_reprD(2) [OF repr, of q] q by (simp add: rq_enqueue_def last_of_def st'_def)
    have l: "l \<notin> set ys" "t \<noteq> l" "t \<notin> set ys" using rq_reprD(3) [OF repr, of q] new [of q] q by auto
    have "rq_repr st' (Q(q := Q q @ [t]))"
    proof (rule rq_repr_frame [OF repr])
      show "seg (next_run st') (rq_head st' q) (Q q @ [t]) None"
        using rq_reprD(1) [OF repr, of q] l by (simp add: q seg_append st'_def)
      show "next_run st' u = next_run st u" if "q' \<noteq> q" "u \<in> set (Q q')" for q' u
        using that rq_reprD(5) [OF repr that(1)] q new [of q'] by (auto simp: st'_def)
    qed (use xs in \<open>auto simp: st'_def last_of_def\<close>)
    then show ?thesis using run by (simp add: st'_def links_only_def)
  qed
qed

lemma rq_dequeue_repr:
  assumes repr: "rq_repr st Q"
  shows "Q q = [] \<Longrightarrow> rq_dequeue q st = Fine (None, st)"
    and "Q q = t # xs \<Longrightarrow> \<exists>st'. rq_dequeue q st = Fine (Some t, st') \<and> rq_repr st' (Q(q := xs)) \<and> links_only st st'"
proof -
  note seg = rq_reprD(1) [OF repr, of q]
  show "Q q = [] \<Longrightarrow> rq_dequeue q st = Fine (None, st)" using seg by (simp add: rq_dequeue_def)
  assume q: "Q q = t # xs"
  have valid: "all_valid st (t # xs)" using rq_reprD(4) [OF repr, of _ q] by (auto simp: all_valid_def q)
  have t: "t \<notin> set xs" using rq_reprD(3) [OF repr, of q] q by simp
  have v: "sched_task_ptr_valid st (Some t)" "next_run st t = None \<or> sched_task_ptr_valid st (next_run st t)"
    using valid valid_head [of "next_run st" "next_run st t" xs st] seg q by (auto simp: sched_task_ptr_valid_def)
  define st' where "st' = (let st1 = st\<lparr>rq_head := (rq_head st)(q := next_run st t), next_run := (next_run st)(t := None)\<rparr> in
     if next_run st t = None then st1\<lparr>rq_tail := (rq_tail st1)(q := None)\<rparr> else st1)"
  have run: "rq_dequeue q st = Fine (Some t, st')"
    using seg q v by (auto simp: rq_dequeue_def st'_def Let_def)
  have "rq_repr st' (Q(q := xs))"
  proof (rule rq_repr_frame [OF repr])
    have "rq_head st' q = next_run st t" by (simp add: st'_def Let_def)
    moreover have "next_run st' = (next_run st)(t := None)" by (simp add: st'_def Let_def)
    ultimately show "seg (next_run st') (rq_head st' q) xs None" using seg q t by simp
    have "xs = [] \<longleftrightarrow> next_run st t = None" using seg q by (cases xs) auto
    then show "rq_tail st' q = last_of xs" using rq_reprD(2) [OF repr, of q] q by (auto simp: st'_def Let_def last_of_def)
    show "next_run st' u = next_run st u" if "q' \<noteq> q" "u \<in> set (Q q')" for q' u
      using that rq_reprD(5) [OF repr that(1)] q by (auto simp: st'_def Let_def)
    show "set xs \<inter> set (Q q') = {}" if "q' \<noteq> q" for q' using rq_reprD(5) [OF repr that] q by auto
  qed (use valid rq_reprD(3) [OF repr, of q] q in \<open>auto simp: st'_def Let_def\<close>)
  then show "\<exists>st'. rq_dequeue q st = Fine (Some t, st') \<and> rq_repr st' (Q(q := xs)) \<and> links_only st st'"
    using run by (simp add: st'_def Let_def links_only_def)
qed

lemma rq_remove_walk_skip:
  assumes "seg (next_run st) p xs r" "t \<notin> set xs" "all_valid st xs" "r = None \<or> sched_task_ptr_valid st r"
    and "w + length xs \<le> RQ_WALK_LIMIT"
  shows "rq_remove_walk q t w removed prev p st
     = rq_remove_walk q t (w + length xs) removed (if xs = [] then prev else Some (last xs)) r st"
  using assms
proof (induction xs arbitrary: p w prev)
  case (Cons x xs)
  have "next_run st x = None \<or> sched_task_ptr_valid st (next_run st x)"
    using Cons.prems(1,3,4) by (cases xs) (auto simp: sched_task_ptr_valid_def)
  then have "rq_remove_walk q t w removed prev p st = rq_remove_walk q t (w + 1) removed (Some x) (next_run st x) st"
    using Cons.prems by (auto simp: Let_def)
  then show ?case using Cons.IH [of "next_run st x" "w + 1" "Some x"] Cons.prems by simp
qed simp

lemma rq_remove_absent:
  assumes "rq_repr st Q" "t \<notin> set (Q q)"
  shows "rq_remove q t st = Fine (False, st)"
  using rq_remove_walk_skip [OF rq_reprD(1) [OF assms(1), of q] assms(2), of 0 q False None]
    rq_reprD(4) [OF assms(1), of _ q] rq_repr_length [OF assms(1), of q]
  by (simp add: rq_remove_def all_valid_def)

lemma rq_unlink_seg:
  assumes "seg nx h (as @ t # bs) None" "distinct (as @ t # bs)"
  shows "seg ((case last_of as of Some p \<Rightarrow> nx(p := nx t) | None \<Rightarrow> nx)(t := None))
     (case last_of as of Some p \<Rightarrow> h | None \<Rightarrow> nx t) (as @ bs) None"
proof (cases as rule: rev_cases)
  case Nil
  then show ?thesis using assms by (simp add: last_of_def)
next
  case (snoc ys l)
  then show ?thesis using assms by (auto simp: last_of_def seg_append)
qed

lemma rq_remove_present:
  assumes repr: "rq_repr st Q" and q: "Q q = as @ t # bs"
  shows "\<exists>st'. rq_remove q t st = Fine (True, st') \<and> rq_repr st' (Q(q := as @ bs)) \<and> links_only st st'"
proof -
  note seg = rq_reprD(1) [OF repr, of q, unfolded q]
  have dist: "distinct (as @ t # bs)" using rq_reprD(3) [OF repr, of q] q by simp
  have valid: "all_valid st (as @ t # bs)" using rq_reprD(4) [OF repr, of _ q] by (simp add: all_valid_def q)
  have len: "length as + Suc (length bs) \<le> RQ_WALK_LIMIT" using rq_repr_length [OF repr, of q] q by simp
  define st' where "st' = rq_unlink q (last_of as) t (next_run st t) st"
  have nx: "next_run st' = (case last_of as of Some p \<Rightarrow> (next_run st)(p := next_run st t) | None \<Rightarrow> next_run st)(t := None)"
    by (simp add: st'_def rq_unlink_def Let_def split: option.split)
  have hd': "rq_head st' = (case last_of as of Some p \<Rightarrow> rq_head st | None \<Rightarrow> (rq_head st)(q := next_run st t))"
    by (simp add: st'_def rq_unlink_def Let_def split: option.split)
  have tl': "rq_tail st' = (if rq_tail st q = Some t then (rq_tail st)(q := last_of as) else rq_tail st)"
    by (simp add: st'_def rq_unlink_def Let_def split: option.split)
  have only: "links_only st st'" by (simp add: st'_def rq_unlink_def Let_def links_only_def split: option.split)
  have segs: "seg (next_run st) (rq_head st q) as (Some t)" "seg (next_run st) (next_run st t) bs None"
    using seg by (auto simp: seg_append)
  have tv: "sched_task_ptr_valid st (Some t)" "next_run st t = None \<or> sched_task_ptr_valid st (next_run st t)"
    using valid valid_head [OF segs(2)] by (auto simp: sched_task_ptr_valid_def)
  have "rq_remove q t st = rq_remove_walk q t (length as) False (last_of as) (Some t) st"
    unfolding rq_remove_def using rq_remove_walk_skip [OF segs(1), of t 0 q False None] dist valid tv(1) len
    by (simp add: last_of_def)
  also have "\<dots> = rq_remove_walk q t (length as + 1) True (last_of as) (next_run st t) st'"
    using tv(2) len by (auto simp: Let_def st'_def)
  also have "\<dots> = Fine (True, st')"
  proof -
    have "seg (next_run st') (next_run st t) bs None"
      using segs(2) dist unfolding nx by (cases as rule: rev_cases) (auto simp: last_of_def)
    moreover have "all_valid st' bs" using valid only by (simp add: links_only_def all_valid_def)
    ultimately show ?thesis
      using rq_remove_walk_skip [of st' "next_run st t" bs None t "length as + 1" q True "last_of as"] dist len by simp
  qed
  finally have run: "rq_remove q t st = Fine (True, st')" .
  have "rq_repr st' (Q(q := as @ bs))"
  proof (rule rq_repr_frame [OF repr])
    show "seg (next_run st') (rq_head st' q) (as @ bs) None"
      unfolding nx hd' using rq_unlink_seg [OF seg dist] by (cases "last_of as") simp_all
    show "rq_tail st' q = last_of (as @ bs)"
      unfolding tl' rq_reprD(2) [OF repr] using dist by (auto simp: q last_of_def)
    show "next_run st' u = next_run st u" if "q' \<noteq> q" "u \<in> set (Q q')" for q' u
    proof -
      have "u \<notin> set (Q q)" using rq_reprD(5) [OF repr that(1)] that(2) by auto
      then show ?thesis unfolding nx by (cases as rule: rev_cases) (auto simp: q last_of_def)
    qed
    show "set (as @ bs) \<inter> set (Q q') = {}" if "q' \<noteq> q" for q' using rq_reprD(5) [OF repr that] q by auto
    show "rq_head st' q' = rq_head st q'" if "q' \<noteq> q" for q' using that by (simp add: hd' split: option.split)
    show "rq_tail st' q' = rq_tail st q'" if "q' \<noteq> q" for q' using that by (simp add: tl')
  qed (use dist valid only in \<open>auto simp: links_only_def\<close>)
  then show ?thesis using run only by blast
qed

lemma rq_remove_repr:
  assumes repr: "rq_repr st Q"
  shows "\<exists>st'. rq_remove q t st = Fine (t \<in> set (Q q), st') \<and> rq_repr st' (Q(q := remove1 t (Q q))) \<and> links_only st st'"
proof (cases "t \<in> set (Q q)")
  case True
  then obtain as bs where q: "Q q = as @ t # bs" "t \<notin> set as" by (meson split_list_first)
  then have "remove1 t (Q q) = as @ bs" by (simp add: remove1_append)
  then show ?thesis using rq_remove_present [OF repr q(1)] True by simp
next
  case False
  then have "Q(q := remove1 t (Q q)) = Q" by (simp add: remove1_idem fun_upd_idem)
  then show ?thesis using rq_remove_absent [OF repr False] repr False by simp
qed

lemma rq_remove_from_repr:
  assumes "rq_repr st Q"
  shows "\<exists>st'. rq_remove_from qs t st = Fine st' \<and> links_only st st'
     \<and> rq_repr st' (\<lambda>q. if q \<in> set qs then removeAll t (Q q) else Q q)"
  using assms
proof (induction qs arbitrary: st Q)
  case (Cons q qs)
  obtain st1 where st1: "rq_remove q t st = Fine (t \<in> set (Q q), st1)" "rq_repr st1 (Q(q := remove1 t (Q q)))" "links_only st st1"
    using rq_remove_repr [OF Cons.prems] by blast
  obtain st2 where st2: "rq_remove_from qs t st1 = Fine st2" "links_only st1 st2"
    "rq_repr st2 (\<lambda>p. if p \<in> set qs then removeAll t ((Q(q := remove1 t (Q q))) p) else (Q(q := remove1 t (Q q))) p)"
    using Cons.IH [OF st1(2)] by blast
  have rm: "remove1 t (Q q) = removeAll t (Q q)" using rq_reprD(3) [OF Cons.prems] by (simp add: distinct_remove1_removeAll)
  have "(\<lambda>p. if p \<in> set qs then removeAll t ((Q(q := remove1 t (Q q))) p) else (Q(q := remove1 t (Q q))) p)
      = (\<lambda>p. if p \<in> set (q # qs) then removeAll t (Q p) else Q p)"
    unfolding rm by (auto simp: removeAll_id)
  then show ?case using st1 st2 links_only_trans by auto
qed auto

section \<open>First in, first out\<close>

text \<open>
  What the scheduler relies on in a run queue, for any implementation: \<open>holds st
  xs\<close> says that \<open>st\<close> holds the tasks \<open>xs\<close> in this order, \<open>fresh\<close> that a task may be
  added. Then a task is served after exactly the tasks that were ahead of it,
  whatever is added in between.
\<close>

datatype 'a fifo_op = Put 'a | Get

locale fifo_queue =
  fixes holds :: "'st \<Rightarrow> 'a list \<Rightarrow> bool"
    and fresh :: "'a \<Rightarrow> 'st \<Rightarrow> bool"
    and put :: "'a \<Rightarrow> 'st \<Rightarrow> 'st mem_result"
    and get :: "'st \<Rightarrow> ('a option \<times> 'st) mem_result"
  assumes put_law: "holds st xs \<Longrightarrow> fresh x st \<Longrightarrow> \<exists>st'. put x st = Fine st' \<and> holds st' (xs @ [x])"
    and get_law: "holds st (x # xs) \<Longrightarrow> \<exists>st'. get st = Fine (Some x, st') \<and> holds st' xs"
begin

inductive runs :: "'st \<Rightarrow> 'a fifo_op list \<Rightarrow> 'st \<Rightarrow> bool" where
  runs_nil: "runs st [] st"
| runs_put: "fresh x st \<Longrightarrow> put x st = Fine st1 \<Longrightarrow> runs st1 ops st' \<Longrightarrow> runs st (Put x # ops) st'"
| runs_get: "get st = Fine (r, st1) \<Longrightarrow> runs st1 ops st' \<Longrightarrow> runs st (Get # ops) st'"

lemma served_in_turn:
  assumes "runs st ops st'" "holds st (xs @ x # ys)" "count_list ops Get = length xs"
  shows "\<exists>zs. holds st' (x # ys @ zs)"
  using assms
proof (induction arbitrary: xs ys)
  case (runs_nil st)
  then show ?case by (auto intro: exI [of _ "[]"])
next
  case (runs_put z st st1 ops st')
  have "holds st1 ((xs @ x # ys) @ [z])" using put_law [OF runs_put.prems(1) runs_put.hyps(1)] runs_put.hyps(2) by auto
  then have "holds st1 (xs @ x # (ys @ [z]))" by simp
  from runs_put.IH [OF this] runs_put.prems(2) obtain zs where "holds st' (x # (ys @ [z]) @ zs)" by auto
  then have "holds st' (x # ys @ (z # zs))" by simp
  then show ?case by blast
next
  case (runs_get st r st1 ops st')
  then obtain w ws where xs: "xs = w # ws" by (cases xs) auto
  have "holds st1 (ws @ x # ys)" using get_law [of st w "ws @ x # ys"] runs_get.prems(1) runs_get.hyps(1) xs by auto
  from runs_get.IH [OF this] runs_get.prems(2) xs show ?case by simp
qed

end

definition rq_holds :: "rq_id \<Rightarrow> rq_state \<Rightarrow> nat list \<Rightarrow> bool" where
  "rq_holds q st xs \<longleftrightarrow> (\<exists>Q. rq_repr st Q \<and> Q q = xs)"

definition rq_fresh :: "nat \<Rightarrow> rq_state \<Rightarrow> bool" where
  "rq_fresh t st \<longleftrightarrow> t < TASK_CHUNK_SIZE * chunks st \<and> (\<exists>Q. rq_repr st Q \<and> (\<forall>q. t \<notin> set (Q q)))"

interpretation rq_fifo: fifo_queue "rq_holds q" rq_fresh "rq_enqueue q" "rq_dequeue q" for q
proof
  fix st xs x
  assume "rq_holds q st xs" "rq_fresh x st"
  then obtain Q where "rq_repr st Q" "Q q = xs" "\<And>q. x \<notin> set (Q q)" "x < TASK_CHUNK_SIZE * chunks st"
    unfolding rq_holds_def rq_fresh_def using rq_repr_unique by metis
  then show "\<exists>st'. rq_enqueue q x st = Fine st' \<and> rq_holds q st' (xs @ [x])"
    using rq_enqueue_new [of st Q x q] unfolding rq_holds_def by fastforce
next
  fix st x xs
  assume "rq_holds q st (x # xs)"
  then show "\<exists>st'. rq_dequeue q st = Fine (Some x, st') \<and> rq_holds q st' xs"
    unfolding rq_holds_def using rq_dequeue_repr(2) by (metis fun_upd_same)
qed

section \<open>Stealing\<close>

lemma rq_repr_tasks: "rq_repr (st\<lparr>tasks := f\<rparr>) Q \<longleftrightarrow> rq_repr st Q"
  by (simp add: rq_repr_def)

lemma rq_repr_upd_task [simp]: "rq_repr (upd_task t f st) Q \<longleftrightarrow> rq_repr st Q"
  by (simp add: upd_task_def rq_repr_tasks)

definition tasks_only :: "rq_state \<Rightarrow> rq_state \<Rightarrow> bool" where
  "tasks_only st st' \<longleftrightarrow> chunks st' = chunks st \<and> online st' = online st \<and> cur_task st' = cur_task st \<and> max_cpus st' = max_cpus st"

lemma task_claim_cases:
  obtains (won) "task_claim t st = (True, upd_task t (\<lambda>k. k\<lparr>t_state := TASK_RUNNING\<rparr>) (upd_task t (\<lambda>k. k\<lparr>t_stack_released := False\<rparr>) st))"
      "\<not> t_constructing (tasks st t)" "\<not> task_running_somewhere t st" "t_stack_released (tasks st t)" "t_state (tasks st t) = TASK_READY"
  | (lost) st' where "task_claim t st = (False, st')" "tasks st' = tasks st" "\<And>Q. rq_repr st' Q \<longleftrightarrow> rq_repr st Q" "tasks_only st st'"
proof -
  have run: "task_running_somewhere t (upd_task u f st) = task_running_somewhere t st" for u f
    by (simp add: task_running_somewhere_def upd_task_def)
  consider "t_constructing (tasks st t) \<or> task_running_somewhere t st \<or> \<not> t_stack_released (tasks st t)"
    | "\<not> t_constructing (tasks st t)" "\<not> task_running_somewhere t st" "t_stack_released (tasks st t)" "t_state (tasks st t) \<noteq> TASK_READY"
    | "\<not> t_constructing (tasks st t)" "\<not> task_running_somewhere t st" "t_stack_released (tasks st t)" "t_state (tasks st t) = TASK_READY"
    by blast
  then show thesis
  proof cases
    case 1
    then show thesis using lost [of st] by (auto simp: task_claim_def tasks_only_def)
  next
    case 2
    let ?st = "upd_task t (\<lambda>k. k\<lparr>t_stack_released := True\<rparr>) (upd_task t (\<lambda>k. k\<lparr>t_stack_released := False\<rparr>) st)"
    have "tasks ?st = tasks st" using 2 by (auto simp: upd_task_def fun_eq_iff)
    moreover have "task_claim t st = (False, ?st)" using 2 run by (simp add: task_claim_def Let_def) (simp add: upd_task_def)
    moreover have "tasks_only st ?st" by (simp add: tasks_only_def upd_task_def)
    ultimately show thesis using lost by simp
  next
    case 3
    then show thesis using won run by (simp add: task_claim_def Let_def) (simp add: upd_task_def)
  qed
qed

text \<open>
  What stealing does when nothing else touches the queues and the tasks between
  its locks: it rotates the queues it looks at, and the task it
  returns, if any, is a ready stealable one that is allowed on this CPU, comes
  from another online CPU and now runs, its stack taken.
\<close>

definition steal_spec ::
    "nat option \<Rightarrow> nat set \<Rightarrow> rq_state \<Rightarrow> (rq_id \<Rightarrow> nat list) \<Rightarrow> nat option \<Rightarrow> rq_state \<Rightarrow> (rq_id \<Rightarrow> nat list) \<Rightarrow> bool" where
  "steal_spec self cpus st Q v st' Q' \<longleftrightarrow> rq_repr st' Q' \<and> tasks_only st st' \<and>
     (case v of
        None \<Rightarrow> tasks st' = tasks st \<and> (\<forall>q. mset (Q' q) = mset (Q q))
      | Some t \<Rightarrow>
          stealable_now t st \<and> (case self of None \<Rightarrow> True | Some c \<Rightarrow> sched_task_allowed_on_cpu t (int c) st)
          \<and> tasks st' = (tasks st)(t := (tasks st t)\<lparr>t_state := TASK_RUNNING, t_stack_released := False\<rparr>)
          \<and> (\<exists>i \<in> cpus. online st i \<and> self \<noteq> Some i
               \<and> (\<forall>q. mset (Q q) = mset (Q' q) + (if q = CpuRq i then {#t#} else {#}))))"

lemma steal_spec_step:
  assumes "steal_spec self cpus st1 Q1 v st' Q'" "tasks_only st st1" "tasks st1 = tasks st" "\<And>q. mset (Q1 q) = mset (Q q)" "cpus \<subseteq> cpus'"
  shows "steal_spec self cpus' st Q v st' Q'"
proof -
  have eq: "stealable_now t st1 = stealable_now t st" "sched_task_allowed_on_cpu t c st1 = sched_task_allowed_on_cpu t c st" for t c
    using assms(2,3) by (simp_all add: stealable_now_def task_running_somewhere_def sched_task_allowed_on_cpu_def tasks_only_def)
  show ?thesis
  proof (cases v)
    case None
    then show ?thesis using assms by (simp add: steal_spec_def tasks_only_def)
  next
    case (Some t)
    then show ?thesis using assms eq by (cases self) (auto simp: steal_spec_def tasks_only_def)
  qed
qed

lemma links_only_tasks: "links_only st st' \<Longrightarrow> tasks_only st st'"
  by (simp add: links_only_def tasks_only_def)

lemma tasks_only_trans: "tasks_only st st1 \<Longrightarrow> tasks_only st1 st2 \<Longrightarrow> tasks_only st st2"
  by (simp add: tasks_only_def)

lemma steal_from_spec:
  assumes "rq_repr st Q"
  shows "\<exists>v st' Q'. steal_from self cpus st = Fine (v, st') \<and> steal_spec self (set cpus) st Q v st' Q'"
  using assms
proof (induction cpus arbitrary: st Q)
  case Nil
  then show ?case by (auto simp: steal_spec_def tasks_only_def)
next
  case (Cons i cpus)
  have next_ok: "\<exists>v st' Q'. steal_from self cpus st2 = Fine (v, st') \<and> steal_spec self (set (i # cpus)) st Q v st' Q'"
    if "rq_repr st2 Q2" "tasks_only st st2" "tasks st2 = tasks st" "\<And>q. mset (Q2 q) = mset (Q q)" for st2 Q2
    using Cons.IH [OF that(1)] steal_spec_step [of self "set cpus" st2 Q2 _ _ _ st Q "set (i # cpus)"] that(2-4) by fastforce
  show ?case
  proof (cases "\<not> online st i \<or> self = Some i \<or> rq_head st (CpuRq i) = None")
    case True
    then show ?thesis using next_ok [OF Cons.prems] by (simp add: tasks_only_def)
  next
    case False
    then obtain t xs where q: "Q (CpuRq i) = t # xs"
      using rq_reprD(1) [OF Cons.prems, of "CpuRq i"] by (cases "Q (CpuRq i)") auto
    obtain st1 where st1: "rq_dequeue (CpuRq i) st = Fine (Some t, st1)" "rq_repr st1 (Q(CpuRq i := xs))" "links_only st st1"
      using rq_dequeue_repr(2) [OF Cons.prems q] by blast
    have gone: "t \<notin> set ((Q(CpuRq i := xs)) p)" for p
      using rq_reprD(3,5) [OF Cons.prems, of "CpuRq i"] q by (cases "p = CpuRq i") auto
    have tv: "t < TASK_CHUNK_SIZE * chunks st" using rq_reprD(4) [OF Cons.prems, of t "CpuRq i"] q by simp
    have put_back: "\<exists>v st' Q'. mem_bind (rq_enqueue (CpuRq i) t st2) (steal_from self cpus) = Fine (v, st')
        \<and> steal_spec self (set (i # cpus)) st Q v st' Q'"
      if "rq_repr st2 (Q(CpuRq i := xs))" "tasks_only st st2" "tasks st2 = tasks st" for st2
    proof -
      have "t < TASK_CHUNK_SIZE * chunks st2" using tv that(2) by (simp add: tasks_only_def)
      from rq_enqueue_new [OF that(1) gone this, of "CpuRq i"] obtain st3 where
        st3: "rq_enqueue (CpuRq i) t st2 = Fine st3" "rq_repr st3 (Q(CpuRq i := xs @ [t]))" "links_only st2 st3"
        by (simp only: fun_upd_same fun_upd_upd) blast
      have "tasks_only st st3" "tasks st3 = tasks st"
        using that(2,3) st3(3) tasks_only_trans links_only_tasks by (blast, simp add: links_only_def)
      from next_ok [OF st3(2) this] show ?thesis using q st3(1) by simp
    qed
    have same: "tasks_only st st1" "tasks st1 = tasks st" using st1(3) by (simp_all add: links_only_def tasks_only_def)
    define denied where "denied = (case self of None \<Rightarrow> False | Some c \<Rightarrow> \<not> sched_task_allowed_on_cpu t (int c) st1)"
    have eq: "steal_from self (i # cpus) st = (if denied then mem_bind (rq_enqueue (CpuRq i) t st1) (steal_from self cpus)
        else if stealable_now t st1 then
          (case task_claim t st1 of
             (True, st2) \<Rightarrow> Fine (Some t, upd_task t (\<lambda>k. k\<lparr>t_stack_released := False\<rparr>) st2)
           | (False, st2) \<Rightarrow> mem_bind (rq_enqueue (CpuRq i) t st2) (steal_from self cpus))
        else mem_bind (rq_enqueue (CpuRq i) t st1) (steal_from self cpus))"
      using False st1(1) by (auto simp: denied_def Let_def)
    show ?thesis
    proof (cases "denied \<or> \<not> stealable_now t st1")
      case True
      then show ?thesis using eq put_back [OF st1(2) same] by auto
    next
      case ok: False
      show ?thesis
      proof (cases rule: task_claim_cases [of t st1])
        case (lost st2)
        then show ?thesis
          using eq ok put_back [of st2] st1(2) same tasks_only_trans [of st st1 st2] by simp
      next
        case won
        define st' where "st' = upd_task t (\<lambda>k. k\<lparr>t_stack_released := False\<rparr>)
          (upd_task t (\<lambda>k. k\<lparr>t_state := TASK_RUNNING\<rparr>) (upd_task t (\<lambda>k. k\<lparr>t_stack_released := False\<rparr>) st1))"
        have run: "steal_from self (i # cpus) st = Fine (Some t, st')" using eq ok won(1) by (simp add: st'_def)
        have "rq_repr st' (Q(CpuRq i := xs))" using st1(2) by (simp add: st'_def)
        moreover have "tasks st' = (tasks st)(t := (tasks st t)\<lparr>t_state := TASK_RUNNING, t_stack_released := False\<rparr>)"
          using same by (simp add: st'_def upd_task_def)
        moreover have "tasks_only st st'" using same(1) by (simp add: st'_def upd_task_def tasks_only_def)
        moreover have "stealable_now t st" "case self of None \<Rightarrow> True | Some c \<Rightarrow> sched_task_allowed_on_cpu t (int c) st"
          using ok same by (auto simp: denied_def stealable_now_def task_running_somewhere_def sched_task_allowed_on_cpu_def
              tasks_only_def split: option.splits)
        moreover have "\<forall>p. mset (Q p) = mset ((Q(CpuRq i := xs)) p) + (if p = CpuRq i then {#t#} else {#})"
          using q by simp
        ultimately have "steal_spec self (set (i # cpus)) st Q (Some t) st' (Q(CpuRq i := xs))"
          using False by (auto simp: steal_spec_def)
        then show ?thesis using run by blast
      qed
    qed
  qed
qed

section \<open>Reachable queues\<close>

text \<open>
  The operations in any order, each under the lock of one queue: \<open>rq_enqueue\<close>,
  \<open>rq_dequeue\<close> and \<open>rq_remove\<close>, by whatever call they are reached. A task
  is enqueued only while no other queue holds it, which the callers have to see
  to: \<open>rq_enqueue\<close> looks at its own queue alone.
\<close>

definition rq_elsewhere :: "rq_id \<Rightarrow> nat \<Rightarrow> rq_state \<Rightarrow> bool" where
  "rq_elsewhere q t st \<longleftrightarrow> (\<exists>q' xs. q' \<noteq> q \<and> rq_holds q' st xs \<and> t \<in> set xs)"

inductive rq_step :: "rq_state \<Rightarrow> rq_state \<Rightarrow> bool" where
  step_enqueue: "rq_enqueue q t st = Fine st' \<Longrightarrow> t < TASK_CHUNK_SIZE * chunks st \<Longrightarrow> \<not> rq_elsewhere q t st \<Longrightarrow> rq_step st st'"
| step_dequeue: "rq_dequeue q st = Fine (r, st') \<Longrightarrow> rq_step st st'"
| step_remove: "rq_remove q t st = Fine (r, st') \<Longrightarrow> rq_step st st'"
| step_task: "rq_step st (upd_task t f st)"
| step_switch: "rq_step st (st\<lparr>cur_task := f, online := g, max_cpus := n\<rparr>)"
| step_grow: "chunks st < TASK_MAX_CHUNKS \<Longrightarrow> rq_step st (st\<lparr>chunks := chunks st + 1\<rparr>)"

inductive rq_reachable :: "rq_state \<Rightarrow> bool" where
  reach_init: "(\<And>q. rq_head st q = None) \<Longrightarrow> (\<And>q. rq_tail st q = None) \<Longrightarrow> chunks st \<le> TASK_MAX_CHUNKS \<Longrightarrow> rq_reachable st"
| reach_step: "rq_reachable st \<Longrightarrow> rq_step st st' \<Longrightarrow> rq_reachable st'"

lemma rq_enqueue_repr:
  assumes repr: "rq_repr st Q" and t: "t < TASK_CHUNK_SIZE * chunks st" and other: "\<not> rq_elsewhere q t st"
  shows "\<exists>st'. rq_enqueue q t st = Fine st' \<and> rq_repr st' (Q(q := if t \<in> set (Q q) then Q q else Q q @ [t])) \<and> links_only st st'"
proof (cases "t \<in> set (Q q)")
  case True
  then show ?thesis using rq_enqueue_queued [OF repr True] repr by simp
next
  case False
  have "t \<notin> set (Q q')" for q'
    using other False repr unfolding rq_elsewhere_def rq_holds_def by (cases "q' = q") auto
  then show ?thesis using rq_enqueue_new [OF repr _ t, of q] False by simp
qed

lemma dequeue_repr:
  assumes "rq_repr st Q"
  shows "\<exists>r st' Q'. rq_dequeue q st = Fine (r, st') \<and> rq_repr st' Q'"
  using rq_dequeue_repr(1) [OF assms, of q] rq_dequeue_repr(2) [OF assms, of q] assms by (cases "Q q") blast+

lemma remove_task_repr:
  assumes "rq_repr st Q"
  shows "\<exists>st' Q'. sched_rq_remove_task t st = Fine st' \<and> rq_repr st' Q'"
    and "\<exists>st'. sched_rq_remove_task_all t st = Fine st'
      \<and> rq_repr st' (\<lambda>q. if q \<in> set (GlobalRq # online_rqs st) then removeAll t (Q q) else Q q)"
  unfolding sched_rq_remove_task_def sched_rq_remove_task_all_def
  using rq_remove_from_repr [OF assms, of "online_rqs st" t] rq_remove_from_repr [OF assms, of "[GlobalRq]" t]
    rq_remove_from_repr [OF assms, of "GlobalRq # online_rqs st" t] by (auto split: if_splits)

lemma rq_step_repr:
  assumes "rq_step st st'" "rq_repr st Q"
  shows "\<exists>Q'. rq_repr st' Q'"
  using assms(1)
proof cases
  case (step_grow)
  have "t < TASK_CHUNK_SIZE * (chunks st + 1)" if "t \<in> set (Q q)" for t q
    using rq_reprD(4) [OF assms(2) that] by simp
  then have "rq_repr st' Q" using rq_reprD [OF assms(2)] step_grow unfolding rq_repr_def by auto
  then show ?thesis by blast
next
  case (step_enqueue q t)
  then show ?thesis using rq_enqueue_repr [OF assms(2), of t q] by fastforce
next
  case (step_dequeue q r)
  then show ?thesis using dequeue_repr [OF assms(2), of q] by fastforce
next
  case (step_remove q t r)
  then show ?thesis using rq_remove_repr [OF assms(2), of q t] by fastforce
next
  case (step_task t f)
  then show ?thesis using assms(2) by auto
next
  case (step_switch f g n)
  then show ?thesis using assms(2) by (auto simp: rq_repr_def)
qed

lemma rq_reachable_repr: "rq_reachable st \<Longrightarrow> \<exists>Q. rq_repr st Q"
proof (induction rule: rq_reachable.induct)
  case (reach_init st)
  then have "rq_repr st (\<lambda>_. [])" by (simp add: rq_repr_def last_of_def)
  then show ?case by blast
qed (use rq_step_repr in blast)

text \<open>
  The guard is needed: enqueuing the first task of another queue cuts the tasks
  behind it off that queue.
\<close>

lemma rq_enqueue_elsewhere_truncates:
  assumes repr: "rq_repr st Q" and q: "q' \<noteq> q" "Q q' = t # y # ys"
  shows "\<exists>st'. rq_enqueue q t st = Fine st' \<and> seg (next_run st') (rq_head st' q') [t] None"
proof -
  have new: "t \<notin> set (Q q)" using rq_reprD(5) [OF repr q(1)] q(2) by auto
  have scan: "rq_scan st t 0 (rq_head st q) = Fine False" using rq_scan_repr [OF repr, of t q] new by simp
  have hd: "rq_head st q' = Some t" using rq_reprD(1) [OF repr, of q'] q(2) by simp
  have "l \<noteq> t" if "rq_tail st q = Some l" for l
    using that new rq_reprD(2) [OF repr, of q] by (auto simp: last_of_def split: if_splits)
  then show ?thesis using scan hd q(1) by (cases "rq_tail st q") (auto simp: rq_enqueue_def Let_def)
qed

section \<open>Properties\<close>

text \<open>
  C37. The run queues stay well formed, provided a task is enqueued only while no
  other queue holds it: in every state the locked queue operations then reach, in
  any order and from any CPU, each queue is a finite chain of different task slots
  that ends at its tail, the chains share no task, and no operation finds a chain
  to report as cyclic or corrupt, so that \<open>rq_dequeue\<close>, \<open>rq_remove\<close> and such
  an \<open>rq_enqueue\<close> return.
\<close>

theorem runqueue_well_formed:
  assumes "rq_reachable st"
  shows "\<exists>Q. rq_repr st Q
     \<and> (\<exists>r st'. rq_dequeue q st = Fine (r, st')) \<and> (\<exists>r st'. rq_remove q t st = Fine (r, st'))
     \<and> (t < TASK_CHUNK_SIZE * chunks st \<longrightarrow> \<not> rq_elsewhere q t st \<longrightarrow> (\<exists>st'. rq_enqueue q t st = Fine st'))"
proof -
  obtain Q where repr: "rq_repr st Q" using rq_reachable_repr [OF assms] by blast
  show ?thesis
    using repr dequeue_repr [OF repr, of q] rq_remove_repr [OF repr, of q t] rq_enqueue_repr [OF repr, of t q] by blast
qed

text \<open>
  C38. The linked queues implement lists: enqueuing appends a task that is on no
  queue and leaves a queued one where it is, dequeuing takes the first, removal
  takes the task out wherever it stands, sweeping all queues leaves it on none
  of them, and the search finds exactly the queued tasks.
\<close>

theorem runqueue_refines_lists:
  assumes "rq_repr st Q" and "\<And>c. online st c \<Longrightarrow> c < MAX_CPUS \<and> c < max_cpus st" and "\<And>c. \<not> online st c \<Longrightarrow> Q (CpuRq c) = []"
  shows "(t \<in> set (Q q) \<longrightarrow> rq_enqueue q t st = Fine st)
     \<and> (sched_rq_contains_task (Some t) st \<longleftrightarrow> (\<exists>q. t \<in> set (Q q)))
     \<and> (\<not> sched_rq_contains_task (Some t) st \<longrightarrow> t < TASK_CHUNK_SIZE * chunks st \<longrightarrow>
          (\<exists>st'. rq_enqueue q t st = Fine st' \<and> rq_repr st' (Q(q := Q q @ [t]))))
     \<and> (case Q q of [] \<Rightarrow> rq_dequeue q st = Fine (None, st)
        | x # xs \<Rightarrow> \<exists>st'. rq_dequeue q st = Fine (Some x, st') \<and> rq_repr st' (Q(q := xs)))
     \<and> (\<exists>st'. rq_remove q t st = Fine (t \<in> set (Q q), st') \<and> rq_repr st' (Q(q := remove1 t (Q q))))
     \<and> (\<exists>st'. sched_rq_remove_task_all t st = Fine st' \<and> rq_repr st' (\<lambda>q. removeAll t (Q q)))"
proof -
  have contains: "sched_rq_contains_task (Some t) st \<longleftrightarrow> (\<exists>q. t \<in> set (Q q))"
  proof -
    have "q \<in> set (GlobalRq # map CpuRq (filter (online st) [0..<MAX_CPUS]))" if "t \<in> set (Q q)" for q
      using that assms(2,3) by (cases q) fastforce+
    then show ?thesis
      unfolding sched_rq_contains_task_def option.case rq_scan_repr [OF assms(1)] by blast
  qed
  have "(\<lambda>q. if q \<in> set (GlobalRq # online_rqs st) then removeAll t (Q q) else Q q) = (\<lambda>q. removeAll t (Q q))"
  proof
    fix q
    show "(if q \<in> set (GlobalRq # online_rqs st) then removeAll t (Q q) else Q q) = removeAll t (Q q)"
      using assms(2,3) by (cases q) (fastforce simp: online_rqs_def)+
  qed
  then have all: "\<exists>st'. sched_rq_remove_task_all t st = Fine st' \<and> rq_repr st' (\<lambda>q. removeAll t (Q q))"
    using remove_task_repr(2) [OF assms(1), of t] by simp
  have deq: "case Q q of [] \<Rightarrow> rq_dequeue q st = Fine (None, st)
        | x # xs \<Rightarrow> \<exists>st'. rq_dequeue q st = Fine (Some x, st') \<and> rq_repr st' (Q(q := xs))"
    using rq_dequeue_repr [OF assms(1), of q] by (cases "Q q") auto
  show ?thesis
    using contains all deq rq_enqueue_queued [OF assms(1)] rq_enqueue_new [OF assms(1), of t q] rq_remove_repr [OF assms(1), of q t]
    by blast
qed

section \<open>Witnesses\<close>

text \<open>Tasks 3 and 5 wait on the global queue of a machine with one CPU that runs task 1.\<close>

definition example_task :: task where
  "example_task = \<lparr>t_state = TASK_READY, t_stealable = False, t_stack_released = True, t_affinity = 0, t_constructing = False\<rparr>"

definition example_rq0 :: rq_state where
  "example_rq0 = \<lparr>next_run = (\<lambda>_. None), rq_head = (\<lambda>_. None), rq_tail = (\<lambda>_. None), tasks = (\<lambda>_. example_task),
     chunks = 1, ap_idle = (\<lambda>_. None), online = (\<lambda>c. c = 0), cur_task = [0 \<mapsto> 1], max_cpus = 1\<rparr>"

definition example_rq1 :: rq_state where
  "example_rq1 = example_rq0\<lparr>next_run := (\<lambda>_. None)(3 := None), rq_head := [GlobalRq \<mapsto> 3], rq_tail := [GlobalRq \<mapsto> 3]\<rparr>"

definition example_rq :: rq_state where
  "example_rq = example_rq0\<lparr>next_run := (\<lambda>_. None)(3 := None, 5 := None, 3 := Some 5), rq_head := [GlobalRq \<mapsto> 3], rq_tail := [GlobalRq \<mapsto> 5]\<rparr>"

lemma example_rq_steps:
  "rq_enqueue GlobalRq 3 example_rq0 = Fine example_rq1"
  "rq_enqueue GlobalRq 5 example_rq1 = Fine example_rq"
  by (simp_all add: rq_enqueue_def example_rq_def example_rq0_def example_rq1_def
      example_task_def RQ_WALK_LIMIT_def)

lemma not_elsewhere:
  assumes "\<And>q'. q' \<noteq> q \<Longrightarrow> rq_head st q' = None"
  shows "\<not> rq_elsewhere q t st"
proof
  assume "rq_elsewhere q t st"
  then obtain q' Q where "q' \<noteq> q" "rq_repr st Q" "t \<in> set (Q q')" by (auto simp: rq_elsewhere_def rq_holds_def)
  with rq_reprD(1) [of st Q q'] assms show False by (simp add: seg_None)
qed

lemma example_rq_reachable: "rq_reachable example_rq"
proof -
  have "rq_reachable example_rq0" by (rule reach_init) (simp_all add: example_rq0_def TASK_MAX_CHUNKS_def)
  moreover have "rq_step example_rq0 example_rq1"
    by (rule step_enqueue [OF example_rq_steps(1)])
       (auto simp: TASK_CHUNK_SIZE_def example_rq0_def intro!: not_elsewhere)
  moreover have "rq_step example_rq1 example_rq"
    by (rule step_enqueue [OF example_rq_steps(2)])
       (auto simp: TASK_CHUNK_SIZE_def example_rq0_def example_rq1_def intro!: not_elsewhere)
  ultimately show ?thesis by (blast intro: reach_step)
qed

lemma example_rq_repr: "rq_repr example_rq ((\<lambda>_. [])(GlobalRq := [3, 5]))"
  by (auto simp: rq_repr_def example_rq_def example_rq0_def last_of_def TASK_CHUNK_SIZE_def TASK_MAX_CHUNKS_def)

theorem runqueue_well_formed_witness:
  "(\<exists>r st'. rq_dequeue GlobalRq example_rq = Fine (r, st')) \<and> (\<exists>r st'. rq_remove GlobalRq 5 example_rq = Fine (r, st'))"
  using runqueue_well_formed [OF example_rq_reachable, of GlobalRq 5] by (elim exE conjE) (intro conjI exI)

theorem runqueue_refines_lists_witness:
  "(\<exists>st'. rq_dequeue GlobalRq example_rq = Fine (Some 3, st') \<and> rq_repr st' ((\<lambda>_. [])(GlobalRq := [5])))
   \<and> sched_rq_contains_task (Some 5) example_rq \<and> \<not> sched_rq_contains_task (Some 4) example_rq"
proof -
  let ?Q = "(\<lambda>_. [])(GlobalRq := [3, 5 :: nat])"
  have on: "online example_rq c \<Longrightarrow> c < MAX_CPUS \<and> c < max_cpus example_rq" "?Q (CpuRq c) = []" for c
    by (simp_all add: example_rq_def example_rq0_def MAX_CPUS_def)
  have "case ?Q GlobalRq of [] \<Rightarrow> rq_dequeue GlobalRq example_rq = Fine (None, example_rq)
      | x # xs \<Rightarrow> \<exists>st'. rq_dequeue GlobalRq example_rq = Fine (Some x, st') \<and> rq_repr st' (?Q(GlobalRq := xs))"
    and "sched_rq_contains_task (Some 5) example_rq \<longleftrightarrow> (\<exists>q. 5 \<in> set (?Q q))"
    using runqueue_refines_lists [OF example_rq_repr on, of 5 GlobalRq] by blast+
  moreover have "sched_rq_contains_task (Some 4) example_rq \<longleftrightarrow> (\<exists>q. 4 \<in> set (?Q q))"
    using runqueue_refines_lists [OF example_rq_repr on, of 4 GlobalRq] by blast
  ultimately show ?thesis unfolding fun_upd_upd fun_upd_same list.case by auto
qed

end
