(* ===== verification/Spec2Isabelle.thy ===== *)
theory Spec2Isabelle
  imports SockFilter Creds SysvMsg SysvSem FileLock Pipe Landlock Lz4 RunQueue
begin

text \<open>
  Verification of components of the b1nix kernel: the parts that decide who may
  do what (user namespaces, credentials, system call filters, Landlock, file
  locks, IPC permissions), the blocking objects that tasks communicate through
  (pipes, FIFOs, System V message queues and semaphores), two interpreters and
  decoders of untrusted input (classic BPF, LZ4), and the run queues.

  \<^bold>\<open>How the parts interact.\<close> A task has a credential (\<^verbatim>\<open>sched/uidgid.c\<close>) in a user
  namespace (\<^verbatim>\<open>sched/user_namespace.c\<close>, kept in the slot tables of
  \<^verbatim>\<open>sched/namespace.c\<close>). Every privileged path asks \<open>ns_capable_cred\<close>: the IPC objects
  through \<open>ipc_check_perm\<close>, seccomp and Landlock before they restrict a task without
  no_new_privs, and \<open>setns(2)\<close>. fork copies the credential, the filters and the
  Landlock domain of the parent; exec changes the credential by the set-id bits
  unless no_new_privs masks them. Socket filters and system call filters run
  programs of the same instruction set.

  \<^bold>\<open>Theories\<close> (all paths are under \<^verbatim>\<open>src/kernel\<close>).
  \<^item> \<open>Prelude\<close>: integer types, error codes, result types, the driver \<open>loop\<close> of C
    loops, the locale \<open>bounded_loop\<close> for their termination and the locale
    \<open>sleeper\<close> for calls that sleep and retry.
  \<^item> \<open>Bpf\<close>: instruction encoding and the locale \<open>bpf_machine\<close>, that a machine whose
    jumps go forward stops. \<open>SockFilter\<close> (\<^verbatim>\<open>net/sock_filter.c\<close>) and \<open>Seccomp\<close> interpret it.
  \<^item> \<open>RefChain\<close>: the locale \<open>ref_chain\<close> of reference-counted chains with one pointer
    per task; \<open>Seccomp\<close> interprets it for filters, \<open>Landlock\<close> for domains.
  \<^item> \<open>UserNs\<close> (\<^verbatim>\<open>sched/user_namespace.c\<close>, \<^verbatim>\<open>sched/namespace.c\<close> for user namespaces): the
    record \<open>ns_state\<close> holds the slot tables and maps. Shown: translation is a
    bijection, what a capability is relative to, counts never underflow, a
    written map gives nothing its writer may not give. The locale
    \<open>cap_authority\<close> is what the other components rely on.
  \<^item> \<open>Creds\<close> (\<^verbatim>\<open>sched/uidgid.c\<close> and the prctl options of \<^verbatim>\<open>syscall/syscall.c\<close> that change a
    credential): the record \<open>cred\<close>, one definition per call, and what any
    sequence of calls can gain or lose.
  \<^item> \<open>IpcPerm\<close> (\<^verbatim>\<open>ipc/ipc_ns.c\<close>), \<open>SysvMsg\<close> (\<^verbatim>\<open>ipc/sysv_msg.c\<close>), \<open>SysvSem\<close> (\<^verbatim>\<open>ipc/sysv_sem.c\<close>):
    permissions; queues refine lists of messages (locales \<open>mailbox\<close> and
    \<open>fifo_mailbox\<close>); operation arrays are all or nothing and are undone at exit.
  \<^item> \<open>FileLock\<close> (\<^verbatim>\<open>fs/filelock.c\<close>): the table of records refines an owner for each
    byte; errors, F_GETLK, closing, and a system of waiting tasks in which no
    wake-up is lost.
  \<^item> \<open>Pipe\<close> (\<^verbatim>\<open>fs/pipe.c\<close>): rings, slots, tee and poll (locale \<open>byte_stream\<close>).
  \<^item> \<open>Seccomp\<close> (\<^verbatim>\<open>sched/seccomp.c\<close>): the interpreter, chains of filters, screening.
  \<^item> \<open>Landlock\<close> (\<^verbatim>\<open>fs/landlock.c\<close>, \<open>vfs_get_node_path\<close> of \<^verbatim>\<open>fs/vfs.c\<close>): rulesets, domains,
    the checks of the VFS and the three system calls.
  \<^item> \<open>Lz4\<close> (\<^verbatim>\<open>lib/lz4.c\<close>): compressor and decompressor.
  \<^item> \<open>RunQueue\<close> (\<^verbatim>\<open>sched/runqueue.c\<close>, \<open>task_claim\<close> of \<^verbatim>\<open>sched/scheduler.c\<close>): the linked queues
    refine lists (locale \<open>fifo_queue\<close>).
  \<^item> This theory: the credential across fork (\<open>task_init_cred\<close>, \<open>namespace_fork_inherit\<close>),
    exec, \<open>unshare\<close> and \<open>setns\<close>, and what no_new_privs guarantees for all of them.

  \<^bold>\<open>Conventions.\<close> Global tables are fields of a state record that every operation
  takes and returns; a C function is a definition of the same name. An error
  number is \<open>Inl\<close> of \<open>errno\<close>. Where memory safety is at stake the result is a
  \<open>mem_result\<close>: \<open>Fine\<close>, \<open>Wild\<close> (an access outside an object or to a freed one, or
  an overflow C leaves undefined), \<open>Panic\<close> or \<open>Hang\<close> (a loop that does not end).
  Words have the width of the code where it can wrap; reference counts and
  arrival numbers are unbounded. The outcome of allocations, user memory, the
  current task and the clock are arguments.

  \<^bold>\<open>Loops and bounds.\<close> A loop of the code that is bounded by a counter is structural
  recursion with that bound (the 32-level walks over namespaces, the 256 steps of
  a path walk). Every other loop is \<open>loop\<close> on its body, whose value is \<open>Hang\<close>
  if it does not end; that it ends is proved (a measure for \<open>bounded_loop\<close>, the
  length of the chain for reference chains), so no fuel is chosen anywhere.

  \<^bold>\<open>Concurrency.\<close> What the code does under one lock is one step. Blocking calls take
  the list of states that the table has when the task runs again. Who wakes whom
  is modelled for file locks only, where the code registers the sleeper before it
  drops the lock; message queues, semaphores and FIFOs
  have no statement about wake-ups. A claim that several calls make under
  several locks (stealing a task) is about the run that nothing disturbs.

  \<^bold>\<open>Not modelled.\<close> The rest of the kernel: architecture and boot code, drivers, the
  network stack, the file systems and the path walk (a parameter of
  \<open>Landlock\<close>), memory management, the dispatch of system calls, signals, futexes,
  cgroups, shared memory and POSIX message queues, the namespaces other than user
  namespaces, the selection policy of the scheduler, and user space. They are
  hardware access, or rest on subsystems whose state would have to be invented.
\<close>

unbundle bit_operations_syntax

section \<open>Privileges of a task across fork and exec\<close>

definition exec_file_mode :: "bool \<Rightarrow> nat option \<Rightarrow> seccomp_state \<Rightarrow> u16 \<Rightarrow> u16" where
  "exec_file_mode nosuid current st mode =
     (if nosuid \<or> task_no_new_privs st current then mode AND NOT 0xC00 else mode)"

record exec_file =
  x_mode :: u16
  x_uid :: u32
  x_gid :: u32
  x_nosuid :: bool

definition exec_cred :: "ns_state \<Rightarrow> seccomp_state \<Rightarrow> nat option \<Rightarrow> exec_file \<Rightarrow> cred \<Rightarrow> cred" where
  "exec_cred ns st current f c =
     snd (cred_exec_transform ns (exec_file_mode (x_nosuid f) current st (x_mode f)) (x_uid f) (x_gid f) True c)"

text \<open>
  The credential of a new task. \<open>parent\<close> is the credential of the task the
  search by \<open>parent_id\<close> finds, if any, and \<open>child_ns\<close> the user namespace that
  \<open>clone(CLONE_NEWUSER)\<close> has prepared for the child, if any: \<open>fork_cred\<close> is
  \<open>task_init_cred\<close> followed by the part of \<open>namespace_fork_inherit\<close> that touches
  the credential.
\<close>

definition task_init_cred :: "bool \<Rightarrow> nat \<Rightarrow> cred option \<Rightarrow> ns_state \<Rightarrow> cred option \<times> ns_state" where
  "task_init_cred alloc_ok pid parent ns =
     (if pid = 0 then (cred_create_default alloc_ok, ns) else cred_dup alloc_ok parent ns)"

definition fork_cred ::
    "bool \<Rightarrow> nat \<Rightarrow> cred option \<Rightarrow> nat option \<Rightarrow> ns_state \<Rightarrow> (cred option \<times> ns_state) option" where
  "fork_cred alloc_ok pid parent child_ns ns =
     (case task_init_cred alloc_ok pid parent ns of
        (co, ns1) \<Rightarrow> (case child_ns of None \<Rightarrow> Some (co, ns1) | Some n \<Rightarrow> cred_enter_userns_locked co n ns1))"

text \<open>
  \<open>setns(2)\<close> on a user namespace; \<open>threads\<close> is the size of the thread group.
  \<^term>\<open>None\<close> is the panic of a reference underflow.
\<close>

definition ns_install_check_user :: "nat \<Rightarrow> nat \<Rightarrow> cred \<Rightarrow> ns_state \<Rightarrow> unit result" where
  "ns_install_check_user threads i c st =
     (if \<not> ns_live_locked NS_USER i st then Inl EINVAL
      else if i = cred_userns (Some c) then Inl EINVAL
      else if threads > 1 then Inl EINVAL
      else if \<not> ns_capable_cred st (Some c) i CAP_SYS_ADMIN then Inl EPERM
      else Inr ())"

definition ns_install_user :: "nat \<Rightarrow> cred \<Rightarrow> ns_state \<Rightarrow> (cred option \<times> ns_state) option" where
  "ns_install_user i c st = cred_enter_userns_locked (Some c) i (ns_get_locked NS_USER i st)"

record task_privs =
  tp_seccomp :: seccomp_state
  tp_cred :: "nat \<rightharpoonup> cred"

datatype priv_op =
    Filters seccomp_op | Clone nat nat bool "nat option" | Ids nat cred_call | Exec nat exec_file
  | Unshare nat | Setns nat nat

text \<open>
  The steps of the tasks of the system, each in some state \<open>ns\<close> of the namespace
  tables, of which a step assumes only that a namespace stays live while a
  credential refers to it, and that they form a tree. \<open>Clone p c ok n\<close> is
  a fork or clone, \<open>ok\<close> saying whether the copy of the credential gets its memory,
  and \<open>Unshare\<close> is \<open>unshare(CLONE_NEWUSER)\<close>, without its checks.
\<close>

inductive priv_step :: "priv_op \<Rightarrow> task_privs \<Rightarrow> task_privs \<Rightarrow> bool" where
  filters: "seccomp_step oper (tp_seccomp s) sec' \<Longrightarrow> (\<And>p c. oper \<noteq> Fork p c) \<Longrightarrow>
     priv_step (Filters oper) s (s\<lparr>tp_seccomp := sec'\<rparr>)"
| clone: "seccomp_step (Fork p c) (tp_seccomp s) sec' \<Longrightarrow> pid \<noteq> 0 \<Longrightarrow>
     (\<And>cr. tp_cred s p = Some cr \<Longrightarrow> ns_live_locked NS_USER (c_user_ns cr) ns) \<Longrightarrow>
     child_ns \<noteq> Some 0 \<Longrightarrow> fork_cred ok pid (tp_cred s p) child_ns ns = Some (co, ns') \<Longrightarrow>
     priv_step (Clone p c ok child_ns) s \<lparr>tp_seccomp = sec', tp_cred = (tp_cred s)(c := co)\<rparr>"
| ids: "tp_cred s t = Some c \<Longrightarrow>
     priv_step (Ids t call) s (s\<lparr>tp_cred := (tp_cred s)(t \<mapsto> cred_call_run ns call c)\<rparr>)"
| exec: "tp_cred s t = Some c \<Longrightarrow>
     priv_step (Exec t f) s (s\<lparr>tp_cred := (tp_cred s)(t \<mapsto> exec_cred ns (tp_seccomp s) (Some t) f c)\<rparr>)"
| unshare: "tp_cred s t = Some c \<Longrightarrow> userns_create (Some c) ns = (Inr n, ns1) \<Longrightarrow>
     cred_enter_userns_locked (Some c) n ns1 = Some (co, ns2) \<Longrightarrow>
     priv_step (Unshare t) s (s\<lparr>tp_cred := (tp_cred s)(t := co)\<rparr>)"
| setns: "tp_cred s t = Some c \<Longrightarrow> userns_tree ns \<Longrightarrow> ns_install_check_user threads n c ns = Inr () \<Longrightarrow>
     ns_install_user n c ns = Some (co, ns') \<Longrightarrow>
     priv_step (Setns t n) s (s\<lparr>tp_cred := (tp_cred s)(t := co)\<rparr>)"

fun priv_steps :: "task_privs \<Rightarrow> priv_op list \<Rightarrow> task_privs \<Rightarrow> bool" where
  "priv_steps s [] s' \<longleftrightarrow> s' = s"
| "priv_steps s (oper # ops) s' \<longleftrightarrow> (\<exists>s1. priv_step oper s s1 \<and> priv_steps s1 ops s')"

text \<open>The descendants of a set of tasks; the slot of a reaped task may be used again.\<close>

fun priv_heirs :: "priv_op \<Rightarrow> nat set \<Rightarrow> nat set" where
  "priv_heirs (Filters oper) ts = heirs oper ts"
| "priv_heirs (Clone p c ok n) ts = heirs (Fork p c) ts"
| "priv_heirs _ ts = ts"

definition priv_lineage :: "priv_op list \<Rightarrow> nat set \<Rightarrow> nat set" where
  "priv_lineage = fold priv_heirs"

fun alloc_fails :: "priv_op \<Rightarrow> bool" where
  "alloc_fails (Clone p c ok n) = (\<not> ok)"
| "alloc_fails _ = False"

text \<open>The root of the initial user namespace is uid 0, whatever the state of the namespace tables.\<close>

lemma cred_root_initial: "c_user_ns c = 0 \<Longrightarrow> cred_root_kuid ns c = 0"
  by (simp add: cred_root_kuid_def make_kuid_def map_up_def)

definition confined :: "u32 set \<Rightarrow> u64 \<Rightarrow> cred \<Rightarrow> bool" where
  "confined S P c \<longleftrightarrow> c_user_ns c = 0 \<and> caps_wf c \<and> caps_le (cap_permitted c) P \<and> uids_in S c"

lemma confined_no_setuid: "confined S P c \<Longrightarrow> \<not> has_cap P CAP_SETUID \<Longrightarrow> no_setuid c"
  by (auto simp: confined_def no_setuid_def caps_wf_def caps_le_iff has_cap_bit NS_MAX_USER_def)

lemma confined_call:
  assumes "confined S P c" "\<not> has_cap P CAP_SETUID"
  shows "confined S P (cred_call_run ns call c)"
  using assms cred_call_run_caps_fall [of c ns call] cred_call_run_caps_wf [of c ns call]
    uids_in_call [OF confined_no_setuid [OF assms], of S ns call]
  by (auto simp: confined_def caps_fall_def caps_le_iff)

lemma exec_setid_masked: "task_no_new_privs st current \<Longrightarrow> exec_setid ns (exec_file_mode n current st mode) u g h c = c"
proof -
  assume nnp: "task_no_new_privs st current"
  have m: "exec_file_mode n current st mode AND x = mode AND (NOT 0xC00 AND x)" for x
    using nnp unfolding exec_file_mode_def by (simp only: disj_not1 if_True simp_thms and.assoc)
  have "exec_file_mode n current st mode AND 0x800 = 0" unfolding m by simp
  moreover have "exec_file_mode n current st mode AND 0x408 \<noteq> 0x408"
  proof
    assume "exec_file_mode n current st mode AND 0x408 = 0x408"
    then have "(exec_file_mode n current st mode AND 0x408) AND 0x400 = 0x408 AND 0x400" by simp
    then show False unfolding m by (simp add: and.assoc)
  qed
  ultimately show ?thesis by (simp add: exec_setid_def Let_def)
qed

lemma confined_exec:
  assumes "confined S P c" "0 \<notin> S" "task_no_new_privs sec current"
  shows "confined S P (exec_cred ns sec current f c)"
proof -
  have "c_uid c \<noteq> 0" "c_euid c \<noteq> 0" using assms(1,2) by (auto simp: confined_def uids_in_def)
  then show ?thesis
    using assms(1) cred_root_initial [of c ns]
    by (auto simp: exec_cred_def cred_exec_transform_def Let_def exec_setid_masked [OF assms(3)] confined_def
        uids_in_def caps_wf_def caps_le_iff bit_simps)
qed

text \<open>
  What no_new_privs keeps of a task: it is confined, or it has left the initial
  user namespace and has no capability there any more.
\<close>

definition jailed :: "u32 set \<Rightarrow> u64 \<Rightarrow> cred \<Rightarrow> bool" where
  "jailed S P c \<longleftrightarrow> confined S P c \<or> c_user_ns c \<noteq> 0"

lemma left_initial_ns: "c_user_ns c \<noteq> 0 \<Longrightarrow> userns_tree ns \<Longrightarrow> \<not> ns_capable_cred ns (Some c) 0 cap"
  by (auto simp: ns_capable_cred_def walk_limit_def userns_tree_def numeral_eq_Suc)

lemma jailed_cap:
  assumes "jailed S P c" "userns_tree ns" "cred_has_cap ns (Some c) cap"
  shows "has_cap P cap"
proof -
  have "c_user_ns c = 0" using assms left_initial_ns [of c ns cap] by (auto simp: cred_has_cap_def)
  moreover from this have "confined S P c" using assms(1) by (simp add: jailed_def)
  ultimately show ?thesis
    using assms(3) userns_caps.own_ns [of c ns cap]
    by (auto simp: cred_has_cap_def confined_def caps_wf_def caps_le_iff has_cap_bit NS_MAX_USER_def)
qed

lemma entered_ns: "cred_enter_userns_locked (Some c) n ns = Some (co, ns') \<Longrightarrow> \<exists>d. co = Some d \<and> c_user_ns d = n"
  by (auto simp: cred_enter_userns_locked_def)

lemma jailed_call: "jailed S P c \<Longrightarrow> \<not> has_cap P CAP_SETUID \<Longrightarrow> jailed S P (cred_call_run ns call c)"
  using confined_call [of S P c ns call] cred_call_run_caps_fall [of c ns call] by (auto simp: jailed_def caps_fall_def)

lemma jailed_exec:
  "jailed S P c \<Longrightarrow> 0 \<notin> S \<Longrightarrow> task_no_new_privs sec current \<Longrightarrow> jailed S P (exec_cred ns sec current f c)"
  using confined_exec [of S P c sec current ns f] by (auto simp: jailed_def exec_cred_def cred_exec_transform_def Let_def)

lemma jailed_fork:
  assumes "jailed S P c" "pid \<noteq> 0" "ns_live_locked NS_USER (c_user_ns c) ns" "child_ns \<noteq> Some 0"
    "fork_cred True pid (Some c) child_ns ns = Some (co, ns')"
  shows "\<exists>d. co = Some d \<and> jailed S P d"
proof -
  define ns1 where "ns1 = (if c_user_ns c = 0 then ns else ns_get_locked NS_USER (c_user_ns c) ns)"
  have init: "task_init_cred True pid (Some c) ns = (Some c, ns1)"
    using assms(2,3) by (simp add: task_init_cred_def cred_dup_def namespace_get_def ns1_def)
  show ?thesis
  proof (cases child_ns)
    case None
    then have "co = Some c" using assms(5) init by (simp add: fork_cred_def)
    then show ?thesis using assms(1) by blast
  next
    case (Some n)
    then have "cred_enter_userns_locked (Some c) n ns1 = Some (co, ns')" using assms(5) init by (simp add: fork_cred_def)
    from entered_ns [OF this] show ?thesis using assms(4) Some by (auto simp: jailed_def)
  qed
qed

lemma jailed_setns:
  assumes "userns_tree ns" "ns_install_check_user threads n c ns = Inr ()" "ns_install_user n c ns = Some (co, ns')"
  shows "\<exists>d. co = Some d \<and> jailed S P d"
proof -
  have "n \<noteq> c_user_ns c" "ns_capable_cred ns (Some c) n CAP_SYS_ADMIN"
    using assms(2) by (auto simp: ns_install_check_user_def cred_userns_def split: if_splits)
  then have "n \<noteq> 0" using left_initial_ns [OF _ assms(1), of c CAP_SYS_ADMIN] by metis
  with entered_ns [OF assms(3) [unfolded ns_install_user_def]] show ?thesis by (auto simp: jailed_def)
qed

lemma userns_create_nonzero: "userns_create (Some c) ns = (Inr n, ns') \<Longrightarrow> n \<noteq> 0"
  by (auto simp: userns_create_def Let_def split: if_splits prod.splits)

definition sandboxed :: "u32 set \<Rightarrow> u64 \<Rightarrow> nat set \<Rightarrow> task_privs \<Rightarrow> bool" where
  "sandboxed S P ts s \<longleftrightarrow> (\<forall>t\<in>ts. g_task_nnp (tp_seccomp s) t \<and> (\<exists>c. tp_cred s t = Some c \<and> jailed S P c))"

lemma sandboxed_step:
  assumes "priv_step oper s s'" "\<not> alloc_fails oper" "sandboxed S P ts s" "0 \<notin> S" "\<not> has_cap P CAP_SETUID"
  shows "sandboxed S P (priv_heirs oper ts) s'"
  using assms(1)
proof (cases rule: priv_step.cases)
  case (filters op sec')
  have "u \<in> ts" if "u \<in> heirs op ts" for u
    using that by (cases rule: heirs_cases) (use filters(4) in auto)
  then show ?thesis using assms(3) seccomp_step_nnp [OF filters(3), of ts] filters by (auto simp: sandboxed_def)
next
  case (clone p c sec' pid ns child_ns ok co ns')
  have nnp: "u \<in> heirs (Fork p c) ts \<Longrightarrow> g_task_nnp sec' u" for u
    using assms(3) by (intro seccomp_step_nnp [OF clone(3), of ts]) (auto simp: sandboxed_def)
  have "\<exists>d. co = Some d \<and> jailed S P d" if p: "p \<in> ts"
  proof -
    obtain cr where "tp_cred s p = Some cr" "jailed S P cr" using assms(3) p unfolding sandboxed_def by blast
    then show ?thesis
      using jailed_fork [of S P cr pid ns child_ns co ns'] clone(1,4-7) assms(2) by simp
  qed
  then show ?thesis
    using nnp assms(3) clone(1,2) by (auto simp: sandboxed_def split: if_splits)
next
  case (ids t c call ns)
  then show ?thesis using assms(3,5) jailed_call [of S P c] by (auto simp: sandboxed_def)
next
  case (exec t c f ns)
  then show ?thesis using assms(3,4) jailed_exec [of S P c "tp_seccomp s" "Some t"]
    by (auto simp: sandboxed_def task_no_new_privs_def)
next
  case (unshare t c ns n ns1 co ns2)
  have "\<exists>d. co = Some d \<and> jailed S P d"
    using entered_ns [OF unshare(5)] userns_create_nonzero [OF unshare(4)] by (auto simp: jailed_def)
  then show ?thesis using assms(3) unshare(1,2) by (auto simp: sandboxed_def)
next
  case (setns t c ns threads n co ns')
  have "\<exists>d. co = Some d \<and> jailed S P d" by (rule jailed_setns [OF setns(4-6)])
  then show ?thesis using assms(3) setns(1,2) by (auto simp: sandboxed_def)
qed

lemma sandboxed_steps:
  assumes "0 \<notin> S" "\<not> has_cap P CAP_SETUID"
  shows "priv_steps s ops s' \<Longrightarrow> \<not> list_ex alloc_fails ops \<Longrightarrow> sandboxed S P ts s \<Longrightarrow> sandboxed S P (priv_lineage ops ts) s'"
proof (induction ops arbitrary: s ts)
  case (Cons oper ops)
  then show ?case using sandboxed_step [OF _ _ Cons.prems(3) assms] by (auto simp: priv_lineage_def)
qed (simp add: priv_lineage_def)

section \<open>Properties across components\<close>

text \<open>
  C40. no_new_privs, forks, user namespaces, set-id calls and exec together. Take a
  task of the initial user namespace that has set no_new_privs and has neither
  CAP_SETUID permitted nor uid 0 among its uids. Through any interleaving of
  filters, forks and clones, new and joined user namespaces, id calls and execs
  of any files, set-uid root ones included, and provided no fork runs out of
  memory for the copy of the credential, no_new_privs holds for every
  descendant, a descendant has no capability over the initial user namespace
  that the task did not have permitted, and as long as a descendant is in the
  initial user namespace its uids are among the four of the task.
\<close>

theorem no_new_privs_sandbox:
  assumes "task_no_new_privs (tp_seccomp s) (Some t)" "tp_cred s t = Some c" "c_user_ns c = 0" "caps_wf c"
    and "0 \<notin> {c_uid c, c_euid c, c_suid c, c_fsuid c}" "\<not> has_cap (cap_permitted c) CAP_SETUID"
    and "priv_steps s ops s'" "\<not> list_ex alloc_fails ops" "u \<in> priv_lineage ops {t}"
  shows "task_no_new_privs (tp_seccomp s') (Some u) \<and> (\<exists>d. tp_cred s' u = Some d
    \<and> (\<forall>ns h cap. userns_reachable ns h \<longrightarrow> cred_has_cap ns (Some d) cap \<longrightarrow> has_cap (cap_permitted c) cap)
    \<and> (c_user_ns d = 0 \<longrightarrow>
         {c_uid d, c_euid d, c_suid d, c_fsuid d} \<subseteq> {c_uid c, c_euid c, c_suid c, c_fsuid c}
         \<and> caps_le (cap_permitted d) (cap_permitted c) \<and> caps_le (cap_effective d) (cap_permitted c)))"
proof -
  let ?S = "{c_uid c, c_euid c, c_suid c, c_fsuid c}" and ?P = "cap_permitted c"
  have "sandboxed ?S ?P {t} s"
    using assms(1-4) by (auto simp: sandboxed_def jailed_def confined_def uids_in_def caps_le_iff task_no_new_privs_def)
  from sandboxed_steps [OF assms(5-8) this] assms(9)
  obtain d where d: "task_no_new_privs (tp_seccomp s') (Some u)" "tp_cred s' u = Some d" "jailed ?S ?P d"
    by (auto simp: sandboxed_def task_no_new_privs_def)
  have "has_cap ?P cap" if "userns_reachable ns h" "cred_has_cap ns (Some d) cap" for ns h cap
    using jailed_cap [OF d(3) _ that(2)] userns_reachable_inv [OF that(1)] by (simp add: userns_inv_def)
  moreover have "confined ?S ?P d" if "c_user_ns d = 0" using d(3) that by (simp add: jailed_def)
  ultimately show ?thesis
    using d(1,2) by (auto simp: confined_def caps_wf_def caps_le_iff uids_in_def)
qed

text \<open>
  The proviso is needed: when the copy of the credential fails, the child has
  none, and its own child is given the default credential, that of root.
\<close>

lemma failed_cred_copy_makes_root:
  assumes "pid \<noteq> 0" "task_init_cred False pid (Some c) ns = (co, ns')" "task_init_cred True pid co ns' = (co', ns'')"
  shows "co' = Some cred_default"
  using assms by (auto simp: task_init_cred_def cred_dup_def cred_create_default_def)

section \<open>Witness\<close>

text \<open>
  Task 1 of user 1000 has set no_new_privs, installed a filter, and forks; the
  child executes a file with mode 04755 owned by root and calls \<open>setuid(0)\<close>.
\<close>

definition example_suid_root :: exec_file where
  "example_suid_root = \<lparr>x_mode = 0x9ED, x_uid = 0, x_gid = 0, x_nosuid = False\<rparr>"

definition example_shell :: task_privs where
  "example_shell = \<lparr>tp_seccomp = example_denied, tp_cred = [1 \<mapsto> example_user]\<rparr>"

lemma example_shell_runs:
  "\<exists>s' d. priv_steps example_shell [Clone 1 2 True None, Exec 2 example_suid_root, Ids 2 (Setuid 0)] s'
     \<and> tp_cred s' 2 = Some d \<and> c_user_ns d = 0"
proof -
  let ?s1 = "\<lparr>tp_seccomp = example_forked, tp_cred = (tp_cred example_shell)(2 := Some example_user)\<rparr>"
  have "fork_cred True 2 (tp_cred example_shell 1) None userns_boot = Some (Some example_user, userns_boot)"
    by (simp add: fork_cred_def task_init_cred_def cred_dup_def example_shell_def example_user_def cred_default_def)
  then have "priv_step (Clone 1 2 True None) example_shell ?s1"
    using example_fork
    by (intro priv_step.clone [where pid = 2 and ns = userns_boot])
       (auto simp: example_shell_def example_user_def cred_default_def ns_live_locked_def)
  moreover let ?c2 = "exec_cred userns_boot example_forked (Some 2) example_suid_root example_user"
  let ?c3 = "cred_call_run userns_boot (Setuid 0) ?c2"
  let ?s2 = "?s1\<lparr>tp_cred := (tp_cred ?s1)(2 \<mapsto> ?c2)\<rparr>"
  let ?s3 = "?s2\<lparr>tp_cred := (tp_cred ?s2)(2 \<mapsto> ?c3)\<rparr>"
  have "priv_step (Exec 2 example_suid_root) ?s1 ?s2"
    using priv_step.exec [of ?s1 2 example_user example_suid_root userns_boot] by simp
  moreover have "priv_step (Ids 2 (Setuid 0)) ?s2 ?s3" by (rule priv_step.ids) simp
  ultimately have "priv_steps example_shell [Clone 1 2 True None, Exec 2 example_suid_root, Ids 2 (Setuid 0)] ?s3"
    by (auto simp only: priv_steps.simps)
  moreover have "c_user_ns ?c3 = 0"
    using cred_call_run_caps_fall [of ?c2 userns_boot "Setuid 0"]
    by (simp add: caps_fall_def exec_cred_def cred_exec_transform_def Let_def example_user_def cred_default_def)
  ultimately show ?thesis by (intro exI [of _ ?s3] exI [of _ ?c3]) simp
qed

theorem no_new_privs_sandbox_witness:
  "\<exists>s' d. priv_steps example_shell [Clone 1 2 True None, Exec 2 example_suid_root, Ids 2 (Setuid 0)] s'
   \<and> tp_cred s' 2 = Some d \<and> c_user_ns d = 0 \<and> c_euid d = 1000 \<and> cap_permitted d = 0
   \<and> \<not> cred_has_cap userns_boot (Some d) CAP_SYS_ADMIN"
proof -
  obtain s' d where s': "priv_steps example_shell [Clone 1 2 True None, Exec 2 example_suid_root, Ids 2 (Setuid 0)] s'"
    and cr: "tp_cred s' 2 = Some d" "c_user_ns d = 0"
    using example_shell_runs by blast
  have nnp: "task_no_new_privs (tp_seccomp example_shell) (Some 1)"
    by (simp add: example_shell_def example_denied_def task_no_new_privs_def)
  have "tp_cred example_shell 1 = Some example_user" by (simp add: example_shell_def)
  from no_new_privs_sandbox [OF nnp this _ _ _ _ s', of 2]
  have d: "\<forall>ns h cap. userns_reachable ns h \<longrightarrow> cred_has_cap ns (Some d) cap \<longrightarrow> has_cap (cap_permitted example_user) cap"
    "{c_uid d, c_euid d, c_suid d, c_fsuid d} \<subseteq> {1000} \<and> caps_le (cap_permitted d) 0"
    using cr by (auto simp: example_user_def cred_default_def caps_wf_def caps_le_def has_cap_def priv_lineage_def)
  have "userns_reachable userns_boot (\<lambda>_. 0)" by (simp add: userns_reachable_def)
  with d(1) have "\<not> cred_has_cap userns_boot (Some d) CAP_SYS_ADMIN"
    by (auto simp: example_user_def has_cap_def)
  moreover have "c_euid d = 1000" "cap_permitted d = 0" using d(2) by (auto simp: caps_le_def)
  ultimately show ?thesis using s' cr by (intro exI [of _ s'] exI [of _ d] conjI)
qed

end
